theory Spec2Isabelle
  imports Main
begin

section \<open>Canoga rule engine (Web/Source/js/model): data model\<close>

text \<open>
  Player ids are the strings \<open>"HUMAN"\<close> and \<open>"COMPUTER"\<close> of the source.
\<close>

datatype player_id = HUMAN | COMPUTER

datatype win_type = cover_win | uncover_win

text \<open>
  Every \<open>throw new Error(...)\<close> of the modelled classes is one constructor, and so is
  every \<open>{ error: ... }\<close> object a session method returns.
\<close>

datatype error =
    BadBoardSize
  | SquareOutOfRange nat
  | AlreadyCovered nat
  | AlreadyUncovered nat
  | BadArrayLength
  | InvalidBoardEntry nat
  | NoActiveRound
  | NotExpectingMove
  | NoActiveDiceRoll
  | SelectionNotValid
  | CannotRollNow
  | MustUseOneOrTwoDice
  | NotEnoughDiceValues
  | DiceValuesOutOfRange
  | OneDieNotAllowed
  | InvalidRewindSelection
  | CannotFindLine string
  | BadSquaresLine string
  | BadScoreLine string
  | ScoreNotANumber string
  | MissingHumanSection
  | CannotFindHumanLines
  | UnknownPlayerLabel string

subsection \<open>Board.js\<close>

text \<open>
  \<open>_covered\<close> is an array of \<open>size + 1\<close> booleans; index 0 is unused.
\<close>

record board =
  size_b :: nat
  covered :: "bool list"

definition new_Board :: "nat \<Rightarrow> error + board" where
  "new_Board n =
     (if n < 1 then Inl BadBoardSize
      else Inr \<lparr>size_b = n, covered = replicate (n + 1) False\<rparr>)"

text \<open>
  Reading \<open>this._covered[i]\<close>: an index past the end of a JavaScript array reads
  \<open>undefined\<close>, which is falsy.
\<close>

definition cov :: "board \<Rightarrow> nat \<Rightarrow> bool" where
  "cov b i = (i < length (covered b) \<and> covered b ! i)"

definition validSquareNumber :: "board \<Rightarrow> nat \<Rightarrow> bool" where
  "validSquareNumber b num = (\<not> (num < 1 \<or> num > size_b b))"

definition isCovered :: "board \<Rightarrow> nat \<Rightarrow> error + bool" where
  "isCovered b num =
     (if \<not> validSquareNumber b num then Inl (SquareOutOfRange num)
      else Inr (cov b num))"

text \<open>
  A mutating method returns the raised error, if any, together with the board as the
  call leaves it: what was written before a \<open>throw\<close> stays written.
\<close>

definition cover :: "nat \<Rightarrow> board \<Rightarrow> error option \<times> board" where
  "cover num b =
     (if \<not> validSquareNumber b num then (Some (SquareOutOfRange num), b)
      else if cov b num then (Some (AlreadyCovered num), b)
      else (None, b\<lparr>covered := (covered b)[num := True]\<rparr>))"

definition uncover :: "nat \<Rightarrow> board \<Rightarrow> error option \<times> board" where
  "uncover num b =
     (if \<not> validSquareNumber b num then (Some (SquareOutOfRange num), b)
      else if \<not> cov b num then (Some (AlreadyUncovered num), b)
      else (None, b\<lparr>covered := (covered b)[num := False]\<rparr>))"

fun coverSquares :: "nat list \<Rightarrow> board \<Rightarrow> error option \<times> board" where
  "coverSquares [] b = (None, b)"
| "coverSquares (n # ns) b =
     (case cover n b of
        (Some e, b') \<Rightarrow> (Some e, b')
      | (None, b') \<Rightarrow> coverSquares ns b')"

fun uncoverSquares :: "nat list \<Rightarrow> board \<Rightarrow> error option \<times> board" where
  "uncoverSquares [] b = (None, b)"
| "uncoverSquares (n # ns) b =
     (case uncover n b of
        (Some e, b') \<Rightarrow> (Some e, b')
      | (None, b') \<Rightarrow> uncoverSquares ns b')"

definition getCoveredNumbers :: "board \<Rightarrow> nat list" where
  "getCoveredNumbers b = filter (\<lambda>i. cov b i) [1 ..< size_b b + 1]"

definition getUncoveredNumbers :: "board \<Rightarrow> nat list" where
  "getUncoveredNumbers b = filter (\<lambda>i. \<not> cov b i) [1 ..< size_b b + 1]"

definition areAllCovered :: "board \<Rightarrow> bool" where
  "areAllCovered b = (length (getUncoveredNumbers b) = 0)"

definition areAllUncovered :: "board \<Rightarrow> bool" where
  "areAllUncovered b = (length (getCoveredNumbers b) = 0)"

text \<open>
  \<open>_getCombosForSum\<close>: \<open>backtrack\<close> is the recursive closure, \<open>backtrack_loop\<close>
  its \<open>for\<close> loop over \<open>sorted[i]\<close> for \<open>i \<ge> startIndex\<close>; the first argument is
  the suffix of \<open>sorted\<close> from the loop index on. The result array is returned in the
  order of the pushes.
\<close>

fun backtrack :: "nat list \<Rightarrow> int \<Rightarrow> nat list \<Rightarrow> nat list list"
  and backtrack_loop :: "nat list \<Rightarrow> int \<Rightarrow> nat list \<Rightarrow> nat list list" where
  "backtrack rest remaining path =
     (if remaining = 0 \<and> length path \<ge> 1 \<and> length path \<le> 4 then [path]
      else if remaining < 0 \<or> length path = 4 then []
      else backtrack_loop rest remaining path)"
| "backtrack_loop [] remaining path = []"
| "backtrack_loop (n # rest) remaining path =
     (if int n > remaining then []
      else backtrack rest (remaining - int n) (path @ [n])
           @ backtrack_loop rest remaining path)"

definition getCombosForSum :: "nat list \<Rightarrow> nat \<Rightarrow> nat list list" where
  "getCombosForSum candidates targetSum =
     backtrack (sort candidates) (int targetSum) []"

definition getCoverCombos :: "board \<Rightarrow> nat \<Rightarrow> nat list list" where
  "getCoverCombos b targetSum = getCombosForSum (getUncoveredNumbers b) targetSum"

definition getUncoverCombos :: "board \<Rightarrow> nat \<Rightarrow> nat list list" where
  "getUncoverCombos b targetSum = getCombosForSum (getCoveredNumbers b) targetSum"

definition toNumberArrayFormat :: "board \<Rightarrow> nat list" where
  "toNumberArrayFormat b = map (\<lambda>i. if cov b i then 0 else i) [1 ..< size_b b + 1]"

definition canUseOneDie :: "board \<Rightarrow> bool" where
  "canUseOneDie b =
     (if size_b b < 7 then True else list_all (\<lambda>i. cov b i) [7 ..< size_b b + 1])"

text \<open>
  \<open>loadFromNumberArrayFormat\<close>: the loop writes entry by entry and throws at the first
  bad entry. \<open>load_loop i arr b\<close> is the loop from index \<open>i\<close> on, \<open>arr\<close> the rest
  of the array.
\<close>

fun load_loop :: "nat \<Rightarrow> int list \<Rightarrow> board \<Rightarrow> error option \<times> board" where
  "load_loop i [] b = (None, b)"
| "load_loop i (val # arr) b =
     (let expectedNum = i + 1 in
      if val = 0 then
        load_loop (i + 1) arr (b\<lparr>covered := (covered b)[expectedNum := True]\<rparr>)
      else if val \<noteq> int expectedNum then (Some (InvalidBoardEntry i), b)
      else load_loop (i + 1) arr (b\<lparr>covered := (covered b)[expectedNum := False]\<rparr>))"

definition loadFromNumberArrayFormat :: "int list \<Rightarrow> board \<Rightarrow> error option \<times> board" where
  "loadFromNumberArrayFormat arr b =
     (if length arr \<noteq> size_b b then (Some BadArrayLength, b)
      else load_loop 0 arr b)"

subsection \<open>Player.js\<close>

text \<open>
  A player's \<open>board\<close> is \<open>null\<close> until a round assigns one; \<open>null_board\<close> stands
  for it, and no modelled operation reads it. Scores are sums of square numbers.
\<close>

record player =
  id_p :: player_id
  board_p :: board
  totalScore :: nat

definition null_board :: board where
  "null_board = \<lparr>size_b = 0, covered = []\<rparr>"

definition new_Player :: "player_id \<Rightarrow> player" where
  "new_Player i = \<lparr>id_p = i, board_p = null_board, totalScore = 0\<rparr>"

definition addToScore :: "nat \<Rightarrow> player \<Rightarrow> player" where
  "addToScore delta p = p\<lparr>totalScore := totalScore p + delta\<rparr>"

subsection \<open>GameRound.js\<close>

record advantage_info =
  playerId_i :: player_id
  digitSum_i :: nat

record advantage_lock =
  playerId :: player_id
  squareNumber :: nat
  unlocked :: bool

record game_round =
  boardSize :: nat
  human :: player
  computer :: player
  firstPlayerId :: player_id
  currentPlayerId :: player_id
  advantageInfo :: "advantage_info option"
  advantageLock :: "advantage_lock option"
  roundOver :: bool
  roundWinnerId :: "player_id option"
  winType :: "win_type option"
  roundScore :: nat
  humanEverCovered :: bool
  computerEverCovered :: bool

definition getPlayerById :: "game_round \<Rightarrow> player_id \<Rightarrow> player" where
  "getPlayerById r i = (case i of HUMAN \<Rightarrow> human r | COMPUTER \<Rightarrow> computer r)"

definition getOpponentId :: "player_id \<Rightarrow> player_id" where
  "getOpponentId i = (if i = HUMAN then COMPUTER else HUMAN)"

definition getOpponent :: "game_round \<Rightarrow> player_id \<Rightarrow> player" where
  "getOpponent r i = getPlayerById r (getOpponentId i)"

text \<open>Writing through \<open>getPlayerById(id).board\<close>.\<close>

definition set_board :: "player_id \<Rightarrow> board \<Rightarrow> game_round \<Rightarrow> game_round" where
  "set_board i b r =
     (case i of
        HUMAN \<Rightarrow> r\<lparr>human := (human r)\<lparr>board_p := b\<rparr>\<rparr>
      | COMPUTER \<Rightarrow> r\<lparr>computer := (computer r)\<lparr>board_p := b\<rparr>\<rparr>)"

definition set_player :: "player_id \<Rightarrow> player \<Rightarrow> game_round \<Rightarrow> game_round" where
  "set_player i p r =
     (case i of HUMAN \<Rightarrow> r\<lparr>human := p\<rparr> | COMPUTER \<Rightarrow> r\<lparr>computer := p\<rparr>)"

definition getLockedAdvantageSquare :: "game_round \<Rightarrow> player_id \<Rightarrow> nat option" where
  "getLockedAdvantageSquare r i =
     (case advantageLock r of
        None \<Rightarrow> None
      | Some l \<Rightarrow> if playerId l = i \<and> \<not> unlocked l then Some (squareNumber l) else None)"

definition applyAdvantageIfAny :: "game_round \<Rightarrow> error option \<times> game_round" where
  "applyAdvantageIfAny r =
     (case advantageInfo r of
        None \<Rightarrow> (None, r)
      | Some a \<Rightarrow>
          (let squareNumber = digitSum_i a in
           if squareNumber < 1 \<or> squareNumber > boardSize r then (None, r)
           else
             (case coverSquares [squareNumber] (board_p (getPlayerById r (playerId_i a))) of
                (Some e, b') \<Rightarrow> (Some e, set_board (playerId_i a) b' r)
              | (None, b') \<Rightarrow>
                  (None, (set_board (playerId_i a) b' r)
                     \<lparr>advantageLock :=
                        Some \<lparr>playerId = playerId_i a, squareNumber = squareNumber,
                              unlocked = False\<rparr>\<rparr>))))"

text \<open>
  The constructor. \<open>firstPlayerId\<close> is one of the two ids by its type. A constructor
  that throws yields no object.
\<close>

definition new_GameRound ::
  "nat \<Rightarrow> player \<Rightarrow> player \<Rightarrow> player_id \<Rightarrow> advantage_info option \<Rightarrow> error + game_round" where
  "new_GameRound bs humanPlayer computerPlayer fp adv =
     (if bs < 1 then Inl BadBoardSize
      else
        (case (new_Board bs, new_Board bs) of
           (Inr hb, Inr cb) \<Rightarrow>
             (let r0 = \<lparr>boardSize = bs,
                        human = humanPlayer\<lparr>board_p := hb\<rparr>,
                        computer = computerPlayer\<lparr>board_p := cb\<rparr>,
                        firstPlayerId = fp, currentPlayerId = fp,
                        advantageInfo = adv, advantageLock = None,
                        roundOver = False, roundWinnerId = None, winType = None,
                        roundScore = 0,
                        humanEverCovered = False, computerEverCovered = False\<rparr>
              in (case applyAdvantageIfAny r0 of
                    (Some e, _) \<Rightarrow> Inl e
                  | (None, r1) \<Rightarrow>
                      Inr (r1\<lparr>humanEverCovered :=
                                 length (getCoveredNumbers (board_p (human r1))) > 0,
                               computerEverCovered :=
                                 length (getCoveredNumbers (board_p (computer r1))) > 0\<rparr>)))
         | (Inl e, _) \<Rightarrow> Inl e
         | (_, Inl e) \<Rightarrow> Inl e))"

definition notifyTurnEnded :: "player_id \<Rightarrow> game_round \<Rightarrow> game_round" where
  "notifyTurnEnded pid r =
     (case advantageLock r of
        None \<Rightarrow> r
      | Some l \<Rightarrow>
          if playerId l = pid \<and> \<not> unlocked l
          then r\<lparr>advantageLock := Some (l\<lparr>unlocked := True\<rparr>)\<rparr>
          else r)"

definition getCoverOptions :: "game_round \<Rightarrow> player_id \<Rightarrow> nat \<Rightarrow> nat list list" where
  "getCoverOptions r pid diceSum = getCoverCombos (board_p (getPlayerById r pid)) diceSum"

definition getUncoverOptions :: "game_round \<Rightarrow> player_id \<Rightarrow> nat \<Rightarrow> nat list list" where
  "getUncoverOptions r pid diceSum =
     (let combos = getUncoverCombos (board_p (getOpponent r pid)) diceSum in
      case advantageLock r of
        None \<Rightarrow> combos
      | Some l \<Rightarrow>
          if \<not> unlocked l \<and> pid \<noteq> playerId l
          then filter (\<lambda>combo. squareNumber l \<notin> set combo) combos
          else combos)"

definition hadAnyCovered :: "game_round \<Rightarrow> player \<Rightarrow> bool" where
  "hadAnyCovered r p =
     (case id_p p of HUMAN \<Rightarrow> humanEverCovered r | COMPUTER \<Rightarrow> computerEverCovered r)"

definition computeRoundScore :: "game_round \<Rightarrow> player_id \<Rightarrow> win_type \<Rightarrow> nat" where
  "computeRoundScore r winnerId wt =
     (let winner = getPlayerById r winnerId; loser = getOpponent r winnerId in
      case wt of
        cover_win \<Rightarrow> foldl (\<lambda>acc n. acc + n) 0 (getUncoveredNumbers (board_p loser))
      | uncover_win \<Rightarrow> foldl (\<lambda>acc n. acc + n) 0 (getCoveredNumbers (board_p winner)))"

definition checkForRoundEnd :: "game_round \<Rightarrow> game_round" where
  "checkForRoundEnd r =
     (let humanCoveredAll = areAllCovered (board_p (human r));
          compCoveredAll = areAllCovered (board_p (computer r));
          humanCoveredCount = length (getCoveredNumbers (board_p (human r)));
          compCoveredCount = length (getCoveredNumbers (board_p (computer r)));
          verdict =
            (if humanCoveredAll then Some (HUMAN, cover_win)
             else if compCoveredAll then Some (COMPUTER, cover_win)
             else if compCoveredCount = 0 \<and> hadAnyCovered r (computer r)
               then Some (HUMAN, uncover_win)
             else if humanCoveredCount = 0 \<and> hadAnyCovered r (human r)
               then Some (COMPUTER, uncover_win)
             else None)
      in case verdict of
           None \<Rightarrow> r
         | Some (winnerId, wt) \<Rightarrow>
             (let r1 = r\<lparr>roundOver := True, roundWinnerId := Some winnerId,
                          winType := Some wt,
                          roundScore := computeRoundScore r winnerId wt\<rparr>
              in set_player winnerId
                   (addToScore (roundScore r1) (getPlayerById r1 winnerId)) r1))"

definition applyCoverMove :: "player_id \<Rightarrow> nat list \<Rightarrow> game_round \<Rightarrow> error option \<times> game_round" where
  "applyCoverMove pid squares r =
     (case coverSquares squares (board_p (getPlayerById r pid)) of
        (Some e, b') \<Rightarrow> (Some e, set_board pid b' r)
      | (None, b') \<Rightarrow>
          (let r1 = set_board pid b' r;
               r2 = (if pid = HUMAN then r1\<lparr>humanEverCovered := True\<rparr> else r1);
               r3 = (if pid = COMPUTER then r2\<lparr>computerEverCovered := True\<rparr> else r2)
           in (None, checkForRoundEnd r3)))"

definition applyUncoverMove :: "player_id \<Rightarrow> nat list \<Rightarrow> game_round \<Rightarrow> error option \<times> game_round" where
  "applyUncoverMove pid squares r =
     (case uncoverSquares squares (board_p (getOpponent r pid)) of
        (Some e, b') \<Rightarrow> (Some e, set_board (getOpponentId pid) b' r)
      | (None, b') \<Rightarrow> (None, checkForRoundEnd (set_board (getOpponentId pid) b' r)))"

definition switchTurn :: "game_round \<Rightarrow> game_round" where
  "switchTurn r = r\<lparr>currentPlayerId := getOpponentId (currentPlayerId r)\<rparr>"

subsection \<open>Tournament.js\<close>

text \<open>
  \<open>_digitSum\<close>: \<open>digit_loop\<close> is the \<open>while (x > 0)\<close> loop with its two variables.
  \<open>Math.abs(Math.trunc(n))\<close> on an integer is its absolute value. The numbers of the
  source are doubles. The model computes on integers, which is what the source does for
  an argument up to \<open>Number.MAX_SAFE_INTEGER\<close>: there \<open>x % 10\<close> and
  \<open>Math.floor(x / 10)\<close> are the remainder and the quotient. Beyond it the quotient
  of the source is rounded and the model is not the source. A round score is a sum of
  squares of a board and lies far below.
\<close>

definition MAX_SAFE_INTEGER :: int where
  "MAX_SAFE_INTEGER = 9007199254740991"

function digit_loop :: "nat \<Rightarrow> nat \<Rightarrow> nat" where
  "digit_loop sm x = (if x > 0 then digit_loop (sm + x mod 10) (x div 10) else sm)"
  by pat_completeness auto
termination
  by (relation "measure (\<lambda>(sm, x). x)") auto

declare digit_loop.simps [simp del]

lemma digit_loop_acc: "digit_loop s x = s + digit_loop 0 x"
proof (induction x arbitrary: s rule: less_induct)
  case (less x)
  show ?case
  proof (cases "x > 0")
    case True
    then have lt: "x div 10 < x" by simp
    have a: "digit_loop s x = digit_loop (s + x mod 10) (x div 10)"
      using True by (subst digit_loop.simps) simp
    have b: "digit_loop (s + x mod 10) (x div 10) = (s + x mod 10) + digit_loop 0 (x div 10)"
      by (rule less.IH [OF lt])
    have c: "digit_loop (x mod 10) (x div 10) = x mod 10 + digit_loop 0 (x div 10)"
      by (rule less.IH [OF lt])
    have d: "digit_loop 0 x = digit_loop (0 + x mod 10) (x div 10)"
      using True by (subst digit_loop.simps) simp
    show ?thesis unfolding a b d using c by simp
  next
    case False
    then show ?thesis by (simp add: digit_loop.simps)
  qed
qed

lemma digit_loop_step:
  "x > 0 \<Longrightarrow> digit_loop 0 x = x mod 10 + digit_loop 0 (x div 10)"
proof -
  assume pos: "x > 0"
  have "digit_loop 0 x = digit_loop (0 + x mod 10) (x div 10)"
    using pos by (subst digit_loop.simps) simp
  also have "\<dots> = digit_loop (x mod 10) (x div 10)" by simp
  also have "\<dots> = x mod 10 + digit_loop 0 (x div 10)" by (rule digit_loop_acc)
  finally show ?thesis .
qed

lemma digit_loop_le: "digit_loop 0 x \<le> x"
proof (induction x rule: less_induct)
  case (less x)
  show ?case
  proof (cases "x > 0")
    case True
    then have lt: "x div 10 < x" by simp
    have "digit_loop 0 x = x mod 10 + digit_loop 0 (x div 10)"
      using True by (rule digit_loop_step)
    moreover have "digit_loop 0 (x div 10) \<le> x div 10" using less.IH [OF lt] .
    moreover have "x div 10 * 10 + x mod 10 = x" by (rule div_mult_mod_eq)
    ultimately show ?thesis by linarith
  next
    case False
    then show ?thesis by (simp add: digit_loop.simps)
  qed
qed

lemma digit_loop_less: "10 \<le> x \<Longrightarrow> digit_loop 0 x < x"
proof -
  assume ge: "10 \<le> x"
  then have pos: "x > 0" by simp
  have "digit_loop 0 x = x mod 10 + digit_loop 0 (x div 10)"
    using pos by (rule digit_loop_step)
  moreover have "digit_loop 0 (x div 10) \<le> x div 10" by (rule digit_loop_le)
  moreover have "x div 10 * 10 + x mod 10 = x" by (rule div_mult_mod_eq)
  moreover have "1 \<le> x div 10" using ge by (simp add: Suc_le_eq div_greater_zero_iff)
  ultimately show ?thesis by linarith
qed

function digitSum_nat :: "nat \<Rightarrow> nat" where
  "digitSum_nat x =
     (if x = 0 then 0
      else (let sm = digit_loop 0 x in if sm \<ge> 10 then digitSum_nat sm else sm))"
  by pat_completeness auto
termination
proof (relation "measure (\<lambda>x. x)")
  show "wf (measure (\<lambda>x. x))" by simp
next
  fix x :: nat and s :: nat
  assume "x \<noteq> 0" and s: "s = digit_loop 0 x" and ge: "10 \<le> s"
  have "digit_loop 0 x \<le> x" by (rule digit_loop_le)
  then have "10 \<le> x" using s ge by simp
  then have "digit_loop 0 x < x" by (rule digit_loop_less)
  then show "(s, x) \<in> measure (\<lambda>x. x)" using s by simp
qed

declare digitSum_nat.simps [simp del]

lemma digitSum_nat_unfold:
  "digitSum_nat x =
     (if x = 0 then 0
      else if digit_loop 0 x \<ge> 10 then digitSum_nat (digit_loop 0 x)
      else digit_loop 0 x)"
  by (subst digitSum_nat.simps) (simp add: Let_def)

definition digitSum :: "int \<Rightarrow> nat" where
  "digitSum n = digitSum_nat (nat \<bar>n\<bar>)"

record tournament =
  human_t :: player
  computer_t :: player
  currentRound :: "game_round option"
  nextRoundAdvantage :: "advantage_info option"
  roundNumber :: nat

definition new_Tournament :: tournament where
  "new_Tournament =
     \<lparr>human_t = new_Player HUMAN, computer_t = new_Player COMPUTER,
      currentRound = None, nextRoundAdvantage = None, roundNumber = 0\<rparr>"

definition updateAdvantageForNextRound :: "tournament \<Rightarrow> tournament" where
  "updateAdvantageForNextRound t =
     (case currentRound t of
        None \<Rightarrow> t\<lparr>nextRoundAdvantage := None\<rparr>
      | Some round \<Rightarrow>
          if \<not> roundOver round then t\<lparr>nextRoundAdvantage := None\<rparr>
          else
            (case roundWinnerId round of
               None \<Rightarrow> t\<lparr>nextRoundAdvantage := None\<rparr>
             | Some winnerId \<Rightarrow>
                 (let firstPlayerId = firstPlayerId round; rawScore = roundScore round in
                  if rawScore \<le> 0 then t\<lparr>nextRoundAdvantage := None\<rparr>
                  else
                    (let recipientId =
                           (if winnerId = firstPlayerId then getOpponentId winnerId
                            else winnerId)
                     in t\<lparr>nextRoundAdvantage :=
                            Some \<lparr>playerId_i = recipientId,
                                  digitSum_i = digitSum (int rawScore)\<rparr>\<rparr>))))"

subsection \<open>Example states\<close>

text \<open>
  Rounds built by the constructor: a fresh round of size 9 with HUMAN first, and a round
  that starts with square 5 pre-covered for COMPUTER.
\<close>

definition fresh_round :: game_round where
  "fresh_round = projr (new_GameRound 9 (new_Player HUMAN) (new_Player COMPUTER) HUMAN None)"

definition adv_round :: game_round where
  "adv_round =
     projr (new_GameRound 9 (new_Player HUMAN) (new_Player COMPUTER) HUMAN
              (Some \<lparr>playerId_i = COMPUTER, digitSum_i = 5\<rparr>))"

text \<open>
  A finished round: HUMAN, who moved first, has won by covering with a round score of 23.
\<close>

definition won_round :: game_round where
  "won_round =
     fresh_round\<lparr>roundOver := True, roundWinnerId := Some HUMAN,
                 winType := Some cover_win, roundScore := 23\<rparr>"

text \<open>The advantage round after COMPUTER has also covered squares 2 and 3.\<close>

definition adv_round_23 :: game_round where
  "adv_round_23 = snd (applyCoverMove COMPUTER [2, 3] adv_round)"

text \<open>
  A round of size 9 in which COMPUTER moves first and, in its first turn, has covered
  \<open>[1, 2, 3, 6]\<close>, \<open>[4, 5]\<close>, \<open>[7]\<close> and \<open>[8]\<close>; then the round after it has
  also covered \<open>[9]\<close>. HUMAN has not had a turn.
\<close>

definition computer_first_turn :: game_round where
  "computer_first_turn =
     (let r0 = projr (new_GameRound 9 (new_Player HUMAN) (new_Player COMPUTER) COMPUTER None);
          r1 = snd (applyCoverMove COMPUTER [1, 2, 3, 6] r0);
          r2 = snd (applyCoverMove COMPUTER [4, 5] r1);
          r3 = snd (applyCoverMove COMPUTER [7] r2)
      in snd (applyCoverMove COMPUTER [8] r3))"

definition computer_first_turn_win :: game_round where
  "computer_first_turn_win = snd (applyCoverMove COMPUTER [9] computer_first_turn)"

subsection \<open>Combinations as the specification words them\<close>

text \<open>
  The specification's wording of the search result: every subset of distinct candidate
  squares whose sum equals the target. A subset is written as its strictly ascending
  list; the empty subset is not a move.
\<close>

definition combinations_spec :: "nat set \<Rightarrow> nat \<Rightarrow> nat list set" where
  "combinations_spec cands target =
     {xs. sorted_wrt (<) xs \<and> set xs \<subseteq> cands \<and> sum_list xs = target \<and> xs \<noteq> []}"

definition uncovered_squares :: "board \<Rightarrow> nat set" where
  "uncovered_squares b = {i. 1 \<le> i \<and> i \<le> size_b b \<and> \<not> cov b i}"

definition covered_squares :: "board \<Rightarrow> nat set" where
  "covered_squares b = {i. 1 \<le> i \<and> i \<le> size_b b \<and> cov b i}"

subsection \<open>ComputerPlayer.js\<close>

text \<open>
  The object \<open>decideMove\<close> returns; \<open>reason\<close> is one of five fixed sentences.
  \<open>squares\<close> is \<open>None\<close> where the source would yield \<open>undefined\<close>
  (\<open>options[0]\<close> of an empty array). The two \<open>for ... of\<close> loops that return at
  the first match are \<open>find\<close>.
\<close>

datatype action = act_cover | act_uncover | act_none

datatype reason =
    NoValidMoves
  | CoversAllAndWins
  | UncoversAllAndWins
  | CoverMostProgress
  | UncoverStrongest

record decision =
  action_d :: action
  squares :: "nat list option"
  reason_d :: reason
  allCoverOptions :: "nat list list"
  allUncoverOptions :: "nat list list"

fun pick_loop :: "nat list \<Rightarrow> nat list list \<Rightarrow> nat list" where
  "pick_loop best [] = best"
| "pick_loop best (candidate # rest) =
     (if length candidate > length best then pick_loop candidate rest
      else if length candidate = length best then
        (let sumBest = foldl (\<lambda>a b. a + b) 0 best;
             sumCand = foldl (\<lambda>a b. a + b) 0 candidate
         in if sumCand > sumBest then pick_loop candidate rest else pick_loop best rest)
      else pick_loop best rest)"

definition pickBestCombo :: "nat list list \<Rightarrow> nat list option" where
  "pickBestCombo options =
     (case options of [] \<Rightarrow> None | best # rest \<Rightarrow> Some (pick_loop best rest))"

definition decideMove :: "game_round \<Rightarrow> player_id \<Rightarrow> nat \<Rightarrow> decision" where
  "decideMove round pid diceSum =
     (let coverOptions = getCoverOptions round pid diceSum;
          uncoverOptions = getUncoverOptions round pid diceSum
      in if length coverOptions = 0 \<and> length uncoverOptions = 0 then
           \<lparr>action_d = act_none, squares = Some [], reason_d = NoValidMoves,
            allCoverOptions = [], allUncoverOptions = []\<rparr>
         else
           (let self = getPlayerById round pid;
                opp = getOpponent round pid;
                selfUncovered = getUncoveredNumbers (board_p self);
                oppCovered = getCoveredNumbers (board_p opp)
            in case find (\<lambda>combo. length combo = length selfUncovered) coverOptions of
                 Some combo \<Rightarrow>
                   \<lparr>action_d = act_cover, squares = Some combo, reason_d = CoversAllAndWins,
                    allCoverOptions = coverOptions, allUncoverOptions = uncoverOptions\<rparr>
               | None \<Rightarrow>
                   (case find (\<lambda>combo. length combo = length oppCovered) uncoverOptions of
                      Some combo \<Rightarrow>
                        \<lparr>action_d = act_uncover, squares = Some combo,
                         reason_d = UncoversAllAndWins,
                         allCoverOptions = coverOptions, allUncoverOptions = uncoverOptions\<rparr>
                    | None \<Rightarrow>
                        if length coverOptions > 0 then
                          \<lparr>action_d = act_cover, squares = pickBestCombo coverOptions,
                           reason_d = CoverMostProgress,
                           allCoverOptions = coverOptions, allUncoverOptions = uncoverOptions\<rparr>
                        else
                          \<lparr>action_d = act_uncover, squares = pickBestCombo uncoverOptions,
                           reason_d = UncoverStrongest,
                           allCoverOptions = coverOptions,
                           allUncoverOptions = uncoverOptions\<rparr>)))"

text \<open>
  HUMAN has covered 4 and 5, then 8, on a fresh board of size 9.
\<close>

definition tie_round :: game_round where
  "tie_round =
     snd (applyCoverMove HUMAN [8] (snd (applyCoverMove HUMAN [4, 5] fresh_round)))"

text \<open>\<open>beats c b\<close>: the test under which the loop replaces \<open>best = b\<close> by \<open>c\<close>.\<close>

definition beats :: "nat list \<Rightarrow> nat list \<Rightarrow> bool" where
  "beats c b = (length c > length b \<or> (length c = length b \<and> sum_list c > sum_list b))"

text \<open>
  The first combination, in the order of the option list, among those of maximal length.
\<close>

definition first_of_maximal_length :: "nat list \<Rightarrow> nat list list \<Rightarrow> bool" where
  "first_of_maximal_length b opts =
     ((\<forall>c\<in>set opts. length c \<le> length b)
      \<and> find (\<lambda>c. length c = length b) opts = Some b)"

text \<open>
  The choice as the specification words it: \<open>b\<close> maximizes the number of squares and,
  among the combinations with as many squares, the highest square.
\<close>

definition spec_best :: "nat list \<Rightarrow> nat list list \<Rightarrow> bool" where
  "spec_best b opts =
     (b \<in> set opts
      \<and> (\<forall>c\<in>set opts. length c < length b
                        \<or> (length c = length b \<and> Max (set c) \<le> Max (set b))))"

text \<open>
  The order in which the search produces its combinations: the lexicographic order of
  the ascending lists.
\<close>

fun search_before :: "nat list \<Rightarrow> nat list \<Rightarrow> bool" where
  "search_before [] [] = False"
| "search_before [] (y # ys) = True"
| "search_before (x # xs) [] = False"
| "search_before (x # xs) (y # ys) = (x < y \<or> (x = y \<and> search_before xs ys))"

subsection \<open>Well-formed boards\<close>

text \<open>
  Every board the constructor makes has \<open>size + 1\<close> flags, and no method changes that
  number.
\<close>

definition board_ok :: "board \<Rightarrow> bool" where
  "board_ok b = (length (covered b) = size_b b + 1)"

subsection \<open>GameSession.js\<close>

text \<open>
  \<open>currentDice\<close> is \<open>{d1, d2, sum}\<close> with \<open>null\<close> for an absent value; a queued roll
  is \<open>{d1, d2}\<close> with \<open>d2\<close> possibly \<open>null\<close>. The mode and the phase are strings.
\<close>

record dice_roll =
  d1 :: "nat option"
  d2 :: "nat option"
  sum_r :: "nat option"

definition no_dice :: dice_roll where
  "no_dice = \<lparr>d1 = None, d2 = None, sum_r = None\<rparr>"

record queued_roll =
  qd1 :: nat
  qd2 :: "nat option"

text \<open>
  \<open>lastAction\<close> without its \<open>reason\<close> text, and the history labels by their template
  and arguments: both are display texts that no operation reads back.
\<close>

record last_action =
  playerId_la :: player_id
  action_la :: action
  squares_la :: "nat list"
  roll_la :: dice_roll

datatype label =
    RoundStartLabel nat string
  | MoveLabel string action "nat list"
  | NoMovesLabel string
  | LoadedSnapshotLabel string

record tournament_snap =
  humanScore_ts :: nat
  computerScore_ts :: nat
  nextRoundAdvantage_ts :: "advantage_info option"
  roundNumber_ts :: nat

record round_snap =
  boardSize_rs :: nat
  firstPlayerId_rs :: player_id
  currentPlayerId_rs :: player_id
  advantageInfo_rs :: "advantage_info option"
  advantageLock_rs :: "advantage_lock option"
  roundOver_rs :: bool
  roundWinnerId_rs :: "player_id option"
  winType_rs :: "win_type option"
  roundScore_rs :: nat
  humanBoard_rs :: "nat list"
  computerBoard_rs :: "nat list"
  humanScore_rs :: nat
  computerScore_rs :: nat

record snapshot =
  gameMode_sn :: string
  currentPlayerId_sn :: player_id
  phase_sn :: string
  currentDice_sn :: dice_roll
  lastAction_sn :: "last_action option"
  tournament_sn :: tournament_snap
  round_sn :: round_snap

record history_entry =
  label_h :: label
  snapshot_h :: snapshot
  lastAction_h :: "last_action option"

text \<open>
  The session. The two Player objects belong to the tournament and are the players of
  the round; \<open>tournament.currentRound\<close> is \<open>null\<close> or the very round the session
  holds. The model keeps a copy at each place and \<open>put_round\<close>, through which every
  write to the round goes, writes them all. The \<open>Dice\<close> object (a random source and a
  queue) exists exactly when the tournament does and is left out.
\<close>

record session =
  tournament_s :: "tournament option"
  currentRound_s :: "game_round option"
  history :: "history_entry list"
  queuedRolls :: "queued_roll list"
  gameMode :: string
  currentPlayerId_s :: player_id
  phase :: string
  currentDice :: dice_roll

definition new_GameSession :: session where
  "new_GameSession =
     \<lparr>tournament_s = None, currentRound_s = None, history = [], queuedRolls = [],
      gameMode = ''HvsC'', currentPlayerId_s = HUMAN, phase = ''idle'',
      currentDice = no_dice\<rparr>"

definition resetTournament :: "session \<Rightarrow> session" where
  "resetTournament s =
     s\<lparr>tournament_s := Some new_Tournament, currentRound_s := None,
       currentPlayerId_s := HUMAN, phase := ''idle'', currentDice := no_dice,
       history := [], queuedRolls := []\<rparr>"

definition sync_tournament :: "game_round \<Rightarrow> tournament \<Rightarrow> tournament" where
  "sync_tournament r t =
     t\<lparr>human_t := human r, computer_t := computer r,
       currentRound := (case currentRound t of None \<Rightarrow> None | Some _ \<Rightarrow> Some r)\<rparr>"

definition put_round :: "game_round \<Rightarrow> session \<Rightarrow> session" where
  "put_round r s =
     s\<lparr>currentRound_s := Some r,
       tournament_s := map_option (sync_tournament r) (tournament_s s)\<rparr>"

definition isPlayerHumanControlled :: "session \<Rightarrow> player_id \<Rightarrow> bool" where
  "isPlayerHumanControlled s pid =
     (if gameMode s = ''HvsC'' then pid = HUMAN
      else if gameMode s = ''HvsH'' then True
      else if gameMode s = ''CvsC'' then False
      else True)"

definition getPlayerDisplayName :: "session \<Rightarrow> player_id \<Rightarrow> string" where
  "getPlayerDisplayName s pid =
     (if gameMode s = ''HvsH''
      then (if pid = HUMAN then ''Player 1 (Human)'' else ''Player 2 (Human)'')
      else if gameMode s = ''CvsC''
      then (if pid = HUMAN then ''Player 1 (Computer)'' else ''Player 2 (Computer)'')
      else (if pid = HUMAN then ''Human'' else ''Computer''))"

text \<open>
  \<open>Tournament.startNewRound\<close>: the round number is incremented before the constructor
  of the round can throw. The pending advantage is passed on and not cleared.
\<close>

definition startNewRound_t ::
  "nat \<Rightarrow> player_id \<Rightarrow> tournament \<Rightarrow> error option \<times> tournament" where
  "startNewRound_t bs fp t =
     (let t1 = t\<lparr>roundNumber := roundNumber t + 1\<rparr> in
      case new_GameRound bs (human_t t1) (computer_t t1) fp (nextRoundAdvantage t1) of
        Inl e \<Rightarrow> (Some e, t1)
      | Inr r \<Rightarrow> (None, t1\<lparr>human_t := human r, computer_t := computer r,
                            currentRound := Some r\<rparr>))"

definition captureSnapshot :: "last_action option \<Rightarrow> session \<Rightarrow> snapshot option" where
  "captureSnapshot lastAction s =
     (case (currentRound_s s, tournament_s s) of
        (Some r, Some t) \<Rightarrow>
          Some \<lparr>gameMode_sn = gameMode s,
                currentPlayerId_sn = currentPlayerId_s s,
                phase_sn = phase s,
                currentDice_sn = currentDice s,
                lastAction_sn = lastAction,
                tournament_sn =
                  \<lparr>humanScore_ts = totalScore (human_t t),
                   computerScore_ts = totalScore (computer_t t),
                   nextRoundAdvantage_ts = nextRoundAdvantage t,
                   roundNumber_ts = roundNumber t\<rparr>,
                round_sn =
                  \<lparr>boardSize_rs = boardSize r,
                   firstPlayerId_rs = firstPlayerId r,
                   currentPlayerId_rs = currentPlayerId r,
                   advantageInfo_rs = advantageInfo r,
                   advantageLock_rs = advantageLock r,
                   roundOver_rs = roundOver r,
                   roundWinnerId_rs = roundWinnerId r,
                   winType_rs = winType r,
                   roundScore_rs = roundScore r,
                   humanBoard_rs = toNumberArrayFormat (board_p (human r)),
                   computerBoard_rs = toNumberArrayFormat (board_p (computer r)),
                   humanScore_rs = totalScore (human r),
                   computerScore_rs = totalScore (computer r)\<rparr>\<rparr>
      | _ \<Rightarrow> None)"

definition pushHistory :: "label \<Rightarrow> last_action option \<Rightarrow> session \<Rightarrow> session" where
  "pushHistory lbl lastAction s =
     (case captureSnapshot lastAction s of
        None \<Rightarrow> s
      | Some snap \<Rightarrow>
          s\<lparr>history := history s
               @ [\<lparr>label_h = lbl, snapshot_h = snap, lastAction_h = lastAction\<rparr>]\<rparr>)"

definition startNewRound :: "nat \<Rightarrow> player_id \<Rightarrow> session \<Rightarrow> error option \<times> session" where
  "startNewRound bs fp s0 =
     (let s = (if tournament_s s0 = None then resetTournament s0 else s0) in
      case tournament_s s of
        None \<Rightarrow> (None, s)
      | Some t \<Rightarrow>
          (case startNewRound_t bs fp t of
             (Some e, t1) \<Rightarrow> (Some e, s\<lparr>tournament_s := Some t1\<rparr>)
           | (None, t1) \<Rightarrow>
               (let s1 = s\<lparr>tournament_s := Some t1, currentRound_s := currentRound t1\<rparr>;
                    s2 = s1\<lparr>currentPlayerId_s :=
                              (case currentRound t1 of
                                 Some r \<Rightarrow> currentPlayerId r
                               | None \<Rightarrow> currentPlayerId_s s1),
                            phase := ''awaitingRoll'', currentDice := no_dice,
                            history := [], queuedRolls := []\<rparr>
                in (None,
                    pushHistory
                      (RoundStartLabel (roundNumber t1) (getPlayerDisplayName s2 fp))
                      None s2))))"

text \<open>
  After a round has ended the session asks the tournament for the next advantage.
\<close>

definition round_is_over :: "session \<Rightarrow> session" where
  "round_is_over s =
     s\<lparr>phase := ''roundOver'',
       tournament_s := map_option updateAdvantageForNextRound (tournament_s s)\<rparr>"

definition same_selection :: "nat list \<Rightarrow> nat list \<Rightarrow> bool" where
  "same_selection sortedSel combo =
     (let s = sort combo in
      if length s \<noteq> length sortedSel then False
      else list_all (\<lambda>(v, w). v = w) (zip s sortedSel))"

definition applyHumanMove :: "action \<Rightarrow> nat list \<Rightarrow> session \<Rightarrow> error option \<times> session" where
  "applyHumanMove moveType selection s =
     (case currentRound_s s of
        None \<Rightarrow> (Some NoActiveRound, s)
      | Some r \<Rightarrow>
          if phase s \<noteq> ''awaitingMove'' then (Some NotExpectingMove, s)
          else
            (case sum_r (currentDice s) of
               None \<Rightarrow> (Some NoActiveDiceRoll, s)
             | Some diceTotal \<Rightarrow>
                 if diceTotal = 0 then (Some NoActiveDiceRoll, s)
                 else
                   (let options =
                          (if moveType = act_cover
                           then getCoverOptions r (currentPlayerId_s s) diceTotal
                           else getUncoverOptions r (currentPlayerId_s s) diceTotal);
                        sortedSel = sort selection
                    in if \<not> list_ex (same_selection sortedSel) options
                       then (Some SelectionNotValid, s)
                       else
                         (case (if moveType = act_cover
                                then applyCoverMove (currentPlayerId_s s) selection r
                                else applyUncoverMove (currentPlayerId_s s) selection r) of
                            (Some e, r') \<Rightarrow> (Some e, put_round r' s)
                          | (None, r') \<Rightarrow>
                              (let s1 = put_round r' s;
                                   lastAction =
                                     \<lparr>playerId_la = currentPlayerId_s s1,
                                      action_la = moveType, squares_la = selection,
                                      roll_la = currentDice s1\<rparr>;
                                   s2 = pushHistory
                                          (MoveLabel
                                             (getPlayerDisplayName s1 (currentPlayerId_s s1))
                                             moveType selection)
                                          (Some lastAction) s1
                               in if roundOver r' then (None, round_is_over s2)
                                  else (None, s2\<lparr>currentDice := no_dice,
                                                  phase := ''awaitingRoll''\<rparr>))))))"

definition endTurn :: "session \<Rightarrow> error option \<times> session" where
  "endTurn s =
     (case currentRound_s s of
        None \<Rightarrow> (Some NoActiveRound, s)
      | Some r \<Rightarrow>
          (let r1 = notifyTurnEnded (currentPlayerId_s s) r;
               s1 = put_round r1 s
           in if roundOver r1 then (None, round_is_over s1)
              else
                (let r2 = switchTurn r1;
                     s2 = put_round r2 s1
                 in (None, s2\<lparr>currentPlayerId_s := currentPlayerId r2,
                              currentDice := no_dice, phase := ''awaitingRoll''\<rparr>))))"

text \<open>
  \<open>handleManualRoll\<close>: \<open>values\<close> is the array of chosen die values. For a player the
  computer controls, the roll is followed at once by the computer's move.
\<close>

definition validDie :: "nat \<Rightarrow> bool" where
  "validDie v = (v \<ge> 1 \<and> v \<le> 6)"

text \<open>
  The two branches of \<open>handleManualRoll\<close> for a player the computer controls:
  \<open>computerHasNoMoves\<close> when both option lists are empty, \<open>computerMoves\<close>
  otherwise.
\<close>

definition computerHasNoMoves ::
  "player_id \<Rightarrow> dice_roll \<Rightarrow> game_round \<Rightarrow> session \<Rightarrow> error option \<times> session" where
  "computerHasNoMoves pid rollInfo r s1 =
     (let r1 = notifyTurnEnded pid r;
          s2 = put_round r1 s1;
          lastAction = \<lparr>playerId_la = pid, action_la = act_none,
                        squares_la = [], roll_la = rollInfo\<rparr>
      in if roundOver r1
         then (None, pushHistory (NoMovesLabel (getPlayerDisplayName s2 pid))
                       (Some lastAction) (round_is_over s2))
         else
           (let r2 = switchTurn r1;
                s3 = put_round r2 s2
            in (None, s3\<lparr>currentPlayerId_s := currentPlayerId r2,
                          currentDice := no_dice, phase := ''awaitingRoll''\<rparr>)))"

definition computerMoves ::
  "player_id \<Rightarrow> nat \<Rightarrow> dice_roll \<Rightarrow> game_round \<Rightarrow> session \<Rightarrow> error option \<times> session" where
  "computerMoves pid diceTotal rollInfo r s1 =
     (let decision = decideMove r pid diceTotal;
          chosen = (case squares decision of None \<Rightarrow> [] | Some sq \<Rightarrow> sq)
      in case (if action_d decision = act_cover then applyCoverMove pid chosen r
               else if action_d decision = act_uncover then applyUncoverMove pid chosen r
               else (None, r)) of
           (Some e, r') \<Rightarrow> (Some e, put_round r' s1)
         | (None, r') \<Rightarrow>
             (let s2 = put_round r' s1;
                  lastAction = \<lparr>playerId_la = pid, action_la = action_d decision,
                                squares_la = chosen, roll_la = rollInfo\<rparr>;
                  s3 = pushHistory
                         (MoveLabel (getPlayerDisplayName s2 pid) (action_d decision) chosen)
                         (Some lastAction) s2
              in if roundOver r'
                 then (None, round_is_over (put_round (notifyTurnEnded pid r') s3))
                 else (None, s3\<lparr>currentDice := no_dice, phase := ''awaitingRoll''\<rparr>)))"

definition handleManualRoll :: "nat \<Rightarrow> nat list \<Rightarrow> session \<Rightarrow> error option \<times> session" where
  "handleManualRoll numDice vals s =
     (case currentRound_s s of
        None \<Rightarrow> (Some NoActiveRound, s)
      | Some r \<Rightarrow>
          if phase s \<noteq> ''awaitingRoll'' then (Some CannotRollNow, s)
          else if numDice \<noteq> 1 \<and> numDice \<noteq> 2 then (Some MustUseOneOrTwoDice, s)
          else if length vals < numDice then (Some NotEnoughDiceValues, s)
          else
            (let v1 = vals ! 0;
                 v2 = (if numDice = 2 then Some (vals ! 1) else None)
             in if \<not> validDie v1 \<or> (numDice = 2 \<and> \<not> validDie (vals ! 1))
                then (Some DiceValuesOutOfRange, s)
                else
                  (let pid = currentPlayerId_s s;
                       b = board_p (getPlayerById r pid)
                   in if numDice = 1 \<and> \<not> canUseOneDie b then (Some OneDieNotAllowed, s)
                      else
                        (let diceTotal = v1 + (case v2 of None \<Rightarrow> 0 | Some w \<Rightarrow> w);
                             rollInfo = \<lparr>d1 = Some v1, d2 = v2, sum_r = Some diceTotal\<rparr>;
                             s1 = s\<lparr>currentDice := rollInfo\<rparr>;
                             coverOptions = getCoverOptions r pid diceTotal;
                             uncoverOptions = getUncoverOptions r pid diceTotal
                         in if isPlayerHumanControlled s1 pid then
                              (if length coverOptions = 0 \<and> length uncoverOptions = 0
                               then (None, s1)
                               else (None, s1\<lparr>phase := ''awaitingMove''\<rparr>))
                            else if length coverOptions = 0 \<and> length uncoverOptions = 0
                            then computerHasNoMoves pid rollInfo r s1
                            else computerMoves pid diceTotal rollInfo r s1))))"

text \<open>
  \<open>_restoreSnapshot\<close> builds a new tournament and a new round from the snapshot. What
  it has assigned before the round constructor or the loading of a board throws stays
  assigned.
\<close>

definition restoreSnapshot :: "snapshot \<Rightarrow> session \<Rightarrow> error option \<times> session" where
  "restoreSnapshot snap s =
     (let ts = tournament_sn snap; rs = round_sn snap;
          t1 = new_Tournament\<lparr>roundNumber := roundNumber_ts ts,
                 nextRoundAdvantage := nextRoundAdvantage_ts ts\<rparr>;
          t2 = t1\<lparr>human_t := (human_t t1)\<lparr>totalScore := humanScore_ts ts\<rparr>,
                  computer_t := (computer_t t1)\<lparr>totalScore := computerScore_ts ts\<rparr>\<rparr>;
          s1 = s\<lparr>gameMode := gameMode_sn snap, tournament_s := Some t2\<rparr>
      in case new_GameRound (boardSize_rs rs) (human_t t2) (computer_t t2)
                (firstPlayerId_rs rs) (advantageInfo_rs rs) of
           Inl e \<Rightarrow> (Some e, s1)
         | Inr r0 \<Rightarrow>
             (let r1 = r0\<lparr>advantageLock := advantageLock_rs rs\<rparr>;
                  s2 = put_round r1 s1
              in case loadFromNumberArrayFormat (map int (humanBoard_rs rs))
                        (board_p (human r1)) of
                   (Some e, hb) \<Rightarrow> (Some e, put_round (set_board HUMAN hb r1) s2)
                 | (None, hb) \<Rightarrow>
                     (let r2 = set_board HUMAN hb r1 in
                      case loadFromNumberArrayFormat (map int (computerBoard_rs rs))
                             (board_p (computer r2)) of
                        (Some e, cb) \<Rightarrow> (Some e, put_round (set_board COMPUTER cb r2) s2)
                      | (None, cb) \<Rightarrow>
                          (let r3 = set_board COMPUTER cb r2;
                               r4 = r3\<lparr>human := (human r3)\<lparr>totalScore := humanScore_rs rs\<rparr>,
                                       computer :=
                                         (computer r3)\<lparr>totalScore := computerScore_rs rs\<rparr>\<rparr>;
                               r5 = r4\<lparr>humanEverCovered :=
                                          length (getCoveredNumbers (board_p (human r4))) > 0,
                                       computerEverCovered :=
                                          length (getCoveredNumbers (board_p (computer r4))) > 0\<rparr>;
                               r6 = r5\<lparr>currentPlayerId := currentPlayerId_rs rs,
                                       roundOver := roundOver_rs rs,
                                       roundWinnerId := roundWinnerId_rs rs,
                                       winType := winType_rs rs,
                                       roundScore := roundScore_rs rs\<rparr>;
                               s3 = put_round r6 s2
                           in (None, s3\<lparr>currentPlayerId_s := currentPlayerId_sn snap,
                                         phase := phase_sn snap,
                                         currentDice := currentDice_sn snap\<rparr>)))))"

definition getHistorySnapshot :: "int \<Rightarrow> session \<Rightarrow> snapshot option" where
  "getHistorySnapshot index s =
     (if index < 0 \<or> index \<ge> int (length (history s)) then None
      else Some (snapshot_h (history s ! nat index)))"

definition rewindTo :: "int \<Rightarrow> session \<Rightarrow> error option \<times> session" where
  "rewindTo index s =
     (if index < 0 \<or> index \<ge> int (length (history s)) then (Some InvalidRewindSelection, s)
      else
        (let entry = history s ! nat index in
         case restoreSnapshot (snapshot_h entry) s of
           (Some e, s1) \<Rightarrow> (Some e, s1)
         | (None, s1) \<Rightarrow> (None, s1\<lparr>phase := ''awaitingRoll'', currentDice := no_dice\<rparr>)))"

text \<open>
  A session in which HUMAN, moving first, rolls 12, 9, 7, 8 and 9 and covers
  \<open>[1, 2, 3, 6]\<close>, \<open>[4, 5]\<close>, \<open>[7]\<close>, \<open>[8]\<close> and \<open>[9]\<close>. No turn is ended.
\<close>

definition first_turn_win :: session where
  "first_turn_win =
     (let s0 = snd (startNewRound 9 HUMAN new_GameSession);
          s1 = snd (applyHumanMove act_cover [1, 2, 3, 6] (snd (handleManualRoll 2 [6, 6] s0)));
          s2 = snd (applyHumanMove act_cover [4, 5] (snd (handleManualRoll 2 [4, 5] s1)));
          s3 = snd (applyHumanMove act_cover [7] (snd (handleManualRoll 2 [3, 4] s2)));
          s4 = snd (applyHumanMove act_cover [8] (snd (handleManualRoll 2 [4, 4] s3)))
      in snd (applyHumanMove act_cover [9] (snd (handleManualRoll 2 [4, 5] s4))))"

text \<open>
  The same session with a rewind to the first history entry, the start of the round,
  before the first roll.
\<close>

definition rewound_first_turn_win :: session where
  "rewound_first_turn_win =
     (let s0 = snd (rewindTo 0 (snd (startNewRound 9 HUMAN new_GameSession)));
          s1 = snd (applyHumanMove act_cover [1, 2, 3, 6] (snd (handleManualRoll 2 [6, 6] s0)));
          s2 = snd (applyHumanMove act_cover [4, 5] (snd (handleManualRoll 2 [4, 5] s1)));
          s3 = snd (applyHumanMove act_cover [7] (snd (handleManualRoll 2 [3, 4] s2)));
          s4 = snd (applyHumanMove act_cover [8] (snd (handleManualRoll 2 [4, 4] s3)))
      in snd (applyHumanMove act_cover [9] (snd (handleManualRoll 2 [4, 5] s4))))"

definition at_most_one :: "board \<Rightarrow> bool" where
  "at_most_one b = (\<forall>i j. cov b i \<and> cov b j \<longrightarrow> i = j)"

subsection \<open>JS/backend/models/Game.js: the end-of-game check of the server backend\<close>

text \<open>
  The backend board is an array of numbers, \<open>0\<close> for a covered square.
  \<open>hasFirstTurnBeenPlayed\<close> is set when a player's move is accepted or the turn
  passes on.
\<close>

record js_player =
  squares_j :: "nat list"
  hasFirstTurnBeenPlayed :: bool

record js_game =
  player1 :: js_player
  player2 :: js_player
  gameOver :: bool

datatype js_winner = player1_wins | player2_wins

definition allCovered :: "nat list \<Rightarrow> bool" where
  "allCovered sq = list_all (\<lambda>square. square = 0) sq"

definition allUncovered :: "nat list \<Rightarrow> bool" where
  "allUncovered sq = list_all (\<lambda>square. square \<noteq> 0) sq"

definition isGameOver :: "js_game \<Rightarrow> js_winner option \<times> js_game" where
  "isGameOver g =
     (let player1Board = squares_j (player1 g); player2Board = squares_j (player2 g) in
      if \<not> hasFirstTurnBeenPlayed (player1 g) \<or> \<not> hasFirstTurnBeenPlayed (player2 g)
      then (None, g)
      else if allCovered player1Board then (Some player1_wins, g\<lparr>gameOver := True\<rparr>)
      else if allUncovered player2Board then (Some player1_wins, g\<lparr>gameOver := True\<rparr>)
      else if allCovered player2Board then (Some player2_wins, g\<lparr>gameOver := True\<rparr>)
      else if allUncovered player1Board then (Some player2_wins, g\<lparr>gameOver := True\<rparr>)
      else (None, g))"

text \<open>A backend game at its start.\<close>

definition fresh_js_game :: js_game where
  "fresh_js_game =
     \<lparr>player1 = \<lparr>squares_j = [1, 2, 3, 4, 5, 6, 7, 8, 9], hasFirstTurnBeenPlayed = False\<rparr>,
      player2 = \<lparr>squares_j = [1, 2, 3, 4, 5, 6, 7, 8, 9], hasFirstTurnBeenPlayed = False\<rparr>,
      gameOver = False\<rparr>"

text \<open>
  The disjunction of the four tests of \<open>_checkForRoundEnd\<close>.
\<close>

definition round_end_condition :: "game_round \<Rightarrow> bool" where
  "round_end_condition r =
     (areAllCovered (board_p (human r))
      \<or> areAllCovered (board_p (computer r))
      \<or> (getCoveredNumbers (board_p (computer r)) = [] \<and> hadAnyCovered r (computer r))
      \<or> (getCoveredNumbers (board_p (human r)) = [] \<and> hadAnyCovered r (human r)))"

subsection \<open>Well-formed snapshots\<close>

text \<open>
  A board array is well formed when each entry is \<open>0\<close> or its own 1-based index. A
  history snapshot is well formed when both board arrays are, have the length of the
  board size, and the scores recorded for the tournament are those recorded for the
  round (they are read from the same two Player objects).
\<close>

fun valid_entries :: "nat \<Rightarrow> nat list \<Rightarrow> bool" where
  "valid_entries i [] = True"
| "valid_entries i (v # arr) = ((v = 0 \<or> v = i + 1) \<and> valid_entries (i + 1) arr)"

definition snapshot_ok :: "snapshot \<Rightarrow> bool" where
  "snapshot_ok snap =
     (let rs = round_sn snap; ts = tournament_sn snap in
      1 \<le> boardSize_rs rs
      \<and> length (humanBoard_rs rs) = boardSize_rs rs \<and> valid_entries 0 (humanBoard_rs rs)
      \<and> length (computerBoard_rs rs) = boardSize_rs rs
      \<and> valid_entries 0 (computerBoard_rs rs)
      \<and> humanScore_ts ts = humanScore_rs rs \<and> computerScore_ts ts = computerScore_rs rs)"

text \<open>
  The invariant of a session: the boards of the round have the size of the round, the
  tournament's players carry the round's scores, and every snapshot in the history is
  well formed.
\<close>

definition round_sizes_ok :: "game_round \<Rightarrow> bool" where
  "round_sizes_ok r =
     (1 \<le> boardSize r \<and> size_b (board_p (human r)) = boardSize r
      \<and> size_b (board_p (computer r)) = boardSize r)"

definition session_inv :: "session \<Rightarrow> bool" where
  "session_inv s =
     ((case (currentRound_s s, tournament_s s) of
         (Some r, Some t) \<Rightarrow>
           round_sizes_ok r
           \<and> totalScore (human_t t) = totalScore (human r)
           \<and> totalScore (computer_t t) = totalScore (computer r)
       | (Some r, None) \<Rightarrow> round_sizes_ok r
       | _ \<Rightarrow> True)
      \<and> list_all (\<lambda>e. snapshot_ok (snapshot_h e)) (history s))"

subsection \<open>Strings and numbers of the snapshot text\<close>

text \<open>
  The text is modelled as ASCII. \<open>is_space\<close> is the ASCII part of what
  \<open>String.prototype.trim\<close>, the regular expression class \<open>\s\<close> and the built-in
  \<open>Number\<close> take for white space. A JavaScript number is modelled by the value its
  literal denotes: an integer \<open>Num n\<close>, a decimal fraction \<open>Dec m k\<close> for
  \<open>m / 10 ^ k\<close> where that is not an integer (\<open>k\<close> least), an infinity with its
  sign, or \<open>NaN\<close>. The rounding of a literal to the nearest double is not modelled:
  the model is the source on the literals that denote a double, among them every
  integer up to \<open>MAX_SAFE_INTEGER\<close> in absolute value.
\<close>

datatype jsnum = Num int | Dec int nat | Infty bool | NaN

definition isFinite_js :: "jsnum \<Rightarrow> bool" where
  "isFinite_js v = (case v of Num n \<Rightarrow> True | Dec m k \<Rightarrow> True | _ \<Rightarrow> False)"

definition LF :: char where
  "LF = CHR 0x0A"

definition CR :: char where
  "CR = CHR 0x0D"

definition is_space :: "char \<Rightarrow> bool" where
  "is_space c = (c = CHR '' '' \<or> c = CHR 0x09 \<or> c = CHR 0x0A \<or> c = CHR 0x0B
                 \<or> c = CHR 0x0C \<or> c = CHR 0x0D)"

definition trim :: "string \<Rightarrow> string" where
  "trim s = rev (dropWhile is_space (rev (dropWhile is_space s)))"

fun startsWith :: "string \<Rightarrow> string \<Rightarrow> bool" where
  "startsWith [] s = True"
| "startsWith (p # ps) [] = False"
| "startsWith (p # ps) (c # cs) = (p = c \<and> startsWith ps cs)"

text \<open>
  \<open>s.split(sep)\<close> for a one-character separator; the first argument of the loop is
  the current piece, reversed.
\<close>

fun split_char_from :: "char \<Rightarrow> string \<Rightarrow> string \<Rightarrow> string list" where
  "split_char_from sep cur [] = [rev cur]"
| "split_char_from sep cur (c # cs) =
     (if c = sep then rev cur # split_char_from sep [] cs
      else split_char_from sep (c # cur) cs)"

definition split_char :: "char \<Rightarrow> string \<Rightarrow> string list" where
  "split_char sep s = split_char_from sep [] s"

text \<open>
  \<open>text.split(/\r?\n/)\<close>: a carriage return right before a line feed belongs to the
  separator.
\<close>

fun split_lines_from :: "string \<Rightarrow> string \<Rightarrow> string list" where
  "split_lines_from cur [] = [rev cur]"
| "split_lines_from cur [c] = (if c = LF then [rev cur, []] else [rev (c # cur)])"
| "split_lines_from cur (c # d # cs) =
     (if c = LF then rev cur # split_lines_from [] (d # cs)
      else if c = CR \<and> d = LF then rev cur # split_lines_from [] cs
      else split_lines_from (c # cur) (d # cs))"

definition split_lines :: "string \<Rightarrow> string list" where
  "split_lines s = split_lines_from [] s"

text \<open>\<open>s.split(/\s+/)\<close>: a run of white space is one separator.\<close>

function split_ws_from :: "string \<Rightarrow> string \<Rightarrow> string list" where
  "split_ws_from cur [] = [rev cur]"
| "split_ws_from cur (c # cs) =
     (if is_space c then rev cur # split_ws_from [] (dropWhile is_space cs)
      else split_ws_from (c # cur) cs)"
  by pat_completeness auto
termination
  by (relation "measure (\<lambda>(cur, s). length s)")
     (auto simp add: length_dropWhile_le less_Suc_eq_le)

definition split_ws :: "string \<Rightarrow> string list" where
  "split_ws s = split_ws_from [] s"

fun join :: "string \<Rightarrow> string list \<Rightarrow> string" where
  "join sep [] = []"
| "join sep [x] = x"
| "join sep (x # y # xs) = x @ sep @ join sep (y # xs)"

definition is_digit :: "char \<Rightarrow> bool" where
  "is_digit c = (48 \<le> (of_char c :: nat) \<and> (of_char c :: nat) \<le> 57)"

definition digit_char :: "nat \<Rightarrow> char" where
  "digit_char n = char_of (48 + n)"

definition digit_val :: "char \<Rightarrow> nat" where
  "digit_val c = of_char c - 48"

text \<open>
  The decimal text of a natural number, as a template string prints a safe integer.
\<close>

function show_nat :: "nat \<Rightarrow> string" where
  "show_nat n = (if n < 10 then [digit_char n] else show_nat (n div 10) @ [digit_char (n mod 10)])"
  by pat_completeness auto
termination
  by (relation "measure (\<lambda>n. n)") auto

declare show_nat.simps [simp del]

definition digits_value :: "string \<Rightarrow> nat" where
  "digits_value ds = foldl (\<lambda>acc c. 10 * acc + digit_val c) 0 ds"

text \<open>
  The built-in \<open>Number\<close> applied to a string: white space is trimmed; the empty string
  is 0; then come a hexadecimal, octal or binary integer literal without sign, or an
  optionally signed decimal literal (digits, an optional fraction, an optional exponent)
  or \<open>Infinity\<close>; anything else is \<open>NaN\<close>.
\<close>

definition radix_digit :: "nat \<Rightarrow> char \<Rightarrow> bool" where
  "radix_digit b c =
     (let n = (of_char c :: nat) in
      (48 \<le> n \<and> n < 48 + min b 10)
      \<or> (b = 16 \<and> ((65 \<le> n \<and> n \<le> 70) \<or> (97 \<le> n \<and> n \<le> 102))))"

definition radix_val :: "char \<Rightarrow> nat" where
  "radix_val c =
     (let n = (of_char c :: nat) in
      if n \<ge> 97 then n - 87 else if n \<ge> 65 then n - 55 else n - 48)"

definition read_radix :: "nat \<Rightarrow> string \<Rightarrow> jsnum" where
  "read_radix b ds =
     (if ds \<noteq> [] \<and> list_all (radix_digit b) ds
      then Num (int (foldl (\<lambda>acc c. b * acc + radix_val c) 0 ds))
      else NaN)"

definition read_digits :: "string \<Rightarrow> int option" where
  "read_digits ds =
     (if ds \<noteq> [] \<and> list_all is_digit ds then Some (int (digits_value ds)) else None)"

definition read_exponent :: "string \<Rightarrow> int option" where
  "read_exponent r =
     (case r of
        [] \<Rightarrow> Some 0
      | c # ds \<Rightarrow>
          if c = CHR ''e'' \<or> c = CHR ''E'' then
            (case ds of
               [] \<Rightarrow> None
             | d # es \<Rightarrow>
                 if d = CHR ''+'' then read_digits es
                 else if d = CHR ''-'' then map_option uminus (read_digits es)
                 else read_digits ds)
          else None)"

text \<open>\<open>m / 10 ^ k\<close> in lowest terms of the power of ten.\<close>

fun strip_zeros :: "int \<Rightarrow> nat \<Rightarrow> jsnum" where
  "strip_zeros m 0 = Num m"
| "strip_zeros m (Suc k) =
     (if m mod 10 = 0 then strip_zeros (m div 10) k else Dec m (Suc k))"

definition scale10 :: "nat \<Rightarrow> int \<Rightarrow> jsnum" where
  "scale10 m e =
     (if e \<ge> 0 then Num (int m * 10 ^ nat e) else strip_zeros (int m) (nat (- e)))"

definition read_unsigned :: "string \<Rightarrow> jsnum" where
  "read_unsigned t =
     (if t = ''Infinity'' then Infty True
      else
        (let ip = takeWhile is_digit t;
             r1 = dropWhile is_digit t;
             dot = (r1 \<noteq> [] \<and> hd r1 = CHR ''.'');
             fp = (if dot then takeWhile is_digit (tl r1) else []);
             r2 = (if dot then dropWhile is_digit (tl r1) else r1)
         in if ip = [] \<and> fp = [] then NaN
            else
              (case read_exponent r2 of
                 None \<Rightarrow> NaN
               | Some e \<Rightarrow> scale10 (digits_value (ip @ fp)) (e - int (length fp)))))"

definition negate :: "jsnum \<Rightarrow> jsnum" where
  "negate v =
     (case v of
        Num n \<Rightarrow> Num (- n)
      | Dec m k \<Rightarrow> Dec (- m) k
      | Infty b \<Rightarrow> Infty (\<not> b)
      | NaN \<Rightarrow> NaN)"

definition Number_js :: "string \<Rightarrow> jsnum" where
  "Number_js s =
     (let t = trim s in
      case t of
        [] \<Rightarrow> Num 0
      | c # cs \<Rightarrow>
          if c = CHR ''+'' then read_unsigned cs
          else if c = CHR ''-'' then negate (read_unsigned cs)
          else if c = CHR ''0'' \<and> cs \<noteq> [] \<and> (hd cs = CHR ''x'' \<or> hd cs = CHR ''X'')
            then read_radix 16 (tl cs)
          else if c = CHR ''0'' \<and> cs \<noteq> [] \<and> (hd cs = CHR ''o'' \<or> hd cs = CHR ''O'')
            then read_radix 8 (tl cs)
          else if c = CHR ''0'' \<and> cs \<noteq> [] \<and> (hd cs = CHR ''b'' \<or> hd cs = CHR ''B'')
            then read_radix 2 (tl cs)
          else read_unsigned t)"

definition to_lower :: "char \<Rightarrow> char" where
  "to_lower c =
     (if 65 \<le> (of_char c :: nat) \<and> (of_char c :: nat) \<le> 90
      then char_of ((of_char c :: nat) + 32) else c)"

definition toLowerCase :: "string \<Rightarrow> string" where
  "toLowerCase s = map to_lower s"

text \<open>\<open>/true/i.test(s)\<close>.\<close>

fun contains_true :: "string \<Rightarrow> bool" where
  "contains_true [] = False"
| "contains_true (c # cs) =
     (startsWith ''true'' (toLowerCase (take 4 (c # cs))) \<or> contains_true cs)"

text \<open>
  \<open>body.match(/sum=([0-9\-]+)/i)\<close>: the capture of the first match, if there is one.
\<close>

definition sum_class :: "char \<Rightarrow> bool" where
  "sum_class c = (is_digit c \<or> c = CHR ''-'')"

fun match_sum :: "string \<Rightarrow> string option" where
  "match_sum [] = None"
| "match_sum (c # cs) =
     (if startsWith ''sum='' (toLowerCase (take 4 (c # cs)))
         \<and> takeWhile sum_class (drop 4 (c # cs)) \<noteq> []
      then Some (takeWhile sum_class (drop 4 (c # cs)))
      else match_sum cs)"

subsection \<open>Serializer.js\<close>

record serialize_params =
  computerBoard_sp :: board
  humanBoard_sp :: board
  computerScore_sp :: nat
  humanScore_sp :: nat
  firstTurnId_sp :: player_id
  nextTurnId_sp :: player_id
  phase_sp :: string
  currentDice_sp :: dice_roll
  advantageLock_sp :: "advantage_lock option"
  queuedRolls_sp :: "queued_roll list"

definition id_text :: "player_id \<Rightarrow> string" where
  "id_text i = (case i of HUMAN \<Rightarrow> ''HUMAN'' | COMPUTER \<Rightarrow> ''COMPUTER'')"

definition turn_label :: "player_id \<Rightarrow> string" where
  "turn_label i = (if i = COMPUTER then ''Computer'' else ''Human'')"

definition show_die :: "nat option \<Rightarrow> string" where
  "show_die v = (case v of None \<Rightarrow> ''-'' | Some n \<Rightarrow> show_nat n)"

definition show_bool :: "bool \<Rightarrow> string" where
  "show_bool v = (if v then ''true'' else ''false'')"

definition show_queued :: "queued_roll \<Rightarrow> string" where
  "show_queued q =
     (case qd2 q of
        Some w \<Rightarrow> show_nat (qd1 q) @ '','' @ show_nat w
      | None \<Rightarrow> show_nat (qd1 q))"

definition meta_lines :: "serialize_params \<Rightarrow> string list" where
  "meta_lines p =
     [''# Phase: '' @ phase_sp p,
      ''# CurrentDice: '' @ show_die (d1 (currentDice_sp p)) @ '' ''
        @ show_die (d2 (currentDice_sp p)) @ '' (sum=''
        @ show_die (sum_r (currentDice_sp p)) @ '')'']
     @ (case advantageLock_sp p of
          None \<Rightarrow> []
        | Some l \<Rightarrow>
            if squareNumber l \<noteq> 0
            then [''# AdvantageLock: '' @ id_text (playerId l) @ '' ''
                    @ show_nat (squareNumber l) @ '' unlocked='' @ show_bool (unlocked l)]
            else [])
     @ (if queuedRolls_sp p \<noteq> []
        then [''# QueuedRolls: '' @ join '' | '' (map show_queued (queuedRolls_sp p))]
        else [])"

definition serializeSnapshot :: "serialize_params \<Rightarrow> string" where
  "serializeSnapshot p =
     (let compArr = toNumberArrayFormat (computerBoard_sp p);
          humanArr = toNumberArrayFormat (humanBoard_sp p);
          computerLine = join '' '' (map show_nat compArr);
          humanLine = join '' '' (map show_nat humanArr);
          base = ''Computer:'' @ [LF]
                 @ ''   Squares: '' @ computerLine @ [LF]
                 @ ''   Score: '' @ show_nat (computerScore_sp p) @ [LF, LF]
                 @ ''Human:'' @ [LF]
                 @ ''   Squares: '' @ humanLine @ [LF]
                 @ ''   Score: '' @ show_nat (humanScore_sp p) @ [LF, LF]
                 @ ''First Turn: '' @ turn_label (firstTurnId_sp p) @ [LF]
                 @ ''Next Turn: '' @ turn_label (nextTurnId_sp p) @ [LF];
          meta = meta_lines p
      in base @ (if meta \<noteq> [] then [LF] @ join [LF] meta @ [LF] else []))"

text \<open>
  What \<open>parseSnapshot\<close> returns. The player id of a parsed lock is whatever word the
  text has in that place.
\<close>

record parsed_dice =
  d1_pd :: "jsnum option"
  d2_pd :: "jsnum option"
  sum_pd :: "jsnum option"

record parsed_lock =
  playerId_pl :: string
  squareNumber_pl :: jsnum
  unlocked_pl :: bool

record parsed_snapshot =
  computerSquares_ps :: "jsnum list"
  humanSquares_ps :: "jsnum list"
  computerScore_ps :: jsnum
  humanScore_ps :: jsnum
  firstTurnId_ps :: player_id
  nextTurnId_ps :: player_id
  phase_ps :: string
  currentDice_ps :: parsed_dice
  advantageLock_ps :: "parsed_lock option"
  queuedRolls_ps :: "(jsnum \<times> jsnum option) list"

text \<open>\<open>line.split(":")[1]\<close>, \<open>None\<close> for \<open>undefined\<close>.\<close>

definition after_colon :: "string \<Rightarrow> string option" where
  "after_colon line =
     (case split_char (CHR '':'') line of _ # x # _ \<Rightarrow> Some x | _ \<Rightarrow> None)"

definition findLine :: "string list \<Rightarrow> string \<Rightarrow> error + string" where
  "findLine lines prefix =
     (case find (startsWith prefix) lines of
        None \<Rightarrow> Inl (CannotFindLine prefix)
      | Some line \<Rightarrow> if line = [] then Inl (CannotFindLine prefix) else Inr line)"

definition parseSquares :: "string \<Rightarrow> error + jsnum list" where
  "parseSquares line =
     (case after_colon line of
        None \<Rightarrow> Inl (BadSquaresLine line)
      | Some afterColon \<Rightarrow>
          if afterColon = [] then Inl (BadSquaresLine line)
          else Inr (map Number_js (filter (\<lambda>s. length s > 0) (split_ws (trim afterColon)))))"

definition parseScore :: "string \<Rightarrow> error + jsnum" where
  "parseScore line =
     (case after_colon line of
        None \<Rightarrow> Inl (BadScoreLine line)
      | Some afterColon \<Rightarrow>
          if afterColon = [] then Inl (BadScoreLine line)
          else (let n = Number_js (trim afterColon) in
                if \<not> isFinite_js n then Inl (ScoreNotANumber line) else Inr n))"

definition mapLabel :: "string \<Rightarrow> error + player_id" where
  "mapLabel lbl =
     (if toLowerCase lbl = ''computer'' then Inr COMPUTER
      else if toLowerCase lbl = ''human'' then Inr HUMAN
      else Inl (UnknownPlayerLabel lbl))"

definition turn_of_line :: "string \<Rightarrow> string" where
  "turn_of_line line = (case after_colon line of Some x \<Rightarrow> trim x | None \<Rightarrow> [])"

definition die_of_part :: "string option \<Rightarrow> jsnum option" where
  "die_of_part part =
     (case part of
        None \<Rightarrow> Some NaN
      | Some w \<Rightarrow> if w = ''-'' then None else Some (Number_js w))"

definition nth_opt :: "'a list \<Rightarrow> nat \<Rightarrow> 'a option" where
  "nth_opt xs i = (if i < length xs then Some (xs ! i) else None)"

definition parse_queued :: "string \<Rightarrow> jsnum \<times> jsnum option" where
  "parse_queued entry =
     (let vals = map (\<lambda>v. Number_js (trim v)) (split_char (CHR '','') entry) in
      if length vals = 1 then (vals ! 0, None) else (vals ! 0, Some (vals ! 1)))"

record meta_state =
  phase_m :: string
  currentDice_m :: parsed_dice
  advantageLock_m :: "parsed_lock option"
  queuedRolls_m :: "(jsnum \<times> jsnum option) list"

definition meta_default :: meta_state where
  "meta_default =
     \<lparr>phase_m = ''awaitingRoll'',
      currentDice_m = \<lparr>d1_pd = None, d2_pd = None, sum_pd = None\<rparr>,
      advantageLock_m = None, queuedRolls_m = []\<rparr>"

text \<open>The body of the \<open>forEach\<close> over the lines that start with \<open>#\<close>.\<close>

definition meta_step :: "meta_state \<Rightarrow> string \<Rightarrow> meta_state" where
  "meta_step m metaLine =
     (let body = trim (drop 1 metaLine) in
      if startsWith ''Phase:'' body then
        m\<lparr>phase_m := (case after_colon body of Some x \<Rightarrow> trim x | None \<Rightarrow> [])\<rparr>
      else if startsWith ''CurrentDice:'' body then
        (let parts = split_ws (trim (drop (length ''CurrentDice:'') body));
             sm = (case match_sum body of
                     None \<Rightarrow> None
                   | Some raw \<Rightarrow> if raw = ''-'' then None else Some (Number_js raw))
         in m\<lparr>currentDice_m :=
                \<lparr>d1_pd = die_of_part (nth_opt parts 0),
                 d2_pd = die_of_part (nth_opt parts 1), sum_pd = sm\<rparr>\<rparr>)
      else if startsWith ''AdvantageLock:'' body then
        (let parts = split_ws (trim (drop (length ''AdvantageLock:'') body)) in
         if length parts \<ge> 3
         then m\<lparr>advantageLock_m :=
                  Some \<lparr>playerId_pl = parts ! 0, squareNumber_pl = Number_js (parts ! 1),
                        unlocked_pl = contains_true (parts ! 2)\<rparr>\<rparr>
         else m)
      else if startsWith ''QueuedRolls:'' body then
        (let payload = trim (drop (length ''QueuedRolls:'') body) in
         m\<lparr>queuedRolls_m :=
             map parse_queued
               (filter (\<lambda>s. s \<noteq> []) (map trim (split_char (CHR ''|'') payload)))\<rparr>)
      else m)"

definition parseSnapshot :: "string \<Rightarrow> error + parsed_snapshot" where
  "parseSnapshot text =
     (let lines = map trim (split_lines text) in
      case findLine lines ''Squares:'' of Inl e \<Rightarrow> Inl e | Inr compSquaresLine \<Rightarrow>
      case findLine lines ''Score:'' of Inl e \<Rightarrow> Inl e | Inr compScoreLine \<Rightarrow>
      if \<not> list_ex (\<lambda>l. l = ''Human:'') lines then Inl MissingHumanSection
      else
        (let afterHuman = tl (dropWhile (\<lambda>l. l \<noteq> ''Human:'') lines) in
         case (find (startsWith ''Squares:'') afterHuman,
               find (startsWith ''Score:'') afterHuman) of
           (Some humanSquaresLine, Some humanScoreLine) \<Rightarrow>
             (case findLine lines ''First Turn:'' of Inl e \<Rightarrow> Inl e | Inr firstTurnLine \<Rightarrow>
              case findLine lines ''Next Turn:'' of Inl e \<Rightarrow> Inl e | Inr nextTurnLine \<Rightarrow>
              case parseSquares compSquaresLine of Inl e \<Rightarrow> Inl e | Inr computerSquares \<Rightarrow>
              case parseSquares humanSquaresLine of Inl e \<Rightarrow> Inl e | Inr humanSquares \<Rightarrow>
              case parseScore compScoreLine of Inl e \<Rightarrow> Inl e | Inr computerScore \<Rightarrow>
              case parseScore humanScoreLine of Inl e \<Rightarrow> Inl e | Inr humanScore \<Rightarrow>
              case mapLabel (turn_of_line firstTurnLine) of Inl e \<Rightarrow> Inl e | Inr firstTurnId \<Rightarrow>
              case mapLabel (turn_of_line nextTurnLine) of Inl e \<Rightarrow> Inl e | Inr nextTurnId \<Rightarrow>
                (let m = foldl meta_step meta_default (filter (startsWith ''#'') lines) in
                 Inr \<lparr>computerSquares_ps = computerSquares, humanSquares_ps = humanSquares,
                      computerScore_ps = computerScore, humanScore_ps = humanScore,
                      firstTurnId_ps = firstTurnId, nextTurnId_ps = nextTurnId,
                      phase_ps = phase_m m, currentDice_ps = currentDice_m m,
                      advantageLock_ps = advantageLock_m m,
                      queuedRolls_ps = queuedRolls_m m\<rparr>))
         | _ \<Rightarrow> Inl CannotFindHumanLines))"

text \<open>\<open>GameSession.getSnapshotText\<close>: the arguments it passes to the serializer.\<close>

definition getSnapshotText :: "session \<Rightarrow> error + string" where
  "getSnapshotText s =
     (case currentRound_s s of
        None \<Rightarrow> Inl NoActiveRound
      | Some r \<Rightarrow>
          Inr (serializeSnapshot
                 \<lparr>computerBoard_sp = board_p (computer r),
                  humanBoard_sp = board_p (human r),
                  computerScore_sp =
                    (case tournament_s s of Some t \<Rightarrow> totalScore (computer_t t)
                     | None \<Rightarrow> totalScore (computer r)),
                  humanScore_sp =
                    (case tournament_s s of Some t \<Rightarrow> totalScore (human_t t)
                     | None \<Rightarrow> totalScore (human r)),
                  firstTurnId_sp = firstPlayerId r,
                  nextTurnId_sp = currentPlayerId_s s,
                  phase_sp = phase s,
                  currentDice_sp = currentDice s,
                  advantageLock_sp = advantageLock r,
                  queuedRolls_sp = queuedRolls s\<rparr>))"

subsection \<open>Example snapshot texts\<close>

text \<open>
  A snapshot text without the \<open>Computer:\<close> block, one without the \<open>Human:\<close>
  block, and one with both; none has a metadata line.
\<close>

definition text_without_computer_block :: string where
  "text_without_computer_block =
     ''Human:'' @ [LF]
     @ ''   Squares: 1 2 0 4 5 6 7 8 9'' @ [LF]
     @ ''   Score: 4'' @ [LF, LF]
     @ ''First Turn: Human'' @ [LF]
     @ ''Next Turn: Computer'' @ [LF]"

definition text_without_human_block :: string where
  "text_without_human_block =
     ''Computer:'' @ [LF]
     @ ''   Squares: 1 2 0 4 5 6 7 8 9'' @ [LF]
     @ ''   Score: 4'' @ [LF, LF]
     @ ''First Turn: Human'' @ [LF]
     @ ''Next Turn: Computer'' @ [LF]"

definition full_text :: string where
  "full_text =
     ''Computer:'' @ [LF]
     @ ''   Squares: 1 2 3 4 0 6 7 8 9'' @ [LF]
     @ ''   Score: 7'' @ [LF, LF]
     @ ''Human:'' @ [LF]
     @ ''   Squares: 1 2 0 4 5 6 7 8 9'' @ [LF]
     @ ''   Score: 4'' @ [LF, LF]
     @ ''First Turn: Human'' @ [LF]
     @ ''Next Turn: Computer'' @ [LF]"

subsection \<open>The snapshot text, line by line\<close>

text \<open>
  The text \<open>serializeSnapshot\<close> returns is the sequence of the lines
  \<open>snapshot_lines\<close>, each followed by a line feed; \<open>trimmed_lines\<close> are the lines
  \<open>parseSnapshot\<close> works on, with the empty piece after the last line feed.
\<close>

definition unlines :: "string list \<Rightarrow> string" where
  "unlines ls = concat (map (\<lambda>l. l @ [LF]) ls)"

definition snapshot_lines :: "serialize_params \<Rightarrow> string list" where
  "snapshot_lines p =
     [''Computer:'',
      ''   Squares: '' @ join '' '' (map show_nat (toNumberArrayFormat (computerBoard_sp p))),
      ''   Score: '' @ show_nat (computerScore_sp p),
      '''',
      ''Human:'',
      ''   Squares: '' @ join '' '' (map show_nat (toNumberArrayFormat (humanBoard_sp p))),
      ''   Score: '' @ show_nat (humanScore_sp p),
      '''',
      ''First Turn: '' @ turn_label (firstTurnId_sp p),
      ''Next Turn: '' @ turn_label (nextTurnId_sp p),
      '''']
     @ meta_lines p"

definition trimmed_lines :: "serialize_params \<Rightarrow> string list" where
  "trimmed_lines p =
     [''Computer:'',
      ''Squares: '' @ join '' '' (map show_nat (toNumberArrayFormat (computerBoard_sp p))),
      ''Score: '' @ show_nat (computerScore_sp p),
      '''',
      ''Human:'',
      ''Squares: '' @ join '' '' (map show_nat (toNumberArrayFormat (humanBoard_sp p))),
      ''Score: '' @ show_nat (humanScore_sp p),
      '''',
      ''First Turn: '' @ turn_label (firstTurnId_sp p),
      ''Next Turn: '' @ turn_label (nextTurnId_sp p),
      '''']
     @ meta_lines p @ ['''']"

text \<open>
  Character classes of the pieces of a line: a \<open>token\<close> has no white space, an
  \<open>inline\<close> string no line break; \<open>numtext_char\<close> are the characters of the
  numbers, words and separators the serializer prints.
\<close>

definition token :: "string \<Rightarrow> bool" where
  "token t = (t \<noteq> [] \<and> (\<forall>c\<in>set t. \<not> is_space c))"

definition qtoken :: "string \<Rightarrow> bool" where
  "qtoken t = (token t \<and> CHR ''|'' \<notin> set t)"

definition numtext_char :: "char \<Rightarrow> bool" where
  "numtext_char c = (is_digit c \<or> c = CHR '' '' \<or> c = CHR ''-'' \<or> c = CHR '',''
                     \<or> c = CHR ''|'' \<or> c = CHR ''('' \<or> c = CHR '')'' \<or> c = CHR ''=''
                     \<or> (97 \<le> (of_char c :: nat) \<and> (of_char c :: nat) \<le> 122)
                     \<or> (65 \<le> (of_char c :: nat) \<and> (of_char c :: nat) \<le> 90))"

definition inline :: "string \<Rightarrow> bool" where
  "inline s = (LF \<notin> set s \<and> CR \<notin> set s)"

text \<open>
  The state as the parser is to return it: each number as the JavaScript number, the
  player id of the lock as its text.
\<close>

definition num_of :: "nat \<Rightarrow> jsnum" where
  "num_of n = Num (int n)"

definition expected_parse :: "serialize_params \<Rightarrow> parsed_snapshot" where
  "expected_parse p =
     \<lparr>computerSquares_ps = map num_of (toNumberArrayFormat (computerBoard_sp p)),
      humanSquares_ps = map num_of (toNumberArrayFormat (humanBoard_sp p)),
      computerScore_ps = num_of (computerScore_sp p),
      humanScore_ps = num_of (humanScore_sp p),
      firstTurnId_ps = firstTurnId_sp p,
      nextTurnId_ps = nextTurnId_sp p,
      phase_ps = phase_sp p,
      currentDice_ps =
        \<lparr>d1_pd = map_option num_of (d1 (currentDice_sp p)),
         d2_pd = map_option num_of (d2 (currentDice_sp p)),
         sum_pd = map_option num_of (sum_r (currentDice_sp p))\<rparr>,
      advantageLock_ps =
        map_option
          (\<lambda>l. \<lparr>playerId_pl = id_text (playerId l), squareNumber_pl = num_of (squareNumber l),
                 unlocked_pl = unlocked l\<rparr>)
          (advantageLock_sp p),
      queuedRolls_ps =
        map (\<lambda>q. (num_of (qd1 q), map_option num_of (qd2 q))) (queuedRolls_sp p)\<rparr>"

text \<open>
  The arguments \<open>getSnapshotText\<close> passes for a round in play or finished: boards of
  size at least 1 (the constructor makes no other), one of the three phases a session
  with a round is in, a lock on a square from 1 on (\<open>_applyAdvantageIfAny\<close> sets no
  other), and numbers that are safe integers, which print as their decimal digits.
\<close>

definition safe_nat :: "nat \<Rightarrow> bool" where
  "safe_nat n = (int n \<le> MAX_SAFE_INTEGER)"

definition safe_opt :: "nat option \<Rightarrow> bool" where
  "safe_opt v = (case v of None \<Rightarrow> True | Some n \<Rightarrow> safe_nat n)"

definition params_ok :: "serialize_params \<Rightarrow> bool" where
  "params_ok p =
     (1 \<le> size_b (computerBoard_sp p) \<and> 1 \<le> size_b (humanBoard_sp p)
      \<and> (phase_sp p = ''awaitingRoll'' \<or> phase_sp p = ''awaitingMove''
           \<or> phase_sp p = ''roundOver'')
      \<and> (case advantageLock_sp p of
            None \<Rightarrow> True
          | Some l \<Rightarrow> 1 \<le> squareNumber l \<and> safe_nat (squareNumber l))
      \<and> safe_nat (size_b (computerBoard_sp p)) \<and> safe_nat (size_b (humanBoard_sp p))
      \<and> safe_nat (computerScore_sp p) \<and> safe_nat (humanScore_sp p)
      \<and> safe_opt (d1 (currentDice_sp p)) \<and> safe_opt (d2 (currentDice_sp p))
      \<and> safe_opt (sum_r (currentDice_sp p))
      \<and> list_all (\<lambda>q. safe_nat (qd1 q) \<and> safe_opt (qd2 q)) (queuedRolls_sp p))"

text \<open>
  An example: the advantage round after COMPUTER has covered 2 and 3, with a pending
  roll, the lock on square 5 and two queued rolls.
\<close>

definition example_params :: serialize_params where
  "example_params =
     \<lparr>computerBoard_sp = board_p (computer adv_round_23),
      humanBoard_sp = board_p (human adv_round_23),
      computerScore_sp = 12, humanScore_sp = 7,
      firstTurnId_sp = HUMAN, nextTurnId_sp = COMPUTER,
      phase_sp = ''awaitingMove'',
      currentDice_sp = \<lparr>d1 = Some 3, d2 = Some 4, sum_r = Some 7\<rparr>,
      advantageLock_sp = Some \<lparr>playerId = COMPUTER, squareNumber = 5, unlocked = False\<rparr>,
      queuedRolls_sp = [\<lparr>qd1 = 6, qd2 = Some 6\<rparr>, \<lparr>qd1 = 3, qd2 = None\<rparr>]\<rparr>"

subsection \<open>The states a session saves\<close>

text \<open>
  \<open>snapshot_params\<close> are the arguments \<open>getSnapshotText\<close> passes to the
  serializer. \<open>save_inv\<close> holds of every session the operations build: a lock, of
  the round or of a history snapshot, is on a square from 1 on, and a session with a
  round is in one of the three phases of a round. \<open>numbers_safe\<close> says that the
  numbers of the state are safe integers.
\<close>

definition lock_ok :: "advantage_lock option \<Rightarrow> bool" where
  "lock_ok l = (case l of None \<Rightarrow> True | Some k \<Rightarrow> 1 \<le> squareNumber k)"

definition round_phase :: "string \<Rightarrow> bool" where
  "round_phase ph = (ph = ''awaitingRoll'' \<or> ph = ''awaitingMove'' \<or> ph = ''roundOver'')"

definition save_inv :: "session \<Rightarrow> bool" where
  "save_inv s =
     ((case currentRound_s s of
         None \<Rightarrow> True
       | Some r \<Rightarrow> lock_ok (advantageLock r) \<and> round_phase (phase s))
      \<and> list_all (\<lambda>e. lock_ok (advantageLock_rs (round_sn (snapshot_h e)))) (history s))"

definition snapshot_params :: "session \<Rightarrow> game_round \<Rightarrow> serialize_params" where
  "snapshot_params s r =
     \<lparr>computerBoard_sp = board_p (computer r),
      humanBoard_sp = board_p (human r),
      computerScore_sp =
        (case tournament_s s of Some t \<Rightarrow> totalScore (computer_t t)
         | None \<Rightarrow> totalScore (computer r)),
      humanScore_sp =
        (case tournament_s s of Some t \<Rightarrow> totalScore (human_t t)
         | None \<Rightarrow> totalScore (human r)),
      firstTurnId_sp = firstPlayerId r,
      nextTurnId_sp = currentPlayerId_s s,
      phase_sp = phase s,
      currentDice_sp = currentDice s,
      advantageLock_sp = advantageLock r,
      queuedRolls_sp = queuedRolls s\<rparr>"

definition numbers_safe :: "serialize_params \<Rightarrow> bool" where
  "numbers_safe p =
     ((case advantageLock_sp p of None \<Rightarrow> True | Some l \<Rightarrow> safe_nat (squareNumber l))
      \<and> safe_nat (size_b (computerBoard_sp p)) \<and> safe_nat (size_b (humanBoard_sp p))
      \<and> safe_nat (computerScore_sp p) \<and> safe_nat (humanScore_sp p)
      \<and> safe_opt (d1 (currentDice_sp p)) \<and> safe_opt (d2 (currentDice_sp p))
      \<and> safe_opt (sum_r (currentDice_sp p))
      \<and> list_all (\<lambda>q. safe_nat (qd1 q) \<and> safe_opt (qd2 q)) (queuedRolls_sp p))"

text \<open>
  The session of the second round: after \<open>first_turn_win\<close> a round of size 9 starts
  with COMPUTER first, square 9 covered for COMPUTER as its advantage, and COMPUTER
  rolls 5 and 6.
\<close>

definition second_round :: session where
  "second_round = snd (handleManualRoll 2 [5, 6] (snd (startNewRound 9 COMPUTER first_turn_win)))"

section \<open>Properties\<close>

subsection \<open>Digit sum\<close>

lemma digit_loop_mod9: "digit_loop 0 x mod 9 = x mod 9"
proof (induction x rule: less_induct)
  case (less x)
  show ?case
  proof (cases "x > 0")
    case True
    then have lt: "x div 10 < x" by simp
    let ?q = "x div 10" and ?r = "x mod 10"
    have step: "digit_loop 0 x = ?r + digit_loop 0 ?q"
      using True by (rule digit_loop_step)
    have ih: "digit_loop 0 ?q mod 9 = ?q mod 9" by (rule less.IH [OF lt])
    have "(?r + digit_loop 0 ?q) mod 9 = (?r + ?q) mod 9"
      using ih by (rule mod_add_cong [OF refl])
    moreover have "x = 9 * ?q + (?r + ?q)"
      using div_mult_mod_eq [of x 10] by linarith
    then have "x mod 9 = (9 * ?q + (?r + ?q)) mod 9" by simp
    then have "x mod 9 = (?r + ?q) mod 9" by (simp only: mod_mult_self4)
    ultimately show ?thesis using step by simp
  next
    case False
    then show ?thesis by (simp add: digit_loop.simps)
  qed
qed

lemma digit_loop_pos: "x > 0 \<Longrightarrow> digit_loop 0 x > 0"
proof (induction x rule: less_induct)
  case (less x)
  have step: "digit_loop 0 x = x mod 10 + digit_loop 0 (x div 10)"
    using less.prems by (rule digit_loop_step)
  show ?case
  proof (cases "x div 10 > 0")
    case True
    moreover have "x div 10 < x" using less.prems by simp
    ultimately have "digit_loop 0 (x div 10) > 0" using less.IH by blast
    then show ?thesis using step by simp
  next
    case False
    then have "x div 10 = 0" by simp
    then have "x mod 10 = x" using div_mult_mod_eq [of x 10] by simp
    then show ?thesis using step less.prems by simp
  qed
qed

lemma digitSum_nat_single_digit: "digitSum_nat x < 10"
proof (induction x rule: digitSum_nat.induct)
  case (1 x)
  show ?case
  proof (cases "x \<noteq> 0 \<and> digit_loop 0 x \<ge> 10")
    case True
    then have "digitSum_nat (digit_loop 0 x) < 10" using "1.IH" by blast
    then show ?thesis using True by (subst digitSum_nat_unfold) simp
  next
    case False
    then show ?thesis by (subst digitSum_nat_unfold) auto
  qed
qed

lemma digitSum_nat_mod9: "digitSum_nat x mod 9 = x mod 9"
proof (induction x rule: digitSum_nat.induct)
  case (1 x)
  show ?case
  proof (cases "x = 0")
    case True
    then show ?thesis by (simp add: digitSum_nat_unfold)
  next
    case False
    show ?thesis
    proof (cases "digit_loop 0 x \<ge> 10")
      case True
      then have "digitSum_nat x = digitSum_nat (digit_loop 0 x)"
        using False by (subst digitSum_nat_unfold) simp
      moreover have "digitSum_nat (digit_loop 0 x) mod 9 = digit_loop 0 x mod 9"
        using "1.IH" [OF False refl True] .
      ultimately show ?thesis using digit_loop_mod9 [of x] by simp
    next
      case ge: False
      then have "digitSum_nat x = digit_loop 0 x"
        using False by (subst digitSum_nat_unfold) simp
      then show ?thesis using digit_loop_mod9 [of x] by simp
    qed
  qed
qed

lemma digitSum_nat_pos: "x > 0 \<Longrightarrow> digitSum_nat x > 0"
proof (induction x rule: digitSum_nat.induct)
  case (1 x)
  then have nz: "x \<noteq> 0" by simp
  have dl: "digit_loop 0 x > 0" using "1.prems" by (rule digit_loop_pos)
  show ?case
  proof (cases "digit_loop 0 x \<ge> 10")
    case True
    then have "digitSum_nat x = digitSum_nat (digit_loop 0 x)"
      using nz by (subst digitSum_nat_unfold) simp
    then show ?thesis using "1.IH" [OF nz refl True dl] by simp
  next
    case False
    then have "digitSum_nat x = digit_loop 0 x"
      using nz by (subst digitSum_nat_unfold) simp
    then show ?thesis using dl by simp
  qed
qed

lemma digitSum_nat_small: "x < 10 \<Longrightarrow> digitSum_nat x = x"
proof -
  assume small: "x < 10"
  show ?thesis
  proof (cases "x = 0")
    case True
    then show ?thesis by (simp add: digitSum_nat_unfold)
  next
    case False
    then have pos: "x > 0" by simp
    have "x div 10 = 0" using small by simp
    moreover have "x mod 10 = x" using small by simp
    ultimately have "digit_loop 0 x = x"
      using digit_loop_step [OF pos] by (simp add: digit_loop.simps)
    then show ?thesis using False small by (subst digitSum_nat_unfold) simp
  qed
qed

lemma digitSum_nat_23: "digitSum_nat 23 = 5"
proof -
  have "digit_loop 0 23 = 23 mod 10 + digit_loop 0 (23 div 10)"
    by (rule digit_loop_step) simp
  also have "digit_loop 0 (23 div 10) = 2 mod 10 + digit_loop 0 (2 div 10)"
    by (simp add: digit_loop_step)
  finally have "digit_loop 0 23 = 5" by (simp add: digit_loop.simps)
  then show ?thesis by (subst digitSum_nat_unfold) simp
qed

lemma getOpponentId_neq: "getOpponentId p \<noteq> p"
  by (cases p) (simp_all add: getOpponentId_def)

subsection \<open>Advantage for the next round\<close>

text \<open>
  What \<open>updateAdvantageForNextRound\<close> leaves in \<open>nextRoundAdvantage\<close>, for every
  tournament: nothing when the tournament holds no round in \<open>currentRound\<close>, or the
  round is not over, has no winner or a score that is not positive; otherwise the digit
  sum of the round score, for the opponent of the winner when the winner moved first in
  the round and for the winner otherwise.
\<close>

lemma updateAdvantageForNextRound_result:
  "nextRoundAdvantage (updateAdvantageForNextRound t) =
     (case currentRound t of
        None \<Rightarrow> None
      | Some r \<Rightarrow>
          if \<not> roundOver r then None
          else
            (case roundWinnerId r of
               None \<Rightarrow> None
             | Some w \<Rightarrow>
                 if roundScore r \<le> 0 then None
                 else Some \<lparr>playerId_i = (if w = firstPlayerId r then getOpponentId w else w),
                            digitSum_i = digitSum (int (roundScore r))\<rparr>))"
  by (simp add: updateAdvantageForNextRound_def Let_def split: option.splits)

text \<open>
  The digit sum terminates (it is a total function); on a safe integer its result is a
  single decimal digit, congruent to the argument modulo 9, at least 1 for a non-zero
  argument and the argument itself below 10.
\<close>

lemma digitSum_single_digit:
  assumes "\<bar>n\<bar> \<le> MAX_SAFE_INTEGER"
  shows "digitSum n < 10 \<and> int (digitSum n) mod 9 = \<bar>n\<bar> mod 9
         \<and> (n \<noteq> 0 \<longrightarrow> 1 \<le> digitSum n)
         \<and> (\<bar>n\<bar> < 10 \<longrightarrow> int (digitSum n) = \<bar>n\<bar>)"
proof -
  have d1: "digitSum n < 10" by (simp add: digitSum_def digitSum_nat_single_digit)
  have d2: "int (digitSum n) mod 9 = \<bar>n\<bar> mod 9"
  proof -
    have "int (digitSum_nat (nat \<bar>n\<bar>) mod 9) = int (nat \<bar>n\<bar> mod 9)"
      by (simp only: digitSum_nat_mod9)
    then show ?thesis by (simp add: digitSum_def zmod_int)
  qed
  have d3: "n \<noteq> 0 \<Longrightarrow> 1 \<le> digitSum n"
    using digitSum_nat_pos [of "nat \<bar>n\<bar>"] by (simp add: digitSum_def)
  have d4: "\<bar>n\<bar> < 10 \<Longrightarrow> int (digitSum n) = \<bar>n\<bar>"
    using digitSum_nat_small [of "nat \<bar>n\<bar>"] by (simp add: digitSum_def)
  show ?thesis using d1 d2 d3 d4 by blast
qed

lemma advantage_of_won_round:
  "nextRoundAdvantage
     (updateAdvantageForNextRound (new_Tournament\<lparr>currentRound := Some won_round\<rparr>))
   = Some \<lparr>playerId_i = COMPUTER, digitSum_i = 5\<rparr>
   \<and> digitSum 23 = 5"
  by code_simp

text \<open>
  Claim C4, on the round a session has finished. The session asks the tournament for
  the advantage as soon as its round is over, and the tournament reads the round from
  its own \<open>currentRound\<close>. \<open>startNewRound\<close> sets that field;
  \<open>_restoreSnapshot\<close> builds a new tournament and a new round and leaves the field
  \<open>null\<close>. In \<open>first_turn_win\<close> HUMAN, who moved first, wins by covering with a
  round score of 45, and the tournament grants COMPUTER the square 9, the digit sum of
  45. In \<open>rewound_first_turn_win\<close> the same rolls and moves follow a rewind to the
  start of the round: the round ends with the same winner, first player and score, the
  tournament holds no round, and no advantage is granted.
\<close>

theorem advantage_lost_after_rewind:
  "fst (rewindTo 0 (snd (startNewRound 9 HUMAN new_GameSession))) = None
   \<and> currentRound_s (snd (rewindTo 0 (snd (startNewRound 9 HUMAN new_GameSession))))
       = currentRound_s (snd (startNewRound 9 HUMAN new_GameSession))
   \<and> phase first_turn_win = ''roundOver''
   \<and> map_option roundOver (currentRound_s first_turn_win) = Some True
   \<and> map_option roundWinnerId (currentRound_s first_turn_win) = Some (Some HUMAN)
   \<and> map_option firstPlayerId (currentRound_s first_turn_win) = Some HUMAN
   \<and> map_option roundScore (currentRound_s first_turn_win) = Some 45
   \<and> map_option currentRound (tournament_s first_turn_win)
       = Some (currentRound_s first_turn_win)
   \<and> map_option nextRoundAdvantage (tournament_s first_turn_win)
       = Some (Some \<lparr>playerId_i = COMPUTER, digitSum_i = 9\<rparr>)
   \<and> phase rewound_first_turn_win = ''roundOver''
   \<and> map_option roundOver (currentRound_s rewound_first_turn_win) = Some True
   \<and> map_option roundWinnerId (currentRound_s rewound_first_turn_win) = Some (Some HUMAN)
   \<and> map_option firstPlayerId (currentRound_s rewound_first_turn_win) = Some HUMAN
   \<and> map_option roundScore (currentRound_s rewound_first_turn_win) = Some 45
   \<and> map_option currentRound (tournament_s rewound_first_turn_win) = Some None
   \<and> map_option nextRoundAdvantage (tournament_s rewound_first_turn_win) = Some None
   \<and> digitSum 45 = 9"
  by code_simp

subsection \<open>The advantage lock\<close>

text \<open>
  Claim C3, as the code has it. \<open>notifyTurnEnded\<close> sets \<open>unlocked\<close> exactly when a
  lock exists, is not yet unlocked, and the player whose turn ended is the holder of the
  lock; in every other case the round is unchanged.
\<close>

theorem notifyTurnEnded_unlocks_on_holder_turn:
  "(case advantageLock r of
      None \<Rightarrow> notifyTurnEnded pid r = r
    | Some l \<Rightarrow>
        (\<not> unlocked l \<and> pid = playerId l \<longrightarrow>
           notifyTurnEnded pid r = r\<lparr>advantageLock := Some (l\<lparr>unlocked := True\<rparr>)\<rparr>)
      \<and> (unlocked l \<or> pid \<noteq> playerId l \<longrightarrow> notifyTurnEnded pid r = r))"
  by (auto simp add: notifyTurnEnded_def split: option.splits)

theorem notifyTurnEnded_unlocks_on_holder_turn_witness:
  "advantageLock adv_round = Some \<lparr>playerId = COMPUTER, squareNumber = 5, unlocked = False\<rparr>
   \<and> advantageLock (notifyTurnEnded COMPUTER adv_round)
       = Some \<lparr>playerId = COMPUTER, squareNumber = 5, unlocked = True\<rparr>
   \<and> notifyTurnEnded HUMAN adv_round = adv_round"
proof -
  have l: "advantageLock adv_round
           = Some \<lparr>playerId = COMPUTER, squareNumber = 5, unlocked = False\<rparr>"
    by code_simp
  show ?thesis
    using notifyTurnEnded_unlocks_on_holder_turn [where r = adv_round and pid = COMPUTER]
          notifyTurnEnded_unlocks_on_holder_turn [where r = adv_round and pid = HUMAN] l
    by simp
qed

text \<open>
  The claim as written has the opponent of the holder unlock the square. With COMPUTER
  holding the lock, the end of HUMAN's turn leaves it locked and the end of COMPUTER's
  turn unlocks it.
\<close>

theorem notifyTurnEnded_opponent_counterexample:
  "getOpponentId COMPUTER = HUMAN
   \<and> advantageLock adv_round
       = Some \<lparr>playerId = COMPUTER, squareNumber = 5, unlocked = False\<rparr>
   \<and> advantageLock (notifyTurnEnded HUMAN adv_round)
       = Some \<lparr>playerId = COMPUTER, squareNumber = 5, unlocked = False\<rparr>
   \<and> advantageLock (notifyTurnEnded COMPUTER adv_round)
       = Some \<lparr>playerId = COMPUTER, squareNumber = 5, unlocked = True\<rparr>"
  by code_simp

text \<open>
  Claim C9. While a lock is present and not unlocked, no combination offered for
  uncovering squares on the holder's board contains the locked square.
\<close>

theorem locked_square_not_in_uncover_options:
  assumes "advantageLock r = Some l" and "\<not> unlocked l"
    and "getOpponentId pid = playerId l"
    and "combo \<in> set (getUncoverOptions r pid diceSum)"
  shows "squareNumber l \<notin> set combo"
proof -
  have "pid \<noteq> playerId l" using assms(3) getOpponentId_neq [of pid] by auto
  then have "getUncoverOptions r pid diceSum =
        filter (\<lambda>combo. squareNumber l \<notin> set combo)
          (getUncoverCombos (board_p (getOpponent r pid)) diceSum)"
    using assms(1,2) by (simp add: getUncoverOptions_def Let_def)
  then show ?thesis using assms(4) by simp
qed

theorem locked_square_not_in_uncover_options_witness:
  "getUncoverCombos (board_p (computer adv_round_23)) 5 = [[2, 3], [5]]
   \<and> getUncoverOptions adv_round_23 HUMAN 5 = [[2, 3]]
   \<and> 5 \<notin> set [2, 3 :: nat]"
proof -
  let ?l = "\<lparr>playerId = COMPUTER, squareNumber = 5, unlocked = False\<rparr>"
  have h1: "advantageLock adv_round_23 = Some ?l" by code_simp
  have h2: "\<not> unlocked ?l" by simp
  have h3: "getOpponentId HUMAN = playerId ?l" by (simp add: getOpponentId_def)
  have opts: "getUncoverOptions adv_round_23 HUMAN 5 = [[2, 3]]" by code_simp
  have h4: "[2, 3] \<in> set (getUncoverOptions adv_round_23 HUMAN 5)" by (simp add: opts)
  have all: "getUncoverCombos (board_p (computer adv_round_23)) 5 = [[2, 3], [5]]"
    by code_simp
  have "squareNumber ?l \<notin> set [2, 3 :: nat]"
    by (rule locked_square_not_in_uncover_options [OF h1 h2 h3 h4])
  then show ?thesis using opts all by simp
qed

subsection \<open>The combination search\<close>

lemma backtrack_shape:
  "x \<in> set (backtrack rest rem path) \<Longrightarrow> \<exists>ys. x = path @ ys \<and> set ys \<subseteq> set rest"
  "x \<in> set (backtrack_loop rest rem path) \<Longrightarrow> \<exists>ys. x = path @ ys \<and> set ys \<subseteq> set rest"
proof (induction rest rem path and rest rem path arbitrary: x and x
       rule: backtrack_backtrack_loop.induct)
  case (1 rest remaining path)
  then show ?case by (auto split: if_splits)
next
  case (2 remaining path)
  then show ?case by simp
next
  case (3 n rest remaining path)
  from "3.prems" have le: "\<not> int n > remaining" by (auto split: if_splits)
  from "3.prems" le consider
      (a) "x \<in> set (backtrack rest (remaining - int n) (path @ [n]))"
    | (b) "x \<in> set (backtrack_loop rest remaining path)"
    by auto
  then show ?case
  proof cases
    case a
    from "3.IH"(1) [OF le a] obtain ys where "x = (path @ [n]) @ ys" "set ys \<subseteq> set rest"
      by blast
    then have "x = path @ (n # ys) \<and> set (n # ys) \<subseteq> set (n # rest)" by auto
    then show ?thesis by blast
  next
    case b
    from "3.IH"(2) [OF le b] obtain ys where "x = path @ ys" "set ys \<subseteq> set rest"
      by blast
    then have "x = path @ ys \<and> set ys \<subseteq> set (n # rest)" by auto
    then show ?thesis by blast
  qed
qed

lemma backtrack_distinct:
  "distinct rest \<Longrightarrow> distinct (backtrack rest rem path)"
  "distinct rest \<Longrightarrow> distinct (backtrack_loop rest rem path)"
proof (induction rest rem path and rest rem path rule: backtrack_backtrack_loop.induct)
  case (1 rest remaining path)
  then show ?case by simp
next
  case (2 remaining path)
  then show ?case by simp
next
  case (3 n rest remaining path)
  show ?case
  proof (cases "int n > remaining")
    case True
    then show ?thesis by simp
  next
    case False
    have d: "distinct rest" and nin: "n \<notin> set rest" using "3.prems" by auto
    have d1: "distinct (backtrack rest (remaining - int n) (path @ [n]))"
      using "3.IH"(1) [OF False d] .
    have d2: "distinct (backtrack_loop rest remaining path)"
      using "3.IH"(2) [OF False d] .
    have disj: "set (backtrack rest (remaining - int n) (path @ [n]))
                \<inter> set (backtrack_loop rest remaining path) = {}"
    proof (rule ccontr)
      assume "\<not> ?thesis"
      then obtain x where x1: "x \<in> set (backtrack rest (remaining - int n) (path @ [n]))"
        and x2: "x \<in> set (backtrack_loop rest remaining path)" by blast
      from backtrack_shape(1) [OF x1] obtain ys where y: "x = (path @ [n]) @ ys" by blast
      from backtrack_shape(2) [OF x2] obtain zs where z: "x = path @ zs" "set zs \<subseteq> set rest"
        by blast
      from y z have "zs = n # ys" by simp
      then show False using z(2) nin by auto
    qed
    show ?thesis using False d1 d2 disj by simp
  qed
qed

lemma pos_sum_zero:
  "\<forall>x\<in>set ys. (1::nat) \<le> x \<Longrightarrow> sum_list ys = 0 \<Longrightarrow> ys = []"
  by (cases ys) auto

lemma Nil_in_subseqs: "[] \<in> set (subseqs xs)"
  by (induction xs) (auto simp add: Let_def)

lemma subseqs_set: "ys \<in> set (subseqs xs) \<Longrightarrow> set ys \<subseteq> set xs"
  using subseqs_powset [of xs] by blast

lemma backtrack_set:
  "sorted rest \<Longrightarrow> \<forall>x\<in>set rest. 1 \<le> x \<Longrightarrow> length path \<le> 4 \<Longrightarrow>
     set (backtrack rest rem path) =
       {path @ ys | ys. ys \<in> set (subseqs rest) \<and> int (sum_list ys) = rem
                        \<and> 1 \<le> length (path @ ys) \<and> length (path @ ys) \<le> 4}"
  "sorted rest \<Longrightarrow> \<forall>x\<in>set rest. 1 \<le> x \<Longrightarrow> length path < 4 \<Longrightarrow>
     set (backtrack_loop rest rem path) =
       {path @ ys | ys. ys \<in> set (subseqs rest) \<and> ys \<noteq> [] \<and> int (sum_list ys) = rem
                        \<and> length (path @ ys) \<le> 4}"
proof (induction rest rem path and rest rem path rule: backtrack_backtrack_loop.induct)
  case (1 rest remaining path)
  let ?S = "{path @ ys | ys. ys \<in> set (subseqs rest) \<and> int (sum_list ys) = remaining
                        \<and> 1 \<le> length (path @ ys) \<and> length (path @ ys) \<le> 4}"
  have pos: "\<And>ys. ys \<in> set (subseqs rest) \<Longrightarrow> \<forall>x\<in>set ys. 1 \<le> x"
    using "1.prems"(2) subseqs_set by blast
  show ?case
  proof (cases "remaining = 0 \<and> length path \<ge> 1 \<and> length path \<le> 4")
    case True
    have "?S = {path}"
    proof
      show "?S \<subseteq> {path}"
      proof
        fix x assume "x \<in> ?S"
        then obtain ys where x: "x = path @ ys" and ys: "ys \<in> set (subseqs rest)"
          and s: "int (sum_list ys) = remaining" by blast
        from s True have "sum_list ys = 0" by simp
        then have "ys = []" using pos [OF ys] pos_sum_zero by blast
        then show "x \<in> {path}" using x by simp
      qed
      have "[] \<in> set (subseqs rest)" by (rule Nil_in_subseqs)
      then have "path @ [] \<in> ?S" using True by fastforce
      then show "{path} \<subseteq> ?S" by simp
    qed
    moreover have "backtrack rest remaining path = [path]" using True by simp
    ultimately show ?thesis by (simp only: list.set)
  next
    case nowin: False
    show ?thesis
    proof (cases "remaining < 0 \<or> length path = 4")
      case True
      have "?S = {}"
      proof (rule ccontr)
        assume "?S \<noteq> {}"
        then obtain ys where ys: "ys \<in> set (subseqs rest)"
          and s: "int (sum_list ys) = remaining"
          and l: "1 \<le> length (path @ ys)" "length (path @ ys) \<le> 4" by blast
        from s have nonneg: "\<not> remaining < 0" by linarith
        with True have l4: "length path = 4" by simp
        with l have "ys = []" by simp
        with s have "remaining = 0" by simp
        with l4 nowin show False by simp
      qed
      moreover have "backtrack rest remaining path = []" using True nowin by auto
      ultimately show ?thesis by (simp only: list.set)
    next
      case False
      then have lt: "length path < 4" using "1.prems"(3) by simp
      have eq: "set (backtrack rest remaining path) = set (backtrack_loop rest remaining path)"
        using nowin False by auto
      have loop: "set (backtrack_loop rest remaining path) =
          {path @ ys | ys. ys \<in> set (subseqs rest) \<and> ys \<noteq> [] \<and> int (sum_list ys) = remaining
                           \<and> length (path @ ys) \<le> 4}"
        using "1.IH" [OF nowin False "1.prems"(1,2) lt] .
      have "{path @ ys | ys. ys \<in> set (subseqs rest) \<and> ys \<noteq> [] \<and> int (sum_list ys) = remaining
                           \<and> length (path @ ys) \<le> 4} = ?S"
      proof
        show "{path @ ys | ys. ys \<in> set (subseqs rest) \<and> ys \<noteq> [] \<and> int (sum_list ys) = remaining
                           \<and> length (path @ ys) \<le> 4} \<subseteq> ?S"
        proof
          fix x
          assume "x \<in> {path @ ys | ys. ys \<in> set (subseqs rest) \<and> ys \<noteq> []
                           \<and> int (sum_list ys) = remaining \<and> length (path @ ys) \<le> 4}"
          then obtain ys where "x = path @ ys" "ys \<in> set (subseqs rest)" "ys \<noteq> []"
            "int (sum_list ys) = remaining" "length (path @ ys) \<le> 4" by blast
          moreover from \<open>ys \<noteq> []\<close> have "1 \<le> length (path @ ys)"
            by (cases ys) simp_all
          ultimately show "x \<in> ?S" by blast
        qed
        show "?S \<subseteq> {path @ ys | ys. ys \<in> set (subseqs rest) \<and> ys \<noteq> []
                           \<and> int (sum_list ys) = remaining \<and> length (path @ ys) \<le> 4}"
        proof
          fix x assume "x \<in> ?S"
          then obtain ys where x: "x = path @ ys" and ys: "ys \<in> set (subseqs rest)"
            and s: "int (sum_list ys) = remaining"
            and l: "1 \<le> length (path @ ys)" "length (path @ ys) \<le> 4" by blast
          have "ys \<noteq> []"
          proof
            assume "ys = []"
            with s l have "remaining = 0 \<and> length path \<ge> 1 \<and> length path \<le> 4" by simp
            with nowin show False by simp
          qed
          with x ys s l
          show "x \<in> {path @ ys | ys. ys \<in> set (subseqs rest) \<and> ys \<noteq> []
                           \<and> int (sum_list ys) = remaining \<and> length (path @ ys) \<le> 4}"
            by blast
        qed
      qed
      then show ?thesis using eq loop by (simp only:)
    qed
  qed
next
  case (2 remaining path)
  have "[] \<in> set (subseqs [])" by simp
  show ?case by simp
next
  case (3 n rest remaining path)
  let ?T = "{path @ ys | ys. ys \<in> set (subseqs (n # rest)) \<and> ys \<noteq> []
                 \<and> int (sum_list ys) = remaining \<and> length (path @ ys) \<le> 4}"
  have srt: "sorted rest" and ge: "\<forall>x\<in>set rest. n \<le> x" using "3.prems"(1) by auto
  have pos: "\<forall>x\<in>set rest. 1 \<le> x" using "3.prems"(2) by simp
  show ?case
  proof (cases "int n > remaining")
    case True
    have "?T = {}"
    proof (rule ccontr)
      assume "?T \<noteq> {}"
      then obtain ys where ys: "ys \<in> set (subseqs (n # rest))" and ne: "ys \<noteq> []"
        and s: "int (sum_list ys) = remaining" by blast
      from ne obtain y where y: "y \<in> set ys" by (cases ys) auto
      then have "y \<in> set (n # rest)" using subseqs_set [OF ys] by blast
      then have "n \<le> y" using ge by auto
      moreover have "y \<le> sum_list ys" using y by (simp add: member_le_sum_list)
      ultimately show False using s True by linarith
    qed
    moreover have "backtrack_loop (n # rest) remaining path = []" using True by simp
    ultimately show ?thesis by (simp only: list.set)
  next
    case False
    have l1: "length (path @ [n]) \<le> 4" using "3.prems"(3) by simp
    have A: "set (backtrack rest (remaining - int n) (path @ [n])) =
       {(path @ [n]) @ ys | ys. ys \<in> set (subseqs rest) \<and> int (sum_list ys) = remaining - int n
                        \<and> 1 \<le> length ((path @ [n]) @ ys) \<and> length ((path @ [n]) @ ys) \<le> 4}"
      using "3.IH"(1) [OF False srt pos l1] .
    have B: "set (backtrack_loop rest remaining path) =
       {path @ ys | ys. ys \<in> set (subseqs rest) \<and> ys \<noteq> [] \<and> int (sum_list ys) = remaining
                        \<and> length (path @ ys) \<le> 4}"
      using "3.IH"(2) [OF False srt pos "3.prems"(3)] .
    have split: "set (subseqs (n # rest)) = (Cons n) ` set (subseqs rest) \<union> set (subseqs rest)"
      by (simp add: Let_def)
    have "?T = set (backtrack rest (remaining - int n) (path @ [n]))
               \<union> set (backtrack_loop rest remaining path)"
    proof
      show "?T \<subseteq> set (backtrack rest (remaining - int n) (path @ [n]))
               \<union> set (backtrack_loop rest remaining path)"
      proof
        fix x assume "x \<in> ?T"
        then obtain ys where x: "x = path @ ys" and ys: "ys \<in> set (subseqs (n # rest))"
          and ne: "ys \<noteq> []" and s: "int (sum_list ys) = remaining"
          and l: "length (path @ ys) \<le> 4" by blast
        from ys split consider (hd) zs where "ys = n # zs" "zs \<in> set (subseqs rest)"
          | (tl) "ys \<in> set (subseqs rest)" by blast
        then show "x \<in> set (backtrack rest (remaining - int n) (path @ [n]))
               \<union> set (backtrack_loop rest remaining path)"
        proof cases
          case hd
          have "x = (path @ [n]) @ zs" using x hd(1) by simp
          moreover have "int (sum_list zs) = remaining - int n" using s hd(1) by simp
          moreover have "1 \<le> length ((path @ [n]) @ zs)" by simp
          moreover have "length ((path @ [n]) @ zs) \<le> 4" using l hd(1) by simp
          ultimately have "x \<in> set (backtrack rest (remaining - int n) (path @ [n]))"
            unfolding A using hd(2) by blast
          then show ?thesis by simp
        next
          case tl
          then have "x \<in> set (backtrack_loop rest remaining path)"
            unfolding B using x ne s l by blast
          then show ?thesis by simp
        qed
      qed
      show "set (backtrack rest (remaining - int n) (path @ [n]))
               \<union> set (backtrack_loop rest remaining path) \<subseteq> ?T"
      proof
        fix x
        assume "x \<in> set (backtrack rest (remaining - int n) (path @ [n]))
               \<union> set (backtrack_loop rest remaining path)"
        then consider (a) "x \<in> set (backtrack rest (remaining - int n) (path @ [n]))"
          | (b) "x \<in> set (backtrack_loop rest remaining path)" by blast
        then show "x \<in> ?T"
        proof cases
          case a
          then obtain zs where x: "x = (path @ [n]) @ zs" and zs: "zs \<in> set (subseqs rest)"
            and s: "int (sum_list zs) = remaining - int n"
            and l: "length ((path @ [n]) @ zs) \<le> 4" unfolding A by blast
          have "x = path @ (n # zs)" using x by simp
          moreover have "n # zs \<in> set (subseqs (n # rest))" using zs split by blast
          moreover have "n # zs \<noteq> []" by simp
          moreover have "int (sum_list (n # zs)) = remaining" using s by simp
          moreover have "length (path @ (n # zs)) \<le> 4" using l by simp
          ultimately show ?thesis by blast
        next
          case b
          then obtain ys where x: "x = path @ ys" and ys: "ys \<in> set (subseqs rest)"
            and ne: "ys \<noteq> []" and s: "int (sum_list ys) = remaining"
            and l: "length (path @ ys) \<le> 4" unfolding B by blast
          have "ys \<in> set (subseqs (n # rest))" using ys split by blast
          then show ?thesis using x ne s l by blast
        qed
      qed
    qed
    moreover have "backtrack_loop (n # rest) remaining path =
         backtrack rest (remaining - int n) (path @ [n]) @ backtrack_loop rest remaining path"
      using False by simp
    ultimately show ?thesis by (simp only: set_append)
  qed
qed

lemma subseqs_strict_sorted_iff:
  fixes cs :: "nat list"
  shows "sorted_wrt (<) cs \<Longrightarrow>
         xs \<in> set (subseqs cs) \<longleftrightarrow> sorted_wrt (<) xs \<and> set xs \<subseteq> set cs"
proof (induction cs arbitrary: xs)
  case Nil
  then show ?case by auto
next
  case (Cons c cs)
  have srt: "sorted_wrt (<) cs" and gt: "\<forall>x\<in>set cs. c < x" using Cons.prems by auto
  have split: "set (subseqs (c # cs)) = (Cons c) ` set (subseqs cs) \<union> set (subseqs cs)"
    by (simp add: Let_def)
  show ?case
  proof
    assume "xs \<in> set (subseqs (c # cs))"
    then consider (hd) zs where "xs = c # zs" "zs \<in> set (subseqs cs)"
      | (tl) "xs \<in> set (subseqs cs)" using split by blast
    then show "sorted_wrt (<) xs \<and> set xs \<subseteq> set (c # cs)"
    proof cases
      case hd
      then have "sorted_wrt (<) zs \<and> set zs \<subseteq> set cs" using Cons.IH [OF srt] by blast
      then show ?thesis using hd(1) gt by auto
    next
      case tl
      then have "sorted_wrt (<) xs \<and> set xs \<subseteq> set cs" using Cons.IH [OF srt] by blast
      then show ?thesis by auto
    qed
  next
    assume a: "sorted_wrt (<) xs \<and> set xs \<subseteq> set (c # cs)"
    show "xs \<in> set (subseqs (c # cs))"
    proof (cases xs)
      case Nil
      then show ?thesis using Nil_in_subseqs by blast
    next
      case (Cons y ys)
      have ys: "sorted_wrt (<) ys" and ygt: "\<forall>x\<in>set ys. y < x" using a Cons by auto
      show ?thesis
      proof (cases "y = c")
        case True
        have "set ys \<subseteq> set cs"
        proof
          fix x assume x: "x \<in> set ys"
          then have "c < x" using ygt True by simp
          moreover have "x \<in> set (c # cs)" using a Cons x by auto
          ultimately show "x \<in> set cs" by auto
        qed
        then have "ys \<in> set (subseqs cs)" using Cons.IH [OF srt] ys by blast
        then show ?thesis using Cons True split by blast
      next
        case False
        then have "y \<in> set cs" using a Cons by auto
        then have cy: "c < y" using gt by blast
        have "set xs \<subseteq> set cs"
        proof
          fix x assume x: "x \<in> set xs"
          then have "y \<le> x" using ygt Cons by auto
          then have "c < x" using cy by simp
          moreover have "x \<in> set (c # cs)" using a x by auto
          ultimately show "x \<in> set cs" by auto
        qed
        then have "xs \<in> set (subseqs cs)" using Cons.IH [OF srt] a by blast
        then show ?thesis using split by blast
      qed
    qed
  qed
qed

lemma getCombosForSum_set:
  assumes "sorted_wrt (<) cands" and "\<forall>x\<in>set cands. 1 \<le> x"
  shows "set (getCombosForSum cands target) =
           {xs \<in> combinations_spec (set cands) target. length xs \<le> 4}"
proof -
  have s: "sorted cands" using assms(1) by (simp add: strict_sorted_iff)
  then have id: "sort cands = cands" by (rule sorted_sort_id)
  have "set (backtrack cands (int target) []) =
       {[] @ ys | ys. ys \<in> set (subseqs cands) \<and> int (sum_list ys) = int target
                        \<and> 1 \<le> length ([] @ ys) \<and> length ([] @ ys) \<le> 4}"
    by (rule backtrack_set(1) [OF s assms(2)]) simp
  also have "\<dots> = {xs \<in> combinations_spec (set cands) target. length xs \<le> 4}"
  proof -
    have "\<And>ys. ys \<in> set (subseqs cands) \<longleftrightarrow> sorted_wrt (<) ys \<and> set ys \<subseteq> set cands"
      by (rule subseqs_strict_sorted_iff [OF assms(1)])
    moreover have "\<And>ys::nat list. 1 \<le> length ys \<longleftrightarrow> ys \<noteq> []"
      by (case_tac ys) simp_all
    ultimately show ?thesis by (auto simp add: combinations_spec_def)
  qed
  finally show ?thesis by (simp add: getCombosForSum_def id)
qed

lemma getCombosForSum_distinct:
  assumes "sorted_wrt (<) cands" and "\<forall>x\<in>set cands. 1 \<le> x"
  shows "distinct (map set (getCombosForSum cands target))"
proof -
  have s: "sorted cands" and d: "distinct cands" using assms(1) by (simp_all add: strict_sorted_iff)
  have id: "sort cands = cands" using s by (rule sorted_sort_id)
  have d1: "distinct (backtrack cands (int target) [])" using d by (rule backtrack_distinct(1))
  have "distinct (map set (subseqs cands))" using d by (rule distinct_set_subseqs)
  then have inj: "inj_on set (set (subseqs cands))" by (simp add: distinct_map)
  have sub: "set (backtrack cands (int target) []) \<subseteq> set (subseqs cands)"
  proof
    fix x assume "x \<in> set (backtrack cands (int target) [])"
    then have "x \<in> {[] @ ys | ys. ys \<in> set (subseqs cands) \<and> int (sum_list ys) = int target
                        \<and> 1 \<le> length ([] @ ys) \<and> length ([] @ ys) \<le> 4}"
      using backtrack_set(1) [OF s assms(2), of "[]" "int target"] by simp
    then show "x \<in> set (subseqs cands)" by auto
  qed
  have "inj_on set (set (backtrack cands (int target) []))"
    using inj sub by (rule inj_on_subset)
  then show ?thesis using d1 by (simp add: getCombosForSum_def id distinct_map)
qed

lemma filter_upt_strict: "sorted_wrt (<) (filter P [1 ..< n + 1])"
  by (rule sorted_wrt_filter) (rule sorted_wrt_upt)

lemma small_sum_short:
  fixes xs :: "nat list"
  assumes "sorted_wrt (<) xs" and "\<forall>x\<in>set xs. 1 \<le> x" and "sum_list xs \<le> 14"
  shows "length xs \<le> 4"
proof (rule ccontr)
  assume "\<not> length xs \<le> 4"
  then have "5 \<le> length xs" by simp
  then obtain a b c d e r where xs: "xs = a # b # c # d # e # r"
    by (cases xs; cases "tl xs"; cases "tl (tl xs)"; cases "tl (tl (tl xs))";
        cases "tl (tl (tl (tl xs)))") auto
  from assms(1,2) xs have "1 \<le> a" "a < b" "b < c" "c < d" "d < e" by auto
  then have "15 \<le> a + b + c + d + e" by linarith
  then show False using assms(3) xs by simp
qed

lemma getUncoveredNumbers_set: "set (getUncoveredNumbers b) = uncovered_squares b"
  by (auto simp add: getUncoveredNumbers_def uncovered_squares_def)

lemma getCoveredNumbers_set: "set (getCoveredNumbers b) = covered_squares b"
  by (auto simp add: getCoveredNumbers_def covered_squares_def)

lemma spec_small_sum:
  assumes "t \<le> 14" and "\<forall>x\<in>S. 1 \<le> x"
  shows "{xs \<in> combinations_spec S t. length xs \<le> 4} = combinations_spec S t"
proof -
  have "length xs \<le> 4" if "xs \<in> combinations_spec S t" for xs
  proof (rule small_sum_short)
    show "sorted_wrt (<) xs" using that by (simp add: combinations_spec_def)
    show "\<forall>x\<in>set xs. 1 \<le> x" using that assms(2) by (auto simp add: combinations_spec_def)
    show "sum_list xs \<le> 14" using that assms(1) by (simp add: combinations_spec_def)
  qed
  then show ?thesis by blast
qed

text \<open>
  Claim C1, as the code has it. For every board and every total \<open>t\<close>, the cover
  search returns exactly the non-empty subsets of at most four currently uncovered
  squares whose sum is \<open>t\<close>, each subset once and in ascending order; likewise the
  uncover search over the currently covered squares. For \<open>t \<le> 14\<close>, hence for every
  total of one or two dice, the bound of four excludes nothing. On a fresh board of size
  9 the cover options for 7 are \<open>{1,2,4}\<close>, \<open>{1,6}\<close>, \<open>{2,5}\<close>, \<open>{3,4}\<close> and
  \<open>{7}\<close>.
\<close>

theorem combination_search_subsets_up_to_four:
  "set (getCoverCombos b t) = {xs \<in> combinations_spec (uncovered_squares b) t. length xs \<le> 4}
   \<and> distinct (map set (getCoverCombos b t))
   \<and> set (getUncoverCombos b t) = {xs \<in> combinations_spec (covered_squares b) t. length xs \<le> 4}
   \<and> distinct (map set (getUncoverCombos b t))
   \<and> (t \<le> 14 \<longrightarrow>
        set (getCoverCombos b t) = combinations_spec (uncovered_squares b) t
        \<and> set (getUncoverCombos b t) = combinations_spec (covered_squares b) t)
   \<and> getCoverCombos (board_p (human fresh_round)) 7 = [[1, 2, 4], [1, 6], [2, 5], [3, 4], [7]]"
proof -
  have su: "sorted_wrt (<) (getUncoveredNumbers b)"
    unfolding getUncoveredNumbers_def by (rule filter_upt_strict)
  have sc: "sorted_wrt (<) (getCoveredNumbers b)"
    unfolding getCoveredNumbers_def by (rule filter_upt_strict)
  have pu: "\<forall>x\<in>set (getUncoveredNumbers b). 1 \<le> x"
    by (auto simp add: getUncoveredNumbers_def)
  have pc: "\<forall>x\<in>set (getCoveredNumbers b). 1 \<le> x"
    by (auto simp add: getCoveredNumbers_def)
  have c1: "set (getCoverCombos b t)
            = {xs \<in> combinations_spec (uncovered_squares b) t. length xs \<le> 4}"
    using getCombosForSum_set [OF su pu, of t]
    by (simp only: getCoverCombos_def getUncoveredNumbers_set)
  have c2: "distinct (map set (getCoverCombos b t))"
    using getCombosForSum_distinct [OF su pu, of t] by (simp only: getCoverCombos_def)
  have u1: "set (getUncoverCombos b t)
            = {xs \<in> combinations_spec (covered_squares b) t. length xs \<le> 4}"
    using getCombosForSum_set [OF sc pc, of t]
    by (simp only: getUncoverCombos_def getCoveredNumbers_set)
  have u2: "distinct (map set (getUncoverCombos b t))"
    using getCombosForSum_distinct [OF sc pc, of t] by (simp only: getUncoverCombos_def)
  have pu': "\<forall>x\<in>uncovered_squares b. 1 \<le> x" by (simp add: uncovered_squares_def)
  have pc': "\<forall>x\<in>covered_squares b. 1 \<le> x" by (simp add: covered_squares_def)
  have small: "t \<le> 14 \<longrightarrow>
        set (getCoverCombos b t) = combinations_spec (uncovered_squares b) t
        \<and> set (getUncoverCombos b t) = combinations_spec (covered_squares b) t"
    using c1 u1 spec_small_sum [OF _ pu'] spec_small_sum [OF _ pc'] by simp
  have ex: "getCoverCombos (board_p (human fresh_round)) 7
            = [[1, 2, 4], [1, 6], [2, 5], [3, 4], [7]]"
    by code_simp
  show ?thesis using c1 c2 u1 u2 small ex by blast
qed

theorem combination_search_subsets_up_to_four_witness:
  "(5::nat) \<le> 14
   \<and> set (getUncoverCombos (board_p (computer adv_round_23)) 5)
       = combinations_spec (covered_squares (board_p (computer adv_round_23))) 5
   \<and> getUncoverCombos (board_p (computer adv_round_23)) 5 = [[2, 3], [5]]"
proof -
  have h: "(5::nat) \<le> 14" by simp
  have v: "getUncoverCombos (board_p (computer adv_round_23)) 5 = [[2, 3], [5]]"
    by code_simp
  show ?thesis
    using combination_search_subsets_up_to_four
            [where b = "board_p (computer adv_round_23)" and t = 5] h v
    by blast
qed

text \<open>
  The claim as written lists four cover options for 7 on a fresh board of size 9 and
  denies any length cap. The search returns five options, \<open>{1,2,4}\<close> among them, and
  for the total 15 it leaves out \<open>{1,2,3,4,5}\<close>, whose squares are all uncovered.
\<close>

theorem combination_search_counterexample:
  "getCoverCombos (board_p (human fresh_round)) 7 = [[1, 2, 4], [1, 6], [2, 5], [3, 4], [7]]
   \<and> getUncoveredNumbers (board_p (human fresh_round)) = [1, 2, 3, 4, 5, 6, 7, 8, 9]
   \<and> sum_list [1, 2, 3, 4, 5 :: nat] = 15
   \<and> [1, 2, 3, 4, 5] \<notin> set (getCoverCombos (board_p (human fresh_round)) 15)"
  by code_simp

subsection \<open>The move-selection policy\<close>

lemma foldl_plus_sum_list: "foldl (\<lambda>a b. a + b) (a::nat) xs = a + sum_list xs"
  by (induction xs arbitrary: a) simp_all

lemma pick_loop_step:
  "pick_loop best (c # rest) = (if beats c best then pick_loop c rest else pick_loop best rest)"
  by (auto simp add: beats_def foldl_plus_sum_list Let_def)

lemma beats_trans: "beats a b \<Longrightarrow> beats b c \<Longrightarrow> beats a c"
  by (auto simp add: beats_def)

lemma beats_irrefl: "\<not> beats a a"
  by (simp add: beats_def)

lemma not_beats_trans: "\<not> beats a b \<Longrightarrow> \<not> beats b c \<Longrightarrow> \<not> beats a c"
  by (auto simp add: beats_def)

lemma beats_not_beats: "beats a b \<Longrightarrow> \<not> beats c b \<Longrightarrow> beats a c"
  by (auto simp add: beats_def)

lemma pick_loop_first_best:
  "(\<forall>c\<in>set (best # rest). \<not> beats c (pick_loop best rest))
   \<and> find (\<lambda>c. \<not> beats (pick_loop best rest) c) (best # rest) = Some (pick_loop best rest)"
proof (induction rest arbitrary: best)
  case Nil
  then show ?case by (simp add: beats_irrefl)
next
  case (Cons c rest)
  show ?case
  proof (cases "beats c best")
    case True
    define r where "r = pick_loop c rest"
    have r: "pick_loop best (c # rest) = r"
      using True unfolding r_def by (simp only: pick_loop_step if_True)
    have ih1: "\<forall>x\<in>set (c # rest). \<not> beats x r"
      and ih2: "find (\<lambda>x. \<not> beats r x) (c # rest) = Some r"
      using Cons.IH [of c] unfolding r_def by blast+
    have ncr: "\<not> beats c r" using ih1 by simp
    have nbr: "\<not> beats best r" using True ncr by (auto simp add: beats_def)
    have rb: "beats r best" using True ncr by (auto simp add: beats_def)
    have s1: "\<forall>x\<in>set (best # c # rest). \<not> beats x r" using ih1 nbr by simp
    have s2: "find (\<lambda>x. \<not> beats r x) (best # c # rest) = Some r"
      using rb ih2 by (subst find.simps) simp
    show ?thesis unfolding r using s1 s2 by blast
  next
    case False
    define r where "r = pick_loop best rest"
    have r: "pick_loop best (c # rest) = r"
      using False unfolding r_def by (simp only: pick_loop_step if_False)
    have ih1: "\<forall>x\<in>set (best # rest). \<not> beats x r"
      and ih2: "find (\<lambda>x. \<not> beats r x) (best # rest) = Some r"
      using Cons.IH [of best] unfolding r_def by blast+
    have nb: "\<not> beats best r" using ih1 by simp
    have nc: "\<not> beats c r" using False nb by (auto simp add: beats_def)
    have s1: "\<forall>x\<in>set (best # c # rest). \<not> beats x r" using ih1 nc by simp
    have s2: "find (\<lambda>x. \<not> beats r x) (best # c # rest) = Some r"
    proof (cases "beats r best")
      case True
      then have rc: "beats r c" using False by (auto simp add: beats_def)
      have "find (\<lambda>x. \<not> beats r x) rest = Some r"
        using ih2 True by (subst (asm) find.simps) simp
      then show ?thesis using True rc by simp
    next
      case nbr: False
      then have "r = best" using ih2 by (subst (asm) find.simps) simp
      then show ?thesis using nbr by (subst find.simps) simp
    qed
    show ?thesis unfolding r using s1 s2 by blast
  qed
qed

lemma find_Some_in_set: "find P xs = Some x \<Longrightarrow> x \<in> set xs"
  by (induction xs) (auto split: if_splits)

lemma pick_loop_equal_sums:
  assumes "\<forall>c\<in>set (best # rest). sum_list c = t"
  shows "(\<forall>c\<in>set (best # rest). length c \<le> length (pick_loop best rest))
   \<and> find (\<lambda>c. length c = length (pick_loop best rest)) (best # rest)
       = Some (pick_loop best rest)"
proof -
  define r where "r = pick_loop best rest"
  have a: "\<forall>c\<in>set (best # rest). \<not> beats c r"
    and b: "find (\<lambda>c. \<not> beats r c) (best # rest) = Some r"
    using pick_loop_first_best [of best rest] unfolding r_def by blast+
  have rin: "r \<in> set (best # rest)" using b by (rule find_Some_in_set)
  then have rs: "sum_list r = t" using assms by blast
  have len: "length c \<le> length r" if "c \<in> set (best # rest)" for c
  proof -
    have "\<not> beats c r" using a that by blast
    then show ?thesis by (simp add: beats_def)
  qed
  have eqv: "(\<not> beats r c) = (length c = length r)" if "c \<in> set (best # rest)" for c
  proof -
    have "sum_list c = t" using assms that by blast
    then show ?thesis using len [OF that] rs by (auto simp add: beats_def)
  qed
  have "find (\<lambda>c. \<not> beats r c) (best # rest)
             = find (\<lambda>c. length c = length r) (best # rest)"
    by (rule find_cong [OF refl]) (rule eqv)
  then show ?thesis unfolding r_def [symmetric] using b len by simp
qed

lemma find_Some_holds: "find P xs = Some x \<Longrightarrow> P x"
  by (induction xs) (auto split: if_splits)

lemma getCoverCombos_sum: "c \<in> set (getCoverCombos b t) \<Longrightarrow> sum_list c = t"
proof -
  assume c: "c \<in> set (getCoverCombos b t)"
  have su: "sorted_wrt (<) (getUncoveredNumbers b)"
    unfolding getUncoveredNumbers_def by (rule filter_upt_strict)
  have pu: "\<forall>x\<in>set (getUncoveredNumbers b). 1 \<le> x"
    by (auto simp add: getUncoveredNumbers_def)
  show ?thesis
    using c getCombosForSum_set [OF su pu, of t]
    by (simp add: getCoverCombos_def combinations_spec_def)
qed

lemma getUncoverCombos_sum: "c \<in> set (getUncoverCombos b t) \<Longrightarrow> sum_list c = t"
proof -
  assume c: "c \<in> set (getUncoverCombos b t)"
  have su: "sorted_wrt (<) (getCoveredNumbers b)"
    unfolding getCoveredNumbers_def by (rule filter_upt_strict)
  have pu: "\<forall>x\<in>set (getCoveredNumbers b). 1 \<le> x"
    by (auto simp add: getCoveredNumbers_def)
  show ?thesis
    using c getCombosForSum_set [OF su pu, of t]
    by (simp add: getUncoverCombos_def combinations_spec_def)
qed

lemma getCoverOptions_sum: "c \<in> set (getCoverOptions r pid t) \<Longrightarrow> sum_list c = t"
  by (simp add: getCoverOptions_def getCoverCombos_sum)

lemma getUncoverOptions_sum: "c \<in> set (getUncoverOptions r pid t) \<Longrightarrow> sum_list c = t"
  by (auto simp add: getUncoverOptions_def Let_def getUncoverCombos_sum
           split: option.splits if_splits)

lemma pickBestCombo_first_of_maximal_length:
  assumes "opts \<noteq> []" and "\<forall>c\<in>set opts. sum_list c = t"
  shows "\<exists>b. pickBestCombo opts = Some b \<and> first_of_maximal_length b opts"
proof -
  from assms(1) obtain best rest where o: "opts = best # rest" by (cases opts) auto
  have "first_of_maximal_length (pick_loop best rest) (best # rest)"
    unfolding first_of_maximal_length_def
    by (rule pick_loop_equal_sums [of best rest t]) (use assms(2) o in simp)
  then show ?thesis using o by (simp add: pickBestCombo_def)
qed

lemma ties_2:
  assumes "a1 + a2 = b1 + b2" and "search_before [a1, a2] [b1, b2]"
  shows "b2 \<le> (a2::nat)"
  using assms by auto

lemma ties_3:
  fixes a1 a2 a3 b1 b2 b3 t :: nat
  assumes "1 \<le> a1" "a1 < a2" "a2 < a3" "b1 < b2" "b2 < b3"
    and "a1 + a2 + a3 = t" "b1 + b2 + b3 = t" "t \<le> 13"
    and "search_before [a1, a2, a3] [b1, b2, b3]" and "a3 < b3"
  shows "a1 < b1 \<and> b1 < b2 \<and> b2 < a3 \<and> a1 + b1 + b2 + a3 = t"
proof -
  have lt: "a1 < b1" using assms by auto
  have b2a2: "b2 < a2" using assms lt by linarith
  have a1: "a1 = 1" using assms lt b2a2 by linarith
  have b1: "b1 = 2" using assms lt b2a2 a1 by linarith
  have b2: "b2 = 3 \<or> b2 = 4" using assms lt b2a2 a1 b1 by linarith
  have b2': "b2 = 3" using assms lt b2a2 a1 b1 b2 by linarith
  have a2: "a2 = 5" using assms lt b2a2 a1 b1 b2' by linarith
  show ?thesis using assms lt b2a2 a1 b1 b2' a2 by linarith
qed

lemma ties_4:
  fixes a1 a2 a3 a4 b1 b2 b3 b4 t :: nat
  assumes "1 \<le> a1" "a1 < a2" "a2 < a3" "a3 < a4" "b1 < b2" "b2 < b3" "b3 < b4"
    and "a1 + a2 + a3 + a4 = t" "b1 + b2 + b3 + b4 = t" "t \<le> 13"
    and "search_before [a1, a2, a3, a4] [b1, b2, b3, b4]"
  shows "b4 \<le> a4"
proof -
  consider (1) "a1 < b1" | (2) "a1 = b1" "a2 < b2" | (3) "a1 = b1" "a2 = b2" "a3 < b3"
    | (4) "a1 = b1" "a2 = b2" "a3 = b3" "a4 < b4"
    using assms(11) by auto
  then show ?thesis
  proof cases
    case 1 then show ?thesis using assms by linarith
  next
    case 2 then show ?thesis using assms by linarith
  next
    case 3 then show ?thesis using assms by linarith
  next
    case 4 then show ?thesis using assms by linarith
  qed
qed


lemma search_before_append: "search_before (p @ xs) (p @ ys) = search_before xs ys"
  by (induction p) simp_all

lemma backtrack_loop_shape:
  "x \<in> set (backtrack_loop rest rem path) \<Longrightarrow> \<exists>y ys. x = path @ y # ys \<and> y \<in> set rest"
proof (induction rest)
  case Nil
  then show ?case by simp
next
  case (Cons n rest)
  show ?case
  proof (cases "int n > rem")
    case True
    then show ?thesis using Cons.prems by simp
  next
    case False
    then consider (a) "x \<in> set (backtrack rest (rem - int n) (path @ [n]))"
      | (b) "x \<in> set (backtrack_loop rest rem path)"
      using Cons.prems by auto
    then show ?thesis
    proof cases
      case a
      from backtrack_shape(1) [OF a] obtain ys where "x = (path @ [n]) @ ys" by blast
      then have "x = path @ n # ys \<and> n \<in> set (n # rest)" by simp
      then show ?thesis by blast
    next
      case b
      from Cons.IH [OF b] obtain y ys where "x = path @ y # ys" "y \<in> set rest" by blast
      then have "x = path @ y # ys \<and> y \<in> set (n # rest)" by simp
      then show ?thesis by blast
    qed
  qed
qed

lemma backtrack_search_order:
  "sorted_wrt (<) rest \<Longrightarrow> sorted_wrt search_before (backtrack rest rem path)"
  "sorted_wrt (<) rest \<Longrightarrow> sorted_wrt search_before (backtrack_loop rest rem path)"
proof (induction rest rem path and rest rem path rule: backtrack_backtrack_loop.induct)
  case (1 rest remaining path)
  then show ?case by simp
next
  case (2 remaining path)
  then show ?case by simp
next
  case (3 n rest remaining path)
  show ?case
  proof (cases "int n > remaining")
    case True
    then show ?thesis by simp
  next
    case False
    have srt: "sorted_wrt (<) rest" and gt: "\<forall>x\<in>set rest. n < x" using "3.prems" by auto
    have s1: "sorted_wrt search_before (backtrack rest (remaining - int n) (path @ [n]))"
      using "3.IH"(1) [OF False srt] .
    have s2: "sorted_wrt search_before (backtrack_loop rest remaining path)"
      using "3.IH"(2) [OF False srt] .
    have cross: "search_before x y"
      if x: "x \<in> set (backtrack rest (remaining - int n) (path @ [n]))"
        and y: "y \<in> set (backtrack_loop rest remaining path)" for x y
    proof -
      from backtrack_shape(1) [OF x] obtain xs where xs: "x = path @ n # xs" by auto
      from backtrack_loop_shape [OF y] obtain z zs where zs: "y = path @ z # zs" "z \<in> set rest"
        by blast
      have "n < z" using zs(2) gt by blast
      then show ?thesis unfolding xs zs(1) search_before_append by simp
    qed
    have "backtrack_loop (n # rest) remaining path =
         backtrack rest (remaining - int n) (path @ [n]) @ backtrack_loop rest remaining path"
      using False by simp
    then show ?thesis using s1 s2 cross by (simp add: sorted_wrt_append)
  qed
qed

lemma getCombosForSum_search_order:
  assumes "sorted_wrt (<) cands"
  shows "sorted_wrt search_before (getCombosForSum cands target)"
proof -
  have "sorted cands" using assms by (simp add: strict_sorted_iff)
  then have "sort cands = cands" by (rule sorted_sort_id)
  moreover have "sorted_wrt search_before (backtrack cands (int target) [])"
    using assms by (rule backtrack_search_order(1))
  ultimately show ?thesis by (simp only: getCombosForSum_def)
qed

lemma find_first_sorted:
  "sorted_wrt R xs \<Longrightarrow> find P xs = Some b \<Longrightarrow> c \<in> set xs \<Longrightarrow> P c \<Longrightarrow> c = b \<or> R b c"
  by (induction xs) (auto split: if_splits)

lemma length_1: "length xs = Suc 0 \<Longrightarrow> \<exists>a. xs = [a]"
  by (cases xs) auto

lemma length_2: "length xs = 2 \<Longrightarrow> \<exists>a b. xs = [a, b]"
  by (cases xs; cases "tl xs") auto

lemma length_3: "length xs = 3 \<Longrightarrow> \<exists>a b c. xs = [a, b, c]"
  by (cases xs; cases "tl xs"; cases "tl (tl xs)") auto

lemma length_4: "length xs = 4 \<Longrightarrow> \<exists>a b c d. xs = [a, b, c, d]"
  by (cases xs; cases "tl xs"; cases "tl (tl xs)"; cases "tl (tl (tl xs))") auto

lemma earlier_tie_has_highest_square:
  fixes a b :: "nat list" and t :: nat
  assumes sa: "sorted_wrt (<) a" and sb: "sorted_wrt (<) b"
    and pa: "\<forall>x\<in>set a. 1 \<le> x" and pb: "\<forall>x\<in>set b. 1 \<le> x"
    and suma: "sum_list a = t" and sumb: "sum_list b = t" and t: "t \<le> 13"
    and len: "length a = length b" and ne: "a \<noteq> []"
    and before: "search_before a b"
    and higher: "Max (set a) < Max (set b)"
  shows "\<exists>q. sorted_wrt (<) q \<and> set q \<subseteq> set a \<union> set b \<and> sum_list q = t
             \<and> length q = length a + 1 \<and> length q \<le> 4"
proof -
  have "length a \<le> 4"
    by (rule small_sum_short [OF sa pa]) (use suma t in simp)
  moreover have "length a \<noteq> 0" using ne by simp
  ultimately consider (1) "length a = Suc 0" | (2) "length a = 2" | (3) "length a = 3"
    | (4) "length a = 4" by linarith
  then show ?thesis
  proof cases
    case 1
    then obtain x where a: "a = [x]" using length_1 by blast
    from 1 len obtain y where b: "b = [y]" using length_1 by metis
    show ?thesis using suma sumb before a b by simp
  next
    case 2
    then obtain a1 a2 where a: "a = [a1, a2]" using length_2 by blast
    from 2 len obtain b1 b2 where b: "b = [b1, b2]" using length_2 by metis
    have "a1 + a2 = b1 + b2" using suma sumb a b by simp
    then have "b2 \<le> a2" using before unfolding a b by (rule ties_2)
    moreover have "Max (set a) = a2" using sa a by (simp add: max_def)
    moreover have "Max (set b) = b2" using sb b by (simp add: max_def)
    ultimately show ?thesis using higher by simp
  next
    case 3
    then obtain a1 a2 a3 where a: "a = [a1, a2, a3]" using length_3 by blast
    from 3 len obtain b1 b2 b3 where b: "b = [b1, b2, b3]" using length_3 by metis
    have ma: "Max (set a) = a3" using sa a by (simp add: max_def)
    have mb: "Max (set b) = b3" using sb b by (simp add: max_def)
    have "a1 < b1 \<and> b1 < b2 \<and> b2 < a3 \<and> a1 + b1 + b2 + a3 = t"
    proof (rule ties_3)
      show "1 \<le> a1" using pa a by simp
      show "a1 < a2" "a2 < a3" using sa a by simp_all
      show "b1 < b2" "b2 < b3" using sb b by simp_all
      show "a1 + a2 + a3 = t" using suma a by simp
      show "b1 + b2 + b3 = t" using sumb b by simp
      show "t \<le> 13" by (rule t)
      show "search_before [a1, a2, a3] [b1, b2, b3]" using before a b by simp
      show "a3 < b3" using higher ma mb by simp
    qed
    then have "sorted_wrt (<) [a1, b1, b2, a3] \<and> set [a1, b1, b2, a3] \<subseteq> set a \<union> set b
               \<and> sum_list [a1, b1, b2, a3] = t
               \<and> length [a1, b1, b2, a3] = length a + 1 \<and> length [a1, b1, b2, a3] \<le> 4"
      using a b by auto
    then show ?thesis by blast
  next
    case 4
    then obtain a1 a2 a3 a4 where a: "a = [a1, a2, a3, a4]" using length_4 by blast
    from 4 len obtain b1 b2 b3 b4 where b: "b = [b1, b2, b3, b4]" using length_4 by metis
    have ma: "Max (set a) = a4" using sa a by (simp add: max_def)
    have mb: "Max (set b) = b4" using sb b by (simp add: max_def)
    have "b4 \<le> a4"
    proof (rule ties_4)
      show "1 \<le> a1" using pa a by simp
      show "a1 < a2" "a2 < a3" "a3 < a4" using sa a by simp_all
      show "b1 < b2" "b2 < b3" "b3 < b4" using sb b by simp_all
      show "a1 + a2 + a3 + a4 = t" using suma a by simp
      show "b1 + b2 + b3 + b4 = t" using sumb b by simp
      show "t \<le> 13" by (rule t)
      show "search_before [a1, a2, a3, a4] [b1, b2, b3, b4]" using before a b by simp
    qed
    then show ?thesis using higher ma mb by simp
  qed
qed

lemma first_of_maximal_length_spec_best:
  assumes srt: "sorted_wrt search_before opts"
    and opts: "set opts = {xs \<in> combinations_spec S t. length xs \<le> 4}"
    and pos: "\<forall>x\<in>S. 1 \<le> x" and t: "t \<le> 13"
    and first: "first_of_maximal_length b opts"
  shows "spec_best b opts"
proof -
  have fnd: "find (\<lambda>c. length c = length b) opts = Some b"
    and mx: "\<forall>c\<in>set opts. length c \<le> length b"
    using first by (simp_all add: first_of_maximal_length_def)
  have bin: "b \<in> set opts" using fnd by (rule find_Some_in_set)
  have shape: "sorted_wrt (<) c \<and> (\<forall>x\<in>set c. 1 \<le> x) \<and> sum_list c = t \<and> c \<noteq> [] \<and> set c \<subseteq> S"
    if "c \<in> set opts" for c
    using that pos unfolding opts combinations_spec_def by auto
  have tie: "Max (set c) \<le> Max (set b)" if c: "c \<in> set opts" and l: "length c = length b" for c
  proof (rule ccontr)
    assume "\<not> Max (set c) \<le> Max (set b)"
    then have higher: "Max (set b) < Max (set c)" by simp
    then have "c \<noteq> b" by auto
    then have before: "search_before b c"
      using find_first_sorted [OF srt fnd c l] by simp
    have "\<exists>q. sorted_wrt (<) q \<and> set q \<subseteq> set b \<union> set c \<and> sum_list q = t
             \<and> length q = length b + 1 \<and> length q \<le> 4"
      by (rule earlier_tie_has_highest_square)
         (use shape [OF bin] shape [OF c] t l before higher in simp_all)
    then obtain q where q: "sorted_wrt (<) q" "set q \<subseteq> set b \<union> set c" "sum_list q = t"
      "length q = length b + 1" "length q \<le> 4" by blast
    have "set q \<subseteq> S" using q(2) shape [OF bin] shape [OF c] by blast
    moreover have "q \<noteq> []" using q(4) by auto
    ultimately have "q \<in> set opts" using q unfolding opts combinations_spec_def by simp
    then have "length q \<le> length b" using mx by blast
    then show False using q(4) by simp
  qed
  show ?thesis unfolding spec_best_def
  proof (intro conjI ballI)
    show "b \<in> set opts" by (rule bin)
  next
    fix c assume c: "c \<in> set opts"
    then have "length c \<le> length b" using mx by blast
    then show "length c < length b \<or> length c = length b \<and> Max (set c) \<le> Max (set b)"
      using tie [OF c] by linarith
  qed
qed


lemma getCoverOptions_spec_best:
  assumes "t \<le> 13" and "first_of_maximal_length b (getCoverOptions r pid t)"
  shows "spec_best b (getCoverOptions r pid t)"
proof -
  let ?b = "board_p (getPlayerById r pid)"
  have su: "sorted_wrt (<) (getUncoveredNumbers ?b)"
    unfolding getUncoveredNumbers_def by (rule filter_upt_strict)
  have pu: "\<forall>x\<in>set (getUncoveredNumbers ?b). 1 \<le> x"
    by (auto simp add: getUncoveredNumbers_def)
  have srt: "sorted_wrt search_before (getCoverOptions r pid t)"
    unfolding getCoverOptions_def getCoverCombos_def
    using su by (rule getCombosForSum_search_order)
  have st: "set (getCoverOptions r pid t)
            = {xs \<in> combinations_spec (set (getUncoveredNumbers ?b)) t. length xs \<le> 4}"
    unfolding getCoverOptions_def getCoverCombos_def
    using su pu by (rule getCombosForSum_set)
  show ?thesis
    using srt st pu assms by (rule first_of_maximal_length_spec_best)
qed

lemma combinations_spec_without:
  "{xs \<in> combinations_spec S t. k \<notin> set xs} = combinations_spec (S - {k}) t"
  by (auto simp add: combinations_spec_def)

lemma getUncoverOptions_spec_best:
  assumes "t \<le> 13" and "first_of_maximal_length b (getUncoverOptions r pid t)"
  shows "spec_best b (getUncoverOptions r pid t)"
proof -
  let ?b = "board_p (getOpponent r pid)"
  let ?C = "set (getCoveredNumbers ?b)"
  have su: "sorted_wrt (<) (getCoveredNumbers ?b)"
    unfolding getCoveredNumbers_def by (rule filter_upt_strict)
  have pu: "\<forall>x\<in>?C. 1 \<le> x"
    by (auto simp add: getCoveredNumbers_def)
  have srt0: "sorted_wrt search_before (getUncoverCombos ?b t)"
    unfolding getUncoverCombos_def using su by (rule getCombosForSum_search_order)
  have st0: "set (getUncoverCombos ?b t) = {xs \<in> combinations_spec ?C t. length xs \<le> 4}"
    unfolding getUncoverCombos_def using su pu by (rule getCombosForSum_set)
  show ?thesis
  proof (cases "\<exists>l. advantageLock r = Some l \<and> \<not> unlocked l \<and> pid \<noteq> playerId l")
    case True
    then obtain l where l: "advantageLock r = Some l" "\<not> unlocked l" "pid \<noteq> playerId l"
      by blast
    let ?k = "squareNumber l"
    have eq: "getUncoverOptions r pid t
              = filter (\<lambda>combo. ?k \<notin> set combo) (getUncoverCombos ?b t)"
      using l by (simp add: getUncoverOptions_def Let_def)
    have srt: "sorted_wrt search_before (getUncoverOptions r pid t)"
      unfolding eq using srt0 by (rule sorted_wrt_filter)
    have "set (getUncoverOptions r pid t)
          = {xs \<in> {xs \<in> combinations_spec ?C t. ?k \<notin> set xs}. length xs \<le> 4}"
      unfolding eq set_filter st0 by blast
    then have st: "set (getUncoverOptions r pid t)
          = {xs \<in> combinations_spec (?C - {?k}) t. length xs \<le> 4}"
      by (simp only: combinations_spec_without)
    have pos: "\<forall>x\<in>?C - {?k}. 1 \<le> x" using pu by blast
    show ?thesis using srt st pos assms by (rule first_of_maximal_length_spec_best)
  next
    case False
    then have eq: "getUncoverOptions r pid t = getUncoverCombos ?b t"
      by (auto simp add: getUncoverOptions_def Let_def split: option.splits)
    show ?thesis
      using srt0 st0 pu assms unfolding eq by (rule first_of_maximal_length_spec_best)
  qed
qed

text \<open>
  Claim C6. \<open>decideMove\<close> returns no move exactly when both option lists are empty;
  a cover combination as long as the actor's list of uncovered squares when there is
  one; failing that, an uncover combination as long as the opponent's list of covered
  squares when there is one; failing both, a cover move when there is any cover option
  and an uncover move otherwise. The combination chosen in the last two cases has
  maximal length. The loop breaks ties of equal length by the larger sum (lemma
  \<open>pick_loop_first_best\<close>); as every option sums to the dice total, it keeps the first
  combination of maximal length in search order. For every total up to 13, hence for
  every total of one or two dice, that combination has the highest square among the
  combinations of maximal length: the choice maximizes the number of squares and, among
  equally long combinations, the highest square.
\<close>

theorem decideMove_policy:
  assumes co: "co = getCoverOptions r pid t"
    and uo: "uo = getUncoverOptions r pid t"
    and d: "d = decideMove r pid t"
    and su: "selfUncovered = getUncoveredNumbers (board_p (getPlayerById r pid))"
    and oc: "oppCovered = getCoveredNumbers (board_p (getOpponent r pid))"
  shows "(action_d d = act_none \<longleftrightarrow> co = [] \<and> uo = [])
    \<and> ((\<exists>c\<in>set co. length c = length selfUncovered) \<longrightarrow>
          action_d d = act_cover
          \<and> (\<exists>c. squares d = Some c \<and> c \<in> set co \<and> length c = length selfUncovered))
    \<and> (\<not> (\<exists>c\<in>set co. length c = length selfUncovered)
         \<and> (\<exists>u\<in>set uo. length u = length oppCovered) \<longrightarrow>
          action_d d = act_uncover
          \<and> (\<exists>u. squares d = Some u \<and> u \<in> set uo \<and> length u = length oppCovered))
    \<and> (\<not> (\<exists>c\<in>set co. length c = length selfUncovered)
         \<and> \<not> (\<exists>u\<in>set uo. length u = length oppCovered) \<and> co \<noteq> [] \<longrightarrow>
          action_d d = act_cover
          \<and> (\<exists>b. squares d = Some b \<and> first_of_maximal_length b co
                  \<and> (t \<le> 13 \<longrightarrow> spec_best b co)))
    \<and> (\<not> (\<exists>u\<in>set uo. length u = length oppCovered) \<and> co = [] \<and> uo \<noteq> [] \<longrightarrow>
          action_d d = act_uncover
          \<and> (\<exists>b. squares d = Some b \<and> first_of_maximal_length b uo
                  \<and> (t \<le> 13 \<longrightarrow> spec_best b uo)))
    \<and> (\<forall>c\<in>set co \<union> set uo. sum_list c = t)"
proof -
  have sums_co: "\<forall>c\<in>set co. sum_list c = t" using co getCoverOptions_sum by blast
  have sums_uo: "\<forall>c\<in>set uo. sum_list c = t" using uo getUncoverOptions_sum by blast
  have best_co: "t \<le> 13 \<longrightarrow> spec_best b co" if "first_of_maximal_length b co" for b
    using that getCoverOptions_spec_best unfolding co by blast
  have best_uo: "t \<le> 13 \<longrightarrow> spec_best b uo" if "first_of_maximal_length b uo" for b
    using that getUncoverOptions_spec_best unfolding uo by blast
  show ?thesis
  proof (cases "co = [] \<and> uo = []")
    case True
    then have "d = \<lparr>action_d = act_none, squares = Some [], reason_d = NoValidMoves,
            allCoverOptions = [], allUncoverOptions = []\<rparr>"
      using d co uo by (simp add: decideMove_def Let_def)
    then show ?thesis using True by simp
  next
    case ne: False
    show ?thesis
    proof (cases "find (\<lambda>combo. length combo = length selfUncovered) co")
      case (Some c)
      then have dv: "d = \<lparr>action_d = act_cover, squares = Some c, reason_d = CoversAllAndWins,
                    allCoverOptions = co, allUncoverOptions = uo\<rparr>"
        using d ne by (simp add: decideMove_def Let_def co [symmetric] uo [symmetric]
                                 su [symmetric] oc [symmetric])
      have cin: "c \<in> set co" using Some by (rule find_Some_in_set)
      have cl: "length c = length selfUncovered" using Some by (rule find_Some_holds)
      show ?thesis using dv cin cl sums_co sums_uo ne by auto
    next
      case nc: None
      then have nowin_c: "\<not> (\<exists>c\<in>set co. length c = length selfUncovered)"
        by (simp add: find_None_iff)
      show ?thesis
      proof (cases "find (\<lambda>combo. length combo = length oppCovered) uo")
        case (Some u)
        then have dv: "d = \<lparr>action_d = act_uncover, squares = Some u,
                         reason_d = UncoversAllAndWins,
                         allCoverOptions = co, allUncoverOptions = uo\<rparr>"
          using d ne nc by (simp add: decideMove_def Let_def co [symmetric] uo [symmetric]
                                 su [symmetric] oc [symmetric])
        have uin: "u \<in> set uo" using Some by (rule find_Some_in_set)
        have ul: "length u = length oppCovered" using Some by (rule find_Some_holds)
        show ?thesis using dv uin ul nowin_c sums_co sums_uo ne by auto
      next
        case nu: None
        then have nowin_u: "\<not> (\<exists>u\<in>set uo. length u = length oppCovered)"
          by (simp add: find_None_iff)
        show ?thesis
        proof (cases "co = []")
          case False
          then have dv: "d = \<lparr>action_d = act_cover, squares = pickBestCombo co,
                           reason_d = CoverMostProgress,
                           allCoverOptions = co, allUncoverOptions = uo\<rparr>"
            using d ne nc nu by (simp add: decideMove_def Let_def co [symmetric] uo [symmetric]
                                 su [symmetric] oc [symmetric])
          obtain b where b: "pickBestCombo co = Some b" "first_of_maximal_length b co"
            using pickBestCombo_first_of_maximal_length [OF False sums_co] by blast
          have "squares d = Some b \<and> first_of_maximal_length b co
                \<and> (t \<le> 13 \<longrightarrow> spec_best b co)"
            using dv b best_co [OF b(2)] by simp
          then have ex: "\<exists>b. squares d = Some b \<and> first_of_maximal_length b co
                \<and> (t \<le> 13 \<longrightarrow> spec_best b co)" by blast
          have act: "action_d d = act_cover" using dv by simp
          show ?thesis using act ex False nowin_c nowin_u sums_co sums_uo by auto
        next
          case True
          then have une: "uo \<noteq> []" using ne by simp
          have dv: "d = \<lparr>action_d = act_uncover, squares = pickBestCombo uo,
                           reason_d = UncoverStrongest,
                           allCoverOptions = co, allUncoverOptions = uo\<rparr>"
            using d ne nc nu True by (simp add: decideMove_def Let_def co [symmetric]
                                 uo [symmetric] su [symmetric] oc [symmetric])
          obtain b where b: "pickBestCombo uo = Some b" "first_of_maximal_length b uo"
            using pickBestCombo_first_of_maximal_length [OF une sums_uo] by blast
          have "squares d = Some b \<and> first_of_maximal_length b uo
                \<and> (t \<le> 13 \<longrightarrow> spec_best b uo)"
            using dv b best_uo [OF b(2)] by simp
          then have ex: "\<exists>b. squares d = Some b \<and> first_of_maximal_length b uo
                \<and> (t \<le> 13 \<longrightarrow> spec_best b uo)" by blast
          have act: "action_d d = act_uncover" using dv by simp
          show ?thesis using act ex True une nowin_c nowin_u sums_co sums_uo by auto
        qed
      qed
    qed
  qed
qed

theorem decideMove_policy_witness:
  "getCoverOptions adv_round_23 HUMAN 5 = [[1, 4], [2, 3], [5]]
   \<and> getUncoverOptions adv_round_23 HUMAN 5 = [[2, 3]]
   \<and> action_d (decideMove adv_round_23 HUMAN 5) = act_cover
   \<and> squares (decideMove adv_round_23 HUMAN 5) = Some [1, 4]
   \<and> spec_best [1, 4] [[1, 4], [2, 3], [5]]"
proof -
  have co: "getCoverOptions adv_round_23 HUMAN 5 = [[1, 4], [2, 3], [5]]" by code_simp
  have uo: "getUncoverOptions adv_round_23 HUMAN 5 = [[2, 3]]" by code_simp
  have su: "getUncoveredNumbers (board_p (getPlayerById adv_round_23 HUMAN))
            = [1, 2, 3, 4, 5, 6, 7, 8, 9]" by code_simp
  have oc: "getCoveredNumbers (board_p (getOpponent adv_round_23 HUMAN)) = [2, 3, 5]"
    by code_simp
  note p = decideMove_policy [OF co [symmetric] uo [symmetric] refl su [symmetric]
                                 oc [symmetric]]
  have "action_d (decideMove adv_round_23 HUMAN 5) = act_cover
        \<and> (\<exists>b. squares (decideMove adv_round_23 HUMAN 5) = Some b
                \<and> first_of_maximal_length b [[1, 4], [2, 3], [5]]
                \<and> ((5::nat) \<le> 13 \<longrightarrow> spec_best b [[1, 4], [2, 3], [5]]))"
    using p by simp
  then obtain b where a: "action_d (decideMove adv_round_23 HUMAN 5) = act_cover"
    and s: "squares (decideMove adv_round_23 HUMAN 5) = Some b"
    and f: "first_of_maximal_length b [[1, 4], [2, 3], [5]]"
    and sb: "spec_best b [[1, 4], [2, 3], [5]]" by auto
  have "b = [1, 4]" using f by (auto simp add: first_of_maximal_length_def split: if_splits)
  then show ?thesis using co uo a s sb by simp
qed


text \<open>
  The bound 13 on the total cannot be raised. With squares 1, 2, 3, 6, 7, 9 uncovered
  and the total 14, which no one or two dice give, the policy keeps \<open>[1, 6, 7]\<close>,
  whose highest square is 7, over \<open>[2, 3, 9]\<close>.
\<close>

lemma highest_square_total_14:
  "getCoverOptions tie_round HUMAN 14 = [[1, 6, 7], [2, 3, 9]]
   \<and> getUncoverOptions tie_round HUMAN 14 = []
   \<and> action_d (decideMove tie_round HUMAN 14) = act_cover
   \<and> squares (decideMove tie_round HUMAN 14) = Some [1, 6, 7]
   \<and> Max (set [1, 6, 7 :: nat]) = 7 \<and> Max (set [2, 3, 9 :: nat]) = 9"
proof -
  have "getCoverOptions tie_round HUMAN 14 = [[1, 6, 7], [2, 3, 9]]" by code_simp
  moreover have "getUncoverOptions tie_round HUMAN 14 = []" by code_simp
  moreover have "action_d (decideMove tie_round HUMAN 14) = act_cover" by code_simp
  moreover have "squares (decideMove tie_round HUMAN 14) = Some [1, 6, 7]" by code_simp
  ultimately show ?thesis by simp
qed

subsection \<open>Applying a move\<close>

lemma cover_ok:
  assumes "board_ok b" and "cover n b = (None, b')"
  shows "board_ok b' \<and> size_b b' = size_b b \<and> validSquareNumber b n \<and> \<not> cov b n
         \<and> (\<forall>i. cov b' i = (cov b i \<or> i = n))"
proof -
  have v: "validSquareNumber b n" and nc: "\<not> cov b n"
    and b': "b' = b\<lparr>covered := (covered b)[n := True]\<rparr>"
    using assms(2) by (auto simp add: cover_def split: if_splits)
  have "n < length (covered b)" using v assms(1) by (simp add: validSquareNumber_def board_ok_def)
  then have "\<forall>i. cov b' i = (cov b i \<or> i = n)"
    unfolding b' by (auto simp add: cov_def nth_list_update)
  then show ?thesis using v nc assms(1) b' by (simp add: board_ok_def)
qed

lemma uncover_ok:
  assumes "board_ok b" and "uncover n b = (None, b')"
  shows "board_ok b' \<and> size_b b' = size_b b \<and> validSquareNumber b n \<and> cov b n
         \<and> (\<forall>i. cov b' i = (cov b i \<and> i \<noteq> n))"
proof -
  have v: "validSquareNumber b n" and nc: "cov b n"
    and b': "b' = b\<lparr>covered := (covered b)[n := False]\<rparr>"
    using assms(2) by (auto simp add: uncover_def split: if_splits)
  have "n < length (covered b)" using v assms(1) by (simp add: validSquareNumber_def board_ok_def)
  then have "\<forall>i. cov b' i = (cov b i \<and> i \<noteq> n)"
    unfolding b' by (auto simp add: cov_def nth_list_update)
  then show ?thesis using v nc assms(1) b' by (simp add: board_ok_def)
qed

lemma cover_error_unchanged: "cover n b = (Some e, b') \<Longrightarrow> b' = b"
  by (auto simp add: cover_def split: if_splits)

lemma uncover_error_unchanged: "uncover n b = (Some e, b') \<Longrightarrow> b' = b"
  by (auto simp add: uncover_def split: if_splits)

lemma coverSquares_success:
  assumes "board_ok b" and "coverSquares ns b = (None, b')"
  shows "board_ok b' \<and> size_b b' = size_b b \<and> distinct ns
         \<and> (\<forall>n\<in>set ns. validSquareNumber b n \<and> \<not> cov b n)
         \<and> (\<forall>i. cov b' i = (cov b i \<or> i \<in> set ns))"
  using assms
proof (induction ns arbitrary: b)
  case Nil
  then show ?case by simp
next
  case (Cons n ns)
  from Cons.prems(2) obtain b1 where c: "cover n b = (None, b1)"
    and rest: "coverSquares ns b1 = (None, b')"
    by (auto split: prod.splits option.splits)
  note one = cover_ok [OF Cons.prems(1) c]
  have ok1: "board_ok b1" using one by blast
  note ih = Cons.IH [OF ok1 rest]
  have v: "\<And>m. validSquareNumber b1 m = validSquareNumber b m"
    using one by (simp add: validSquareNumber_def)
  have "n \<notin> set ns"
  proof
    assume "n \<in> set ns"
    then have "\<not> cov b1 n" using ih by blast
    then show False using one by blast
  qed
  moreover have "\<forall>m\<in>set ns. validSquareNumber b m \<and> \<not> cov b m"
    using ih one v by blast
  moreover have "\<forall>i. cov b' i = (cov b i \<or> i \<in> set (n # ns))"
    using ih one by auto
  ultimately show ?case using ih one by auto
qed

lemma uncoverSquares_success:
  assumes "board_ok b" and "uncoverSquares ns b = (None, b')"
  shows "board_ok b' \<and> size_b b' = size_b b \<and> distinct ns
         \<and> (\<forall>n\<in>set ns. validSquareNumber b n \<and> cov b n)
         \<and> (\<forall>i. cov b' i = (cov b i \<and> i \<notin> set ns))"
  using assms
proof (induction ns arbitrary: b)
  case Nil
  then show ?case by simp
next
  case (Cons n ns)
  from Cons.prems(2) obtain b1 where c: "uncover n b = (None, b1)"
    and rest: "uncoverSquares ns b1 = (None, b')"
    by (auto split: prod.splits option.splits)
  note one = uncover_ok [OF Cons.prems(1) c]
  have ok1: "board_ok b1" using one by blast
  note ih = Cons.IH [OF ok1 rest]
  have v: "\<And>m. validSquareNumber b1 m = validSquareNumber b m"
    using one by (simp add: validSquareNumber_def)
  have "n \<notin> set ns"
  proof
    assume "n \<in> set ns"
    then have "cov b1 n" using ih by blast
    then show False using one by blast
  qed
  moreover have "\<forall>m\<in>set ns. validSquareNumber b m \<and> cov b m"
    using ih one v by blast
  moreover have "\<forall>i. cov b' i = (cov b i \<and> i \<notin> set (n # ns))"
    using ih one by auto
  ultimately show ?case using ih one by auto
qed

lemma coverSquares_failure:
  "coverSquares ns b = (Some e, b') \<Longrightarrow>
     \<exists>pre x post. ns = pre @ x # post \<and> coverSquares pre b = (None, b')
                  \<and> cover x b' = (Some e, b')"
proof (induction ns arbitrary: b)
  case Nil
  then show ?case by simp
next
  case (Cons n ns)
  show ?case
  proof (cases "cover n b")
    case (Pair r b1)
    show ?thesis
    proof (cases r)
      case None
      then have rest: "coverSquares ns b1 = (Some e, b')" using Cons.prems Pair by simp
      from Cons.IH [OF rest] obtain pre x post where
        "ns = pre @ x # post" "coverSquares pre b1 = (None, b')" "cover x b' = (Some e, b')"
        by blast
      then have "n # ns = (n # pre) @ x # post \<and> coverSquares (n # pre) b = (None, b')
                 \<and> cover x b' = (Some e, b')"
        using Pair None by simp
      then show ?thesis by blast
    next
      case (Some e1)
      then have "e1 = e" "b1 = b'" using Cons.prems Pair by simp_all
      moreover have "b1 = b" using Pair Some cover_error_unchanged by blast
      ultimately have "n # ns = [] @ n # ns \<and> coverSquares [] b = (None, b')
                       \<and> cover n b' = (Some e, b')"
        using Pair Some by simp
      then show ?thesis by blast
    qed
  qed
qed

lemma uncoverSquares_failure:
  "uncoverSquares ns b = (Some e, b') \<Longrightarrow>
     \<exists>pre x post. ns = pre @ x # post \<and> uncoverSquares pre b = (None, b')
                  \<and> uncover x b' = (Some e, b')"
proof (induction ns arbitrary: b)
  case Nil
  then show ?case by simp
next
  case (Cons n ns)
  show ?case
  proof (cases "uncover n b")
    case (Pair r b1)
    show ?thesis
    proof (cases r)
      case None
      then have rest: "uncoverSquares ns b1 = (Some e, b')" using Cons.prems Pair by simp
      from Cons.IH [OF rest] obtain pre x post where
        "ns = pre @ x # post" "uncoverSquares pre b1 = (None, b')"
        "uncover x b' = (Some e, b')"
        by blast
      then have "n # ns = (n # pre) @ x # post \<and> uncoverSquares (n # pre) b = (None, b')
                 \<and> uncover x b' = (Some e, b')"
        using Pair None by simp
      then show ?thesis by blast
    next
      case (Some e1)
      then have "e1 = e" "b1 = b'" using Cons.prems Pair by simp_all
      moreover have "b1 = b" using Pair Some uncover_error_unchanged by blast
      ultimately have "n # ns = [] @ n # ns \<and> uncoverSquares [] b = (None, b')
                       \<and> uncover n b' = (Some e, b')"
        using Pair Some by simp
      then show ?thesis by blast
    qed
  qed
qed

lemma coverSquares_valid_succeeds:
  "board_ok b \<Longrightarrow> distinct ns \<Longrightarrow> \<forall>n\<in>set ns. validSquareNumber b n \<and> \<not> cov b n \<Longrightarrow>
     fst (coverSquares ns b) = None"
proof (induction ns arbitrary: b)
  case Nil
  then show ?case by simp
next
  case (Cons n ns)
  have c: "cover n b = (None, b\<lparr>covered := (covered b)[n := True]\<rparr>)"
    using Cons.prems(3) by (simp add: cover_def)
  note one = cover_ok [OF Cons.prems(1) c]
  have "\<forall>m\<in>set ns. validSquareNumber (b\<lparr>covered := (covered b)[n := True]\<rparr>) m
                    \<and> \<not> cov (b\<lparr>covered := (covered b)[n := True]\<rparr>) m"
    using one Cons.prems(2,3) by (auto simp add: validSquareNumber_def)
  moreover have "distinct ns" using Cons.prems(2) by simp
  moreover have "board_ok (b\<lparr>covered := (covered b)[n := True]\<rparr>)" using one by blast
  ultimately have "fst (coverSquares ns (b\<lparr>covered := (covered b)[n := True]\<rparr>)) = None"
    using Cons.IH by blast
  then show ?case using c by simp
qed

lemma uncoverSquares_valid_succeeds:
  "board_ok b \<Longrightarrow> distinct ns \<Longrightarrow> \<forall>n\<in>set ns. validSquareNumber b n \<and> cov b n \<Longrightarrow>
     fst (uncoverSquares ns b) = None"
proof (induction ns arbitrary: b)
  case Nil
  then show ?case by simp
next
  case (Cons n ns)
  have c: "uncover n b = (None, b\<lparr>covered := (covered b)[n := False]\<rparr>)"
    using Cons.prems(3) by (simp add: uncover_def)
  note one = uncover_ok [OF Cons.prems(1) c]
  have "\<forall>m\<in>set ns. validSquareNumber (b\<lparr>covered := (covered b)[n := False]\<rparr>) m
                    \<and> cov (b\<lparr>covered := (covered b)[n := False]\<rparr>) m"
    using one Cons.prems(2,3) by (auto simp add: validSquareNumber_def)
  moreover have "distinct ns" using Cons.prems(2) by simp
  moreover have "board_ok (b\<lparr>covered := (covered b)[n := False]\<rparr>)" using one by blast
  ultimately have "fst (uncoverSquares ns (b\<lparr>covered := (covered b)[n := False]\<rparr>)) = None"
    using Cons.IH by blast
  then show ?case using c by simp
qed

text \<open>
  Claim C7, as the code has it. \<open>coverSquares\<close> succeeds exactly on a list of distinct,
  in-range, uncovered squares, and then covers all of them and nothing else. On any other
  list it raises at the first offending square: the squares before it have been covered
  and stay covered, the board is otherwise as it was. \<open>uncoverSquares\<close> behaves
  alike on covered squares. When \<open>applyCoverMove\<close> or \<open>applyUncoverMove\<close> raises,
  the round differs from the round before the call in that target board only: scores,
  flags and the result of the round are untouched.
\<close>

theorem move_application_stops_at_first_invalid_square:
  assumes ok: "board_ok b"
  shows
   "(fst (coverSquares ns b) = None \<longleftrightarrow>
       distinct ns \<and> (\<forall>n\<in>set ns. validSquareNumber b n \<and> \<not> cov b n))
    \<and> (fst (coverSquares ns b) = None \<longrightarrow>
         (\<forall>i. cov (snd (coverSquares ns b)) i = (cov b i \<or> i \<in> set ns)))
    \<and> (\<forall>e. fst (coverSquares ns b) = Some e \<longrightarrow>
         (\<exists>pre x post. ns = pre @ x # post
            \<and> coverSquares pre b = (None, snd (coverSquares ns b))
            \<and> fst (cover x (snd (coverSquares ns b))) = Some e))
    \<and> (fst (uncoverSquares ns b) = None \<longleftrightarrow>
         distinct ns \<and> (\<forall>n\<in>set ns. validSquareNumber b n \<and> cov b n))
    \<and> (fst (uncoverSquares ns b) = None \<longrightarrow>
         (\<forall>i. cov (snd (uncoverSquares ns b)) i = (cov b i \<and> i \<notin> set ns)))
    \<and> (\<forall>e. fst (uncoverSquares ns b) = Some e \<longrightarrow>
         (\<exists>pre x post. ns = pre @ x # post
            \<and> uncoverSquares pre b = (None, snd (uncoverSquares ns b))
            \<and> fst (uncover x (snd (uncoverSquares ns b))) = Some e))
    \<and> (fst (applyCoverMove pid ns r) \<noteq> None \<longrightarrow>
         snd (applyCoverMove pid ns r)
           = set_board pid (snd (coverSquares ns (board_p (getPlayerById r pid)))) r)
    \<and> (fst (applyUncoverMove pid ns r) \<noteq> None \<longrightarrow>
         snd (applyUncoverMove pid ns r)
           = set_board (getOpponentId pid)
               (snd (uncoverSquares ns (board_p (getOpponent r pid)))) r)"
proof -
  obtain ec bc where c: "coverSquares ns b = (ec, bc)" by (cases "coverSquares ns b")
  obtain eu bu where u: "uncoverSquares ns b = (eu, bu)" by (cases "uncoverSquares ns b")
  have c1: "fst (coverSquares ns b) = None \<longleftrightarrow>
       distinct ns \<and> (\<forall>n\<in>set ns. validSquareNumber b n \<and> \<not> cov b n)"
  proof
    assume "fst (coverSquares ns b) = None"
    then have "coverSquares ns b = (None, bc)" using c by simp
    from coverSquares_success [OF ok this]
    show "distinct ns \<and> (\<forall>n\<in>set ns. validSquareNumber b n \<and> \<not> cov b n)" by blast
  next
    assume "distinct ns \<and> (\<forall>n\<in>set ns. validSquareNumber b n \<and> \<not> cov b n)"
    then show "fst (coverSquares ns b) = None"
      using coverSquares_valid_succeeds [OF ok] by blast
  qed
  have c2: "fst (coverSquares ns b) = None \<longrightarrow>
         (\<forall>i. cov (snd (coverSquares ns b)) i = (cov b i \<or> i \<in> set ns))"
  proof
    assume "fst (coverSquares ns b) = None"
    then have "coverSquares ns b = (None, bc)" using c by simp
    from coverSquares_success [OF ok this]
    show "\<forall>i. cov (snd (coverSquares ns b)) i = (cov b i \<or> i \<in> set ns)"
      using c by simp
  qed
  have c3: "\<forall>e. fst (coverSquares ns b) = Some e \<longrightarrow>
         (\<exists>pre x post. ns = pre @ x # post
            \<and> coverSquares pre b = (None, snd (coverSquares ns b))
            \<and> fst (cover x (snd (coverSquares ns b))) = Some e)"
  proof (intro allI impI)
    fix e assume "fst (coverSquares ns b) = Some e"
    then have "coverSquares ns b = (Some e, bc)" using c by simp
    from coverSquares_failure [OF this] obtain pre x post where
      "ns = pre @ x # post" "coverSquares pre b = (None, bc)" "cover x bc = (Some e, bc)"
      by blast
    then have "ns = pre @ x # post \<and> coverSquares pre b = (None, snd (coverSquares ns b))
            \<and> fst (cover x (snd (coverSquares ns b))) = Some e"
      using c by simp
    then show "\<exists>pre x post. ns = pre @ x # post
            \<and> coverSquares pre b = (None, snd (coverSquares ns b))
            \<and> fst (cover x (snd (coverSquares ns b))) = Some e" by blast
  qed
  have u1: "fst (uncoverSquares ns b) = None \<longleftrightarrow>
         distinct ns \<and> (\<forall>n\<in>set ns. validSquareNumber b n \<and> cov b n)"
  proof
    assume "fst (uncoverSquares ns b) = None"
    then have "uncoverSquares ns b = (None, bu)" using u by simp
    from uncoverSquares_success [OF ok this]
    show "distinct ns \<and> (\<forall>n\<in>set ns. validSquareNumber b n \<and> cov b n)" by blast
  next
    assume "distinct ns \<and> (\<forall>n\<in>set ns. validSquareNumber b n \<and> cov b n)"
    then show "fst (uncoverSquares ns b) = None"
      using uncoverSquares_valid_succeeds [OF ok] by blast
  qed
  have u2: "fst (uncoverSquares ns b) = None \<longrightarrow>
         (\<forall>i. cov (snd (uncoverSquares ns b)) i = (cov b i \<and> i \<notin> set ns))"
  proof
    assume "fst (uncoverSquares ns b) = None"
    then have "uncoverSquares ns b = (None, bu)" using u by simp
    from uncoverSquares_success [OF ok this]
    show "\<forall>i. cov (snd (uncoverSquares ns b)) i = (cov b i \<and> i \<notin> set ns)"
      using u by simp
  qed
  have u3: "\<forall>e. fst (uncoverSquares ns b) = Some e \<longrightarrow>
         (\<exists>pre x post. ns = pre @ x # post
            \<and> uncoverSquares pre b = (None, snd (uncoverSquares ns b))
            \<and> fst (uncover x (snd (uncoverSquares ns b))) = Some e)"
  proof (intro allI impI)
    fix e assume "fst (uncoverSquares ns b) = Some e"
    then have "uncoverSquares ns b = (Some e, bu)" using u by simp
    from uncoverSquares_failure [OF this] obtain pre x post where
      "ns = pre @ x # post" "uncoverSquares pre b = (None, bu)"
      "uncover x bu = (Some e, bu)"
      by blast
    then have "ns = pre @ x # post \<and> uncoverSquares pre b = (None, snd (uncoverSquares ns b))
            \<and> fst (uncover x (snd (uncoverSquares ns b))) = Some e"
      using u by simp
    then show "\<exists>pre x post. ns = pre @ x # post
            \<and> uncoverSquares pre b = (None, snd (uncoverSquares ns b))
            \<and> fst (uncover x (snd (uncoverSquares ns b))) = Some e" by blast
  qed
  have r1: "fst (applyCoverMove pid ns r) \<noteq> None \<longrightarrow>
         snd (applyCoverMove pid ns r)
           = set_board pid (snd (coverSquares ns (board_p (getPlayerById r pid)))) r"
    by (auto simp add: applyCoverMove_def Let_def split: prod.splits option.splits)
  have r2: "fst (applyUncoverMove pid ns r) \<noteq> None \<longrightarrow>
         snd (applyUncoverMove pid ns r)
           = set_board (getOpponentId pid)
               (snd (uncoverSquares ns (board_p (getOpponent r pid)))) r"
    by (auto simp add: applyUncoverMove_def Let_def split: prod.splits option.splits)
  show ?thesis using c1 c2 c3 u1 u2 u3 r1 r2 by blast
qed

theorem move_application_stops_at_first_invalid_square_witness:
  "board_ok (board_p (computer adv_round))
   \<and> fst (coverSquares [1, 2] (board_p (computer adv_round))) = None
   \<and> getCoveredNumbers (snd (coverSquares [1, 2] (board_p (computer adv_round)))) = [1, 2, 5]
   \<and> fst (applyCoverMove COMPUTER [1, 5] adv_round) = Some (AlreadyCovered 5)
   \<and> snd (applyCoverMove COMPUTER [1, 5] adv_round)
       = set_board COMPUTER (snd (coverSquares [1, 5] (board_p (computer adv_round)))) adv_round"
proof -
  have ok: "board_ok (board_p (computer adv_round))" by code_simp
  have v: "distinct [1, 2 :: nat]
           \<and> (\<forall>n\<in>set [1, 2]. validSquareNumber (board_p (computer adv_round)) n
                                \<and> \<not> cov (board_p (computer adv_round)) n)"
    by code_simp
  have g: "getCoveredNumbers (snd (coverSquares [1, 2] (board_p (computer adv_round))))
           = [1, 2, 5]" by code_simp
  have f: "fst (applyCoverMove COMPUTER [1, 5] adv_round) = Some (AlreadyCovered 5)"
    by code_simp
  have p: "getPlayerById adv_round COMPUTER = computer adv_round"
    by (simp add: getPlayerById_def)
  show ?thesis
    using move_application_stops_at_first_invalid_square
            [OF ok, where ns = "[1, 2]" and pid = COMPUTER and r = adv_round]
          move_application_stops_at_first_invalid_square
            [OF ok, where ns = "[1, 5]" and pid = COMPUTER and r = adv_round]
          ok v g f p
    by simp
qed

text \<open>
  The claim as written has a rejected call leave every square as it was. With square 5
  covered, covering \<open>[1, 5]\<close> or \<open>[1, 10]\<close> raises and leaves square 1 covered;
  uncovering \<open>[5, 1]\<close> raises and leaves square 5 uncovered.
\<close>

theorem move_application_not_atomic_counterexample:
  "getCoveredNumbers (board_p (computer adv_round)) = [5]
   \<and> fst (coverSquares [1, 5] (board_p (computer adv_round))) = Some (AlreadyCovered 5)
   \<and> getCoveredNumbers (snd (coverSquares [1, 5] (board_p (computer adv_round)))) = [1, 5]
   \<and> fst (coverSquares [1, 10] (board_p (computer adv_round))) = Some (SquareOutOfRange 10)
   \<and> getCoveredNumbers (snd (coverSquares [1, 10] (board_p (computer adv_round)))) = [1, 5]
   \<and> fst (uncoverSquares [5, 1] (board_p (computer adv_round))) = Some (AlreadyUncovered 1)
   \<and> getCoveredNumbers (snd (uncoverSquares [5, 1] (board_p (computer adv_round)))) = []
   \<and> fst (applyCoverMove COMPUTER [1, 5] adv_round) = Some (AlreadyCovered 5)
   \<and> getCoveredNumbers (board_p (computer (snd (applyCoverMove COMPUTER [1, 5] adv_round))))
       = [1, 5]"
  by code_simp

subsection \<open>The end of a round\<close>

lemma new_Board_fresh:
  "new_Board n = Inr b \<Longrightarrow> board_ok b \<and> size_b b = n \<and> 1 \<le> n \<and> (\<forall>i. \<not> cov b i)"
  by (auto simp add: new_Board_def board_ok_def cov_def nth_Cons' split: if_splits)

lemma getUncoveredNumbers_nonempty:
  "1 \<le> i \<Longrightarrow> i \<le> size_b b \<Longrightarrow> \<not> cov b i \<Longrightarrow> getUncoveredNumbers b \<noteq> []"
proof -
  assume "1 \<le> i" "i \<le> size_b b" "\<not> cov b i"
  then have "i \<in> set (getUncoveredNumbers b)"
    unfolding getUncoveredNumbers_def set_filter set_upt by simp
  then show ?thesis by auto
qed

lemma getCoveredNumbers_empty_iff:
  "getCoveredNumbers b = [] \<longleftrightarrow> (\<forall>i. 1 \<le> i \<and> i \<le> size_b b \<longrightarrow> \<not> cov b i)"
  unfolding getCoveredNumbers_def filter_empty_conv set_upt by auto

lemma at_most_one_covered_not_all:
  assumes "2 \<le> size_b b" and "\<forall>i j. cov b i \<and> cov b j \<longrightarrow> i = j"
  shows "\<not> areAllCovered b"
proof -
  have "\<not> cov b 1 \<or> \<not> cov b 2" using assms(2) by fastforce
  then have "getUncoveredNumbers b \<noteq> []"
    using assms(1) getUncoveredNumbers_nonempty [of 1 b] getUncoveredNumbers_nonempty [of 2 b]
    by auto
  then show ?thesis by (simp add: areAllCovered_def)
qed

lemma applyAdvantageIfAny_shape:
  assumes "applyAdvantageIfAny r = (None, r1)"
    and "board_ok (board_p (human r))" and "board_ok (board_p (computer r))"
    and "\<forall>i. \<not> cov (board_p (human r)) i" and "\<forall>i. \<not> cov (board_p (computer r)) i"
  shows "at_most_one (board_p (human r1)) \<and> at_most_one (board_p (computer r1))
         \<and> size_b (board_p (human r1)) = size_b (board_p (human r))
         \<and> size_b (board_p (computer r1)) = size_b (board_p (computer r))
         \<and> id_p (human r1) = id_p (human r) \<and> id_p (computer r1) = id_p (computer r)
         \<and> roundOver r1 = roundOver r"
proof (cases "advantageInfo r")
  case None
  then have "r1 = r" using assms(1) by (simp add: applyAdvantageIfAny_def)
  then show ?thesis using assms(4,5) by (simp add: at_most_one_def)
next
  case (Some a)
  show ?thesis
  proof (cases "digitSum_i a < 1 \<or> digitSum_i a > boardSize r")
    case True
    then have "r1 = r" using assms(1) Some by (simp add: applyAdvantageIfAny_def Let_def)
    then show ?thesis using assms(4,5) by (simp add: at_most_one_def)
  next
    case False
    let ?b = "board_p (getPlayerById r (playerId_i a))"
    obtain e b' where c: "coverSquares [digitSum_i a] ?b = (e, b')"
      by (cases "coverSquares [digitSum_i a] ?b")
    have e: "e = None" using assms(1) Some False c
      by (cases e) (simp_all add: applyAdvantageIfAny_def Let_def)
    have r1: "r1 = (set_board (playerId_i a) b' r)
                     \<lparr>advantageLock :=
                        Some \<lparr>playerId = playerId_i a, squareNumber = digitSum_i a,
                              unlocked = False\<rparr>\<rparr>"
      using assms(1) Some False c e by (simp add: applyAdvantageIfAny_def Let_def)
    have ok: "board_ok ?b" and fresh: "\<forall>i. \<not> cov ?b i"
      using assms(2,3,4,5) by (cases "playerId_i a"; simp add: getPlayerById_def)+
    from coverSquares_success [OF ok c [unfolded e]]
    have sz: "size_b b' = size_b ?b" and cv: "\<forall>i. cov b' i = (cov ?b i \<or> i \<in> set [digitSum_i a])"
      by blast+
    have one: "at_most_one b'" using cv fresh by (simp add: at_most_one_def)
    show ?thesis
      using r1 one sz assms(4,5)
      by (cases "playerId_i a") (simp_all add: set_board_def getPlayerById_def at_most_one_def)
  qed
qed

lemma new_GameRound_shape:
  assumes "new_GameRound bs hp cp fp adv = Inr r"
  shows "at_most_one (board_p (human r)) \<and> at_most_one (board_p (computer r))
         \<and> size_b (board_p (human r)) = bs \<and> size_b (board_p (computer r)) = bs
         \<and> id_p (human r) = id_p hp \<and> id_p (computer r) = id_p cp
         \<and> \<not> roundOver r
         \<and> humanEverCovered r = (getCoveredNumbers (board_p (human r)) \<noteq> [])
         \<and> computerEverCovered r = (getCoveredNumbers (board_p (computer r)) \<noteq> [])"
proof -
  from assms have bs: "\<not> bs < 1" by (auto simp add: new_GameRound_def split: if_splits)
  then obtain b0 where b0: "new_Board bs = Inr b0" by (auto simp add: new_Board_def)
  note fresh = new_Board_fresh [OF b0]
  let ?r0 = "\<lparr>boardSize = bs,
                        human = hp\<lparr>board_p := b0\<rparr>,
                        computer = cp\<lparr>board_p := b0\<rparr>,
                        firstPlayerId = fp, currentPlayerId = fp,
                        advantageInfo = adv, advantageLock = None,
                        roundOver = False, roundWinnerId = None, winType = None,
                        roundScore = 0,
                        humanEverCovered = False, computerEverCovered = False\<rparr>"
  obtain e r1 where a: "applyAdvantageIfAny ?r0 = (e, r1)"
    by (cases "applyAdvantageIfAny ?r0")
  have e: "e = None" using assms bs b0 a by (cases e) (simp_all add: new_GameRound_def Let_def)
  have r: "r = r1\<lparr>humanEverCovered :=
                                 length (getCoveredNumbers (board_p (human r1))) > 0,
                               computerEverCovered :=
                                 length (getCoveredNumbers (board_p (computer r1))) > 0\<rparr>"
    using assms bs b0 a e by (simp add: new_GameRound_def Let_def)
  have "at_most_one (board_p (human r1)) \<and> at_most_one (board_p (computer r1))
         \<and> size_b (board_p (human r1)) = size_b (board_p (human ?r0))
         \<and> size_b (board_p (computer r1)) = size_b (board_p (computer ?r0))
         \<and> id_p (human r1) = id_p (human ?r0) \<and> id_p (computer r1) = id_p (computer ?r0)
         \<and> roundOver r1 = roundOver ?r0"
    by (rule applyAdvantageIfAny_shape [OF a [unfolded e]]) (use fresh in simp_all)
  then show ?thesis using r fresh by simp
qed

lemma checkForRoundEnd_no_condition:
  "\<not> round_end_condition r \<Longrightarrow> checkForRoundEnd r = r"
  by (auto simp add: checkForRoundEnd_def round_end_condition_def Let_def)

lemma set_player_roundOver: "roundOver (set_player i p r) = roundOver r"
  by (cases i) (simp_all add: set_player_def)

lemma checkForRoundEnd_condition:
  "round_end_condition r \<Longrightarrow> roundOver (checkForRoundEnd r)"
  by (auto simp add: checkForRoundEnd_def round_end_condition_def Let_def set_player_roundOver)

lemma checkForRoundEnd_cover_first:
  "areAllCovered (board_p (human r)) \<Longrightarrow>
     roundWinnerId (checkForRoundEnd r) = Some HUMAN \<and> winType (checkForRoundEnd r) = Some cover_win"
  by (simp add: checkForRoundEnd_def Let_def set_player_def)

lemma fresh_round_no_condition:
  assumes "new_GameRound bs hp cp fp adv = Inr r" and "2 \<le> bs"
    and "id_p hp = HUMAN" and "id_p cp = COMPUTER"
  shows "\<not> round_end_condition r"
proof -
  note sh = new_GameRound_shape [OF assms(1)]
  have h: "\<not> areAllCovered (board_p (human r))"
    using sh assms(2) at_most_one_covered_not_all [of "board_p (human r)"]
    by (simp add: at_most_one_def)
  have c: "\<not> areAllCovered (board_p (computer r))"
    using sh assms(2) at_most_one_covered_not_all [of "board_p (computer r)"]
    by (simp add: at_most_one_def)
  have hh: "hadAnyCovered r (human r) = (getCoveredNumbers (board_p (human r)) \<noteq> [])"
    using sh assms(3) by (simp add: hadAnyCovered_def)
  have hc: "hadAnyCovered r (computer r) = (getCoveredNumbers (board_p (computer r)) \<noteq> [])"
    using sh assms(4) by (simp add: hadAnyCovered_def)
  show ?thesis using h c hh hc by (simp add: round_end_condition_def)
qed

lemma checkForRoundEnd_verdict:
  "(roundWinnerId (checkForRoundEnd r), winType (checkForRoundEnd r)) =
     (if areAllCovered (board_p (human r)) then (Some HUMAN, Some cover_win)
      else if areAllCovered (board_p (computer r)) then (Some COMPUTER, Some cover_win)
      else if getCoveredNumbers (board_p (computer r)) = [] \<and> hadAnyCovered r (computer r)
        then (Some HUMAN, Some uncover_win)
      else if getCoveredNumbers (board_p (human r)) = [] \<and> hadAnyCovered r (human r)
        then (Some COMPUTER, Some uncover_win)
      else (roundWinnerId r, winType r))"
  by (simp add: checkForRoundEnd_def Let_def set_player_def)

lemma checkForRoundEnd_boards:
  "board_p (human (checkForRoundEnd r)) = board_p (human r)
   \<and> board_p (computer (checkForRoundEnd r)) = board_p (computer r)"
  by (simp add: checkForRoundEnd_def Let_def set_player_def addToScore_def getPlayerById_def)

lemma checkForRoundEnd_cover_win:
  assumes "areAllCovered (board_p (getPlayerById r p))"
    and "\<not> areAllCovered (board_p (getOpponent r p))"
  shows "roundOver (checkForRoundEnd r) \<and> roundWinnerId (checkForRoundEnd r) = Some p
         \<and> winType (checkForRoundEnd r) = Some cover_win"
  using assms
  by (cases p)
     (simp_all add: checkForRoundEnd_def Let_def set_player_def getPlayerById_def
                    getOpponent_def getOpponentId_def)

lemma applyCoverMove_whole_board_wins:
  assumes "applyCoverMove p sq r = (None, r')"
    and "areAllCovered (board_p (getPlayerById r' p))"
    and "\<not> areAllCovered (board_p (getOpponent r' p))"
  shows "roundOver r' \<and> roundWinnerId r' = Some p \<and> winType r' = Some cover_win"
proof -
  obtain e b' where c: "coverSquares sq (board_p (getPlayerById r p)) = (e, b')"
    by (cases "coverSquares sq (board_p (getPlayerById r p))")
  have e: "e = None" using assms(1) c by (cases e) (simp_all add: applyCoverMove_def)
  define r3 where "r3 =
     (let r1 = set_board p b' r;
          r2 = (if p = HUMAN then r1\<lparr>humanEverCovered := True\<rparr> else r1)
      in (if p = COMPUTER then r2\<lparr>computerEverCovered := True\<rparr> else r2))"
  have r': "r' = checkForRoundEnd r3"
    using assms(1) c e by (simp add: applyCoverMove_def r3_def Let_def)
  have b: "board_p (human r') = board_p (human r3)" "board_p (computer r') = board_p (computer r3)"
    unfolding r' using checkForRoundEnd_boards by blast+
  have "areAllCovered (board_p (getPlayerById r3 p))"
    using assms(2) b by (cases p) (simp_all add: getPlayerById_def)
  moreover have "\<not> areAllCovered (board_p (getOpponent r3 p))"
    using assms(3) b by (cases p) (simp_all add: getPlayerById_def getOpponent_def getOpponentId_def)
  ultimately show ?thesis unfolding r' by (rule checkForRoundEnd_cover_win)
qed

text \<open>
  Claim C2, as the code has it. \<open>_checkForRoundEnd\<close> ends the round exactly when a
  board is fully covered, or a board has no covered square and has had one during the
  round; it never looks at who has played. The winner and the kind of win are those of
  the first of the four tests that holds, in the order of the source. In particular a
  player whose board is fully covered while the opponent's is not has a cover win, be it
  HUMAN or COMPUTER, and so has a player whose cover move leaves the boards that way,
  whether or not the opponent has had a turn. A freshly constructed round of size at
  least 2 is not over and the check leaves it alone, with or without a carried
  advantage. The server backend's \<open>isGameOver\<close> declares no winner while either
  player's \<open>hasFirstTurnBeenPlayed\<close> is unset.
\<close>

theorem round_end_check_looks_at_boards_only:
  "(round_end_condition r \<longrightarrow> roundOver (checkForRoundEnd r))
   \<and> (\<not> round_end_condition r \<longrightarrow> checkForRoundEnd r = r)
   \<and> (roundWinnerId (checkForRoundEnd r), winType (checkForRoundEnd r)) =
       (if areAllCovered (board_p (human r)) then (Some HUMAN, Some cover_win)
        else if areAllCovered (board_p (computer r)) then (Some COMPUTER, Some cover_win)
        else if getCoveredNumbers (board_p (computer r)) = [] \<and> hadAnyCovered r (computer r)
          then (Some HUMAN, Some uncover_win)
        else if getCoveredNumbers (board_p (human r)) = [] \<and> hadAnyCovered r (human r)
          then (Some COMPUTER, Some uncover_win)
        else (roundWinnerId r, winType r))
   \<and> (areAllCovered (board_p (human r)) \<longrightarrow>
         roundWinnerId (checkForRoundEnd r) = Some HUMAN
         \<and> winType (checkForRoundEnd r) = Some cover_win)
   \<and> (areAllCovered (board_p (getPlayerById r p))
        \<and> \<not> areAllCovered (board_p (getOpponent r p)) \<longrightarrow>
         roundOver (checkForRoundEnd r) \<and> roundWinnerId (checkForRoundEnd r) = Some p
         \<and> winType (checkForRoundEnd r) = Some cover_win)
   \<and> (applyCoverMove p sq r = (None, r') \<and> areAllCovered (board_p (getPlayerById r' p))
        \<and> \<not> areAllCovered (board_p (getOpponent r' p)) \<longrightarrow>
         roundOver r' \<and> roundWinnerId r' = Some p \<and> winType r' = Some cover_win)
   \<and> (new_GameRound bs hp cp fp adv = Inr r0 \<and> 2 \<le> bs
        \<and> id_p hp = HUMAN \<and> id_p cp = COMPUTER \<longrightarrow>
         \<not> roundOver r0 \<and> checkForRoundEnd r0 = r0)
   \<and> (\<not> hasFirstTurnBeenPlayed (player1 g) \<or> \<not> hasFirstTurnBeenPlayed (player2 g) \<longrightarrow>
         isGameOver g = (None, g))"
proof -
  have js: "\<not> hasFirstTurnBeenPlayed (player1 g) \<or> \<not> hasFirstTurnBeenPlayed (player2 g) \<longrightarrow>
         isGameOver g = (None, g)"
    by (simp add: isGameOver_def Let_def)
  have fresh: "new_GameRound bs hp cp fp adv = Inr r0 \<and> 2 \<le> bs
        \<and> id_p hp = HUMAN \<and> id_p cp = COMPUTER \<longrightarrow>
         \<not> roundOver r0 \<and> checkForRoundEnd r0 = r0"
  proof
    assume a: "new_GameRound bs hp cp fp adv = Inr r0 \<and> 2 \<le> bs
        \<and> id_p hp = HUMAN \<and> id_p cp = COMPUTER"
    then have "\<not> round_end_condition r0" using fresh_round_no_condition by blast
    then have "checkForRoundEnd r0 = r0" by (rule checkForRoundEnd_no_condition)
    moreover have "\<not> roundOver r0" using a new_GameRound_shape by blast
    ultimately show "\<not> roundOver r0 \<and> checkForRoundEnd r0 = r0" by simp
  qed
  have c1: "round_end_condition r \<longrightarrow> roundOver (checkForRoundEnd r)"
    using checkForRoundEnd_condition by blast
  have c2: "\<not> round_end_condition r \<longrightarrow> checkForRoundEnd r = r"
    using checkForRoundEnd_no_condition by blast
  have c4: "areAllCovered (board_p (human r)) \<longrightarrow>
         roundWinnerId (checkForRoundEnd r) = Some HUMAN
         \<and> winType (checkForRoundEnd r) = Some cover_win"
    using checkForRoundEnd_cover_first by blast
  have c5: "areAllCovered (board_p (getPlayerById r p))
        \<and> \<not> areAllCovered (board_p (getOpponent r p)) \<longrightarrow>
         roundOver (checkForRoundEnd r) \<and> roundWinnerId (checkForRoundEnd r) = Some p
         \<and> winType (checkForRoundEnd r) = Some cover_win"
    using checkForRoundEnd_cover_win by blast
  have c6: "applyCoverMove p sq r = (None, r') \<and> areAllCovered (board_p (getPlayerById r' p))
        \<and> \<not> areAllCovered (board_p (getOpponent r' p)) \<longrightarrow>
         roundOver r' \<and> roundWinnerId r' = Some p \<and> winType r' = Some cover_win"
    using applyCoverMove_whole_board_wins by blast
  show ?thesis
    using c1 c2 checkForRoundEnd_verdict [of r] c4 c5 c6 fresh js
    by (simp only: simp_thms)
qed

theorem round_end_check_looks_at_boards_only_witness:
  "new_GameRound 9 (new_Player HUMAN) (new_Player COMPUTER) HUMAN
     (Some \<lparr>playerId_i = COMPUTER, digitSum_i = 5\<rparr>) = Inr adv_round
   \<and> \<not> roundOver adv_round \<and> checkForRoundEnd adv_round = adv_round
   \<and> round_end_condition
        (set_board COMPUTER (snd (uncoverSquares [5] (board_p (computer adv_round)))) adv_round)
   \<and> roundOver (checkForRoundEnd
        (set_board COMPUTER (snd (uncoverSquares [5] (board_p (computer adv_round))))
           adv_round))
   \<and> applyCoverMove COMPUTER [9] computer_first_turn = (None, computer_first_turn_win)
   \<and> firstPlayerId computer_first_turn_win = COMPUTER
   \<and> currentPlayerId computer_first_turn_win = COMPUTER
   \<and> getCoveredNumbers (board_p (human computer_first_turn_win)) = []
   \<and> roundOver computer_first_turn_win
   \<and> roundWinnerId computer_first_turn_win = Some COMPUTER
   \<and> winType computer_first_turn_win = Some cover_win
   \<and> isGameOver fresh_js_game = (None, fresh_js_game)"
proof -
  have j: "\<not> hasFirstTurnBeenPlayed (player1 fresh_js_game)" by code_simp
  have jg: "isGameOver fresh_js_game = (None, fresh_js_game)"
    using round_end_check_looks_at_boards_only [where g = fresh_js_game] j by blast
  let ?w = "set_board COMPUTER (snd (uncoverSquares [5] (board_p (computer adv_round))))
              adv_round"
  have c: "new_GameRound 9 (new_Player HUMAN) (new_Player COMPUTER) HUMAN
             (Some \<lparr>playerId_i = COMPUTER, digitSum_i = 5\<rparr>) = Inr adv_round"
    by code_simp
  have ids: "id_p (new_Player HUMAN) = HUMAN \<and> id_p (new_Player COMPUTER) = COMPUTER"
    by (simp add: new_Player_def)
  have w: "round_end_condition ?w" by code_simp
  have fresh: "\<not> roundOver adv_round \<and> checkForRoundEnd adv_round = adv_round"
    using round_end_check_looks_at_boards_only
            [where r = adv_round and ?r0.0 = adv_round and bs = 9
               and hp = "new_Player HUMAN" and cp = "new_Player COMPUTER" and fp = HUMAN
               and adv = "Some \<lparr>playerId_i = COMPUTER, digitSum_i = 5\<rparr>"] c ids
    by simp
  have over: "roundOver (checkForRoundEnd ?w)"
    using round_end_check_looks_at_boards_only [where r = ?w] w by blast
  have m: "applyCoverMove COMPUTER [9] computer_first_turn = (None, computer_first_turn_win)"
    by code_simp
  have a1: "areAllCovered (board_p (getPlayerById computer_first_turn_win COMPUTER))"
    by code_simp
  have a2: "\<not> areAllCovered (board_p (getOpponent computer_first_turn_win COMPUTER))"
    by code_simp
  have win: "roundOver computer_first_turn_win
             \<and> roundWinnerId computer_first_turn_win = Some COMPUTER
             \<and> winType computer_first_turn_win = Some cover_win"
    using round_end_check_looks_at_boards_only
            [where p = COMPUTER and sq = "[9]" and r = computer_first_turn
               and r' = computer_first_turn_win] m a1 a2
    by blast
  have f: "firstPlayerId computer_first_turn_win = COMPUTER" by code_simp
  have cp: "currentPlayerId computer_first_turn_win = COMPUTER" by code_simp
  have h: "getCoveredNumbers (board_p (human computer_first_turn_win)) = []" by code_simp
  show ?thesis using c fresh w over m f cp h win jg by simp
qed

text \<open>
  The claim as written has no winner declared before both players have completed a
  turn. In the session \<open>first_turn_win\<close> HUMAN covers all nine squares in the first
  turn of the round: the round is over with HUMAN the winner, COMPUTER has not had the
  turn, and no turn has ended.
\<close>

theorem round_end_in_first_turn_counterexample:
  "phase first_turn_win = ''roundOver''
   \<and> map_option roundOver (currentRound_s first_turn_win) = Some True
   \<and> map_option roundWinnerId (currentRound_s first_turn_win) = Some (Some HUMAN)
   \<and> map_option winType (currentRound_s first_turn_win) = Some (Some cover_win)
   \<and> map_option roundScore (currentRound_s first_turn_win) = Some 45
   \<and> map_option firstPlayerId (currentRound_s first_turn_win) = Some HUMAN
   \<and> map_option currentPlayerId (currentRound_s first_turn_win) = Some HUMAN
   \<and> map (currentPlayerId_sn \<circ> snapshot_h) (history first_turn_win)
       = [HUMAN, HUMAN, HUMAN, HUMAN, HUMAN, HUMAN]
   \<and> map (map_option action_la \<circ> lastAction_h) (history first_turn_win)
       = [None, Some act_cover, Some act_cover, Some act_cover, Some act_cover,
          Some act_cover]"
  by code_simp

subsection \<open>History and rewind\<close>

lemma valid_entries_nth:
  "valid_entries i arr \<Longrightarrow> j < length arr \<Longrightarrow> arr ! j = 0 \<or> arr ! j = i + j + 1"
proof (induction arr arbitrary: i j)
  case Nil
  then show ?case by simp
next
  case (Cons v arr)
  show ?case
  proof (cases j)
    case 0
    then show ?thesis using Cons.prems by simp
  next
    case (Suc j')
    then have "arr ! j' = 0 \<or> arr ! j' = (i + 1) + j' + 1"
      using Cons.IH [of "i + 1" j'] Cons.prems by simp
    then show ?thesis using Suc by simp
  qed
qed

lemma load_loop_ok:
  "board_ok b \<Longrightarrow> i + length arr \<le> size_b b \<Longrightarrow> valid_entries i arr \<Longrightarrow>
     \<exists>b'. load_loop i (map int arr) b = (None, b') \<and> board_ok b' \<and> size_b b' = size_b b
          \<and> (\<forall>k. cov b' k = (if i < k \<and> k \<le> i + length arr then arr ! (k - i - 1) = 0
                              else cov b k))"
proof (induction arr arbitrary: i b)
  case Nil
  then show ?case by auto
next
  case (Cons v arr)
  let ?b1 = "b\<lparr>covered := (covered b)[i + 1 := (v = 0)]\<rparr>"
  have inr: "i + 1 < length (covered b)" using Cons.prems(1,2) by (simp add: board_ok_def)
  have v: "v = 0 \<or> v = i + 1" and rest: "valid_entries (i + 1) arr" using Cons.prems(3) by auto
  have step: "load_loop i (map int (v # arr)) b = load_loop (i + 1) (map int arr) ?b1"
    using v by (auto simp add: Let_def)
  have ok1: "board_ok ?b1" using Cons.prems(1) by (simp add: board_ok_def)
  have le1: "(i + 1) + length arr \<le> size_b ?b1" using Cons.prems(2) by simp
  from Cons.IH [OF ok1 le1 rest] obtain b' where
    l: "load_loop (i + 1) (map int arr) ?b1 = (None, b')" and ok': "board_ok b'"
    and sz: "size_b b' = size_b ?b1"
    and cv: "\<forall>k. cov b' k = (if i + 1 < k \<and> k \<le> (i + 1) + length arr
                              then arr ! (k - (i + 1) - 1) = 0 else cov ?b1 k)"
    by blast
  have c1: "\<And>k. cov ?b1 k = (if k = i + 1 then v = 0 else cov b k)"
    using inr by (auto simp add: cov_def nth_list_update)
  have "\<forall>k. cov b' k = (if i < k \<and> k \<le> i + length (v # arr)
                          then (v # arr) ! (k - i - 1) = 0 else cov b k)"
  proof
    fix k
    show "cov b' k = (if i < k \<and> k \<le> i + length (v # arr)
                          then (v # arr) ! (k - i - 1) = 0 else cov b k)"
    proof -
      have cvk: "cov b' k = (if i + 1 < k \<and> k \<le> (i + 1) + length arr
                              then arr ! (k - (i + 1) - 1) = 0 else cov ?b1 k)"
        using cv by blast
      consider (eq) "k = i + 1" | (inside) "i + 1 < k \<and> k \<le> (i + 1) + length arr"
        | (outside) "k \<noteq> i + 1 \<and> \<not> (i + 1 < k \<and> k \<le> (i + 1) + length arr)"
        by blast
      then show ?thesis
      proof cases
        case eq
        then have "cov b' k = (v = 0)" using cvk c1 [of k] by simp
        moreover have "(v # arr) ! (k - i - 1) = v" using eq by simp
        moreover have "i < k \<and> k \<le> i + length (v # arr)" using eq by simp
        ultimately show ?thesis by auto
      next
        case inside
        then have "cov b' k = (arr ! (k - (i + 1) - 1) = 0)" using cvk by auto
        moreover have "k - i - 1 = Suc (k - (i + 1) - 1)" using inside by linarith
        then have "(v # arr) ! (k - i - 1) = arr ! (k - (i + 1) - 1)" by simp
        moreover have "i < k \<and> k \<le> i + length (v # arr)" using inside by simp
        ultimately show ?thesis by auto
      next
        case outside
        then have "cov b' k = cov ?b1 k" using cvk by auto
        also have "\<dots> = cov b k" using outside c1 [of k] by simp
        finally have "cov b' k = cov b k" .
        moreover have "\<not> (i < k \<and> k \<le> i + length (v # arr))" using outside by auto
        ultimately show ?thesis by auto
      qed
    qed
  qed
  then show ?case using step l ok' sz by simp
qed

lemma loadFromNumberArrayFormat_ok:
  assumes "board_ok b" and "length arr = size_b b" and "valid_entries 0 arr"
  shows "\<exists>b'. loadFromNumberArrayFormat (map int arr) b = (None, b') \<and> board_ok b'
          \<and> size_b b' = size_b b \<and> toNumberArrayFormat b' = arr"
proof -
  have le: "0 + length arr \<le> size_b b" using assms(2) by simp
  from load_loop_ok [OF assms(1) le assms(3)] obtain b' where
    l: "load_loop 0 (map int arr) b = (None, b')" and ok': "board_ok b'"
    and sz: "size_b b' = size_b b"
    and cv: "\<forall>k. cov b' k = (if 0 < k \<and> k \<le> 0 + length arr then arr ! (k - 0 - 1) = 0
                              else cov b k)"
    by blast
  have "toNumberArrayFormat b' = arr"
  proof (rule nth_equalityI)
    show "length (toNumberArrayFormat b') = length arr"
      using sz assms(2) by (simp add: toNumberArrayFormat_def del: upt_Suc)
  next
    fix j assume "j < length (toNumberArrayFormat b')"
    then have j: "j < length arr"
      using sz assms(2) by (simp add: toNumberArrayFormat_def del: upt_Suc)
    then have nth: "[1 ..< size_b b' + 1] ! j = j + 1"
      using sz assms(2) by (simp del: upt_Suc)
    have "cov b' (j + 1) = (arr ! j = 0)" using cv j by simp
    moreover have "arr ! j = 0 \<or> arr ! j = j + 1"
      using valid_entries_nth [OF assms(3) j] by simp
    ultimately show "toNumberArrayFormat b' ! j = arr ! j"
      using j sz assms(2) nth by (auto simp add: toNumberArrayFormat_def simp del: upt_Suc)
  qed
  then show ?thesis using l ok' sz assms(2) by (simp add: loadFromNumberArrayFormat_def)
qed

lemma toNumberArrayFormat_valid:
  "length (toNumberArrayFormat b) = size_b b \<and> valid_entries 0 (toNumberArrayFormat b)"
proof -
  have "valid_entries i (map (\<lambda>k. if cov b k then 0 else k) [i + 1 ..< i + 1 + n])" for i n
  proof (induction n arbitrary: i)
    case 0
    then show ?case by simp
  next
    case (Suc n)
    have "[i + 1 ..< i + 1 + Suc n] = (i + 1) # [(i + 1) + 1 ..< (i + 1) + 1 + n]"
      by (simp add: upt_conv_Cons)
    then show ?case using Suc [of "i + 1"] by simp
  qed
  from this [of 0 "size_b b"] show ?thesis
    by (simp add: toNumberArrayFormat_def del: upt_Suc)
qed

lemma applyAdvantageIfAny_ok:
  assumes "board_ok (board_p (human r))" and "board_ok (board_p (computer r))"
    and "\<forall>i. \<not> cov (board_p (human r)) i" and "\<forall>i. \<not> cov (board_p (computer r)) i"
    and "size_b (board_p (human r)) = boardSize r"
    and "size_b (board_p (computer r)) = boardSize r"
  shows "\<exists>hb cb l. applyAdvantageIfAny r =
            (None, r\<lparr>human := (human r)\<lparr>board_p := hb\<rparr>,
                     computer := (computer r)\<lparr>board_p := cb\<rparr>, advantageLock := l\<rparr>)
          \<and> board_ok hb \<and> board_ok cb \<and> size_b hb = boardSize r \<and> size_b cb = boardSize r"
proof (cases "advantageInfo r")
  case None
  then have "applyAdvantageIfAny r =
            (None, r\<lparr>human := (human r)\<lparr>board_p := board_p (human r)\<rparr>,
                     computer := (computer r)\<lparr>board_p := board_p (computer r)\<rparr>,
                     advantageLock := advantageLock r\<rparr>)"
    by (simp add: applyAdvantageIfAny_def)
  then show ?thesis using assms by blast
next
  case (Some a)
  show ?thesis
  proof (cases "digitSum_i a < 1 \<or> digitSum_i a > boardSize r")
    case True
    then have "applyAdvantageIfAny r =
            (None, r\<lparr>human := (human r)\<lparr>board_p := board_p (human r)\<rparr>,
                     computer := (computer r)\<lparr>board_p := board_p (computer r)\<rparr>,
                     advantageLock := advantageLock r\<rparr>)"
      using Some by (simp add: applyAdvantageIfAny_def Let_def)
    then show ?thesis using assms by blast
  next
    case False
    let ?k = "digitSum_i a"
    let ?b = "board_p (getPlayerById r (playerId_i a))"
    have ok: "board_ok ?b" and fresh: "\<forall>i. \<not> cov ?b i" and sz: "size_b ?b = boardSize r"
      using assms by (cases "playerId_i a"; simp add: getPlayerById_def)+
    have valid: "validSquareNumber ?b ?k" using False sz by (simp add: validSquareNumber_def)
    let ?b' = "?b\<lparr>covered := (covered ?b)[?k := True]\<rparr>"
    have c: "coverSquares [?k] ?b = (None, ?b')"
      using valid fresh by (simp add: cover_def)
    have ok': "board_ok ?b'" and sz': "size_b ?b' = boardSize r"
      using ok sz by (simp_all add: board_ok_def)
    let ?l = "Some \<lparr>playerId = playerId_i a, squareNumber = ?k, unlocked = False\<rparr>"
    have res: "applyAdvantageIfAny r = (None, (set_board (playerId_i a) ?b' r)\<lparr>advantageLock := ?l\<rparr>)"
      using Some False c by (simp add: applyAdvantageIfAny_def Let_def)
    show ?thesis
    proof (cases "playerId_i a")
      case HUMAN
      then have "applyAdvantageIfAny r =
            (None, r\<lparr>human := (human r)\<lparr>board_p := ?b'\<rparr>,
                     computer := (computer r)\<lparr>board_p := board_p (computer r)\<rparr>,
                     advantageLock := ?l\<rparr>)"
        using res by (simp add: set_board_def)
      then show ?thesis using ok' sz' assms by blast
    next
      case COMPUTER
      then have "applyAdvantageIfAny r =
            (None, r\<lparr>human := (human r)\<lparr>board_p := board_p (human r)\<rparr>,
                     computer := (computer r)\<lparr>board_p := ?b'\<rparr>,
                     advantageLock := ?l\<rparr>)"
        using res by (simp add: set_board_def)
      then show ?thesis using ok' sz' assms by blast
    qed
  qed
qed

lemma new_GameRound_ok:
  assumes "1 \<le> bs"
  shows "\<exists>hb cb l he ce. new_GameRound bs hp cp fp adv =
            Inr \<lparr>boardSize = bs,
                 human = hp\<lparr>board_p := hb\<rparr>, computer = cp\<lparr>board_p := cb\<rparr>,
                 firstPlayerId = fp, currentPlayerId = fp,
                 advantageInfo = adv, advantageLock = l,
                 roundOver = False, roundWinnerId = None, winType = None, roundScore = 0,
                 humanEverCovered = he, computerEverCovered = ce\<rparr>
          \<and> board_ok hb \<and> board_ok cb \<and> size_b hb = bs \<and> size_b cb = bs"
proof -
  obtain b0 where b0: "new_Board bs = Inr b0" using assms by (auto simp add: new_Board_def)
  note fresh = new_Board_fresh [OF b0]
  let ?r0 = "\<lparr>boardSize = bs,
                        human = hp\<lparr>board_p := b0\<rparr>,
                        computer = cp\<lparr>board_p := b0\<rparr>,
                        firstPlayerId = fp, currentPlayerId = fp,
                        advantageInfo = adv, advantageLock = None,
                        roundOver = False, roundWinnerId = None, winType = None,
                        roundScore = 0,
                        humanEverCovered = False, computerEverCovered = False\<rparr>"
  have "\<exists>hb cb l. applyAdvantageIfAny ?r0 =
            (None, ?r0\<lparr>human := (human ?r0)\<lparr>board_p := hb\<rparr>,
                     computer := (computer ?r0)\<lparr>board_p := cb\<rparr>, advantageLock := l\<rparr>)
          \<and> board_ok hb \<and> board_ok cb \<and> size_b hb = boardSize ?r0 \<and> size_b cb = boardSize ?r0"
    by (rule applyAdvantageIfAny_ok) (use fresh in simp_all)
  then obtain hb cb l where a: "applyAdvantageIfAny ?r0 =
            (None, ?r0\<lparr>human := (human ?r0)\<lparr>board_p := hb\<rparr>,
                     computer := (computer ?r0)\<lparr>board_p := cb\<rparr>, advantageLock := l\<rparr>)"
    and oks: "board_ok hb" "board_ok cb" "size_b hb = bs" "size_b cb = bs"
    by auto
  have "new_GameRound bs hp cp fp adv =
            Inr \<lparr>boardSize = bs,
                 human = hp\<lparr>board_p := hb\<rparr>, computer = cp\<lparr>board_p := cb\<rparr>,
                 firstPlayerId = fp, currentPlayerId = fp,
                 advantageInfo = adv, advantageLock = l,
                 roundOver = False, roundWinnerId = None, winType = None, roundScore = 0,
                 humanEverCovered = length (getCoveredNumbers hb) > 0,
                 computerEverCovered = length (getCoveredNumbers cb) > 0\<rparr>"
    using assms b0 a by (simp add: new_GameRound_def Let_def)
  then show ?thesis using oks by blast
qed

lemma restoreSnapshot_history: "history (snd (restoreSnapshot snap s)) = history s"
  by (auto simp add: restoreSnapshot_def Let_def put_round_def
           split: sum.splits prod.splits option.splits)

lemma restoreSnapshot_ok:
  assumes ok: "snapshot_ok snap"
  shows "fst (restoreSnapshot snap s) = None
         \<and> captureSnapshot la (snd (restoreSnapshot snap s)) = Some (snap\<lparr>lastAction_sn := la\<rparr>)
         \<and> phase (snd (restoreSnapshot snap s)) = phase_sn snap
         \<and> currentDice (snd (restoreSnapshot snap s)) = currentDice_sn snap"
proof -
  let ?rs = "round_sn snap" and ?ts = "tournament_sn snap"
  let ?hp = "(new_Player HUMAN)\<lparr>totalScore := humanScore_ts ?ts\<rparr>"
  let ?cp = "(new_Player COMPUTER)\<lparr>totalScore := computerScore_ts ?ts\<rparr>"
  have bs: "1 \<le> boardSize_rs ?rs"
    and hl: "length (humanBoard_rs ?rs) = boardSize_rs ?rs"
    and hv: "valid_entries 0 (humanBoard_rs ?rs)"
    and cl: "length (computerBoard_rs ?rs) = boardSize_rs ?rs"
    and cv: "valid_entries 0 (computerBoard_rs ?rs)"
    and hs: "humanScore_ts ?ts = humanScore_rs ?rs"
    and cs: "computerScore_ts ?ts = computerScore_rs ?rs"
    using ok by (simp_all add: snapshot_ok_def Let_def)
  from new_GameRound_ok [OF bs, of ?hp ?cp "firstPlayerId_rs ?rs" "advantageInfo_rs ?rs"]
  obtain hb cb l he ce where
    r0: "new_GameRound (boardSize_rs ?rs) ?hp ?cp (firstPlayerId_rs ?rs) (advantageInfo_rs ?rs) =
            Inr \<lparr>boardSize = boardSize_rs ?rs,
                 human = ?hp\<lparr>board_p := hb\<rparr>, computer = ?cp\<lparr>board_p := cb\<rparr>,
                 firstPlayerId = firstPlayerId_rs ?rs, currentPlayerId = firstPlayerId_rs ?rs,
                 advantageInfo = advantageInfo_rs ?rs, advantageLock = l,
                 roundOver = False, roundWinnerId = None, winType = None, roundScore = 0,
                 humanEverCovered = he, computerEverCovered = ce\<rparr>"
    and okh: "board_ok hb" and okc: "board_ok cb"
    and szh: "size_b hb = boardSize_rs ?rs" and szc: "size_b cb = boardSize_rs ?rs"
    by blast
  from loadFromNumberArrayFormat_ok [OF okh _ hv] hl szh
  obtain hb' where lh: "loadFromNumberArrayFormat (map int (humanBoard_rs ?rs)) hb = (None, hb')"
    and th: "toNumberArrayFormat hb' = humanBoard_rs ?rs" by auto
  from loadFromNumberArrayFormat_ok [OF okc _ cv] cl szc
  obtain cb' where lc: "loadFromNumberArrayFormat (map int (computerBoard_rs ?rs)) cb = (None, cb')"
    and tc: "toNumberArrayFormat cb' = computerBoard_rs ?rs" by auto
  have t: "human_t new_Tournament = new_Player HUMAN"
    "computer_t new_Tournament = new_Player COMPUTER"
    "currentRound new_Tournament = None"
    by (simp_all add: new_Tournament_def)
  show ?thesis
    using r0 lh lc th tc hs cs t
    by (simp add: restoreSnapshot_def Let_def put_round_def sync_tournament_def set_board_def
                  captureSnapshot_def)
qed

lemma captureSnapshot_phase_dice:
  "captureSnapshot la (s\<lparr>phase := p, currentDice := d\<rparr>)
   = map_option (\<lambda>sn. sn\<lparr>phase_sn := p, currentDice_sn := d\<rparr>) (captureSnapshot la s)"
  by (simp add: captureSnapshot_def split: option.splits)

lemma coverSquares_size: "size_b (snd (coverSquares ns b)) = size_b b"
proof (induction ns arbitrary: b)
  case Nil
  then show ?case by simp
next
  case (Cons n ns)
  obtain e b1 where c: "cover n b = (e, b1)" by (cases "cover n b")
  then have "size_b b1 = size_b b" by (auto simp add: cover_def split: if_splits)
  then show ?case using c Cons.IH [of b1] by (cases e) simp_all
qed

lemma uncoverSquares_size: "size_b (snd (uncoverSquares ns b)) = size_b b"
proof (induction ns arbitrary: b)
  case Nil
  then show ?case by simp
next
  case (Cons n ns)
  obtain e b1 where c: "uncover n b = (e, b1)" by (cases "uncover n b")
  then have "size_b b1 = size_b b" by (auto simp add: uncover_def split: if_splits)
  then show ?case using c Cons.IH [of b1] by (cases e) simp_all
qed

lemma set_board_sizes:
  "round_sizes_ok r \<Longrightarrow> size_b b = boardSize r \<Longrightarrow> round_sizes_ok (set_board i b r)"
  by (cases i) (simp_all add: round_sizes_ok_def set_board_def)

lemma checkForRoundEnd_sizes: "round_sizes_ok r \<Longrightarrow> round_sizes_ok (checkForRoundEnd r)"
  by (auto simp add: checkForRoundEnd_def Let_def round_sizes_ok_def set_player_def
                     addToScore_def getPlayerById_def)

lemma applyCoverMove_sizes:
  "round_sizes_ok r \<Longrightarrow> round_sizes_ok (snd (applyCoverMove pid ns r))"
proof -
  assume ok: "round_sizes_ok r"
  let ?b = "board_p (getPlayerById r pid)"
  obtain e b' where c: "coverSquares ns ?b = (e, b')" by (cases "coverSquares ns ?b")
  have "size_b ?b = boardSize r"
    using ok by (cases pid) (simp_all add: round_sizes_ok_def getPlayerById_def)
  then have sz: "size_b b' = boardSize r" using coverSquares_size [of ns ?b] c by simp
  have sb: "round_sizes_ok (set_board pid b' r)" using ok sz by (rule set_board_sizes)
  show ?thesis
  proof (cases e)
    case None
    let ?r2 = "if pid = HUMAN then (set_board pid b' r)\<lparr>humanEverCovered := True\<rparr>
               else set_board pid b' r"
    let ?r3 = "if pid = COMPUTER then ?r2\<lparr>computerEverCovered := True\<rparr> else ?r2"
    have "round_sizes_ok ?r2" using sb by (auto simp add: round_sizes_ok_def)
    then have "round_sizes_ok ?r3" by (auto simp add: round_sizes_ok_def)
    then have "round_sizes_ok (checkForRoundEnd ?r3)" by (rule checkForRoundEnd_sizes)
    moreover have "snd (applyCoverMove pid ns r) = checkForRoundEnd ?r3"
      using c None by (simp add: applyCoverMove_def Let_def)
    ultimately show ?thesis by simp
  next
    case (Some a)
    then show ?thesis using c sb by (simp add: applyCoverMove_def)
  qed
qed

lemma applyUncoverMove_sizes:
  "round_sizes_ok r \<Longrightarrow> round_sizes_ok (snd (applyUncoverMove pid ns r))"
proof -
  assume ok: "round_sizes_ok r"
  let ?b = "board_p (getOpponent r pid)"
  obtain e b' where c: "uncoverSquares ns ?b = (e, b')" by (cases "uncoverSquares ns ?b")
  have "size_b ?b = boardSize r"
    using ok by (cases pid)
      (simp_all add: round_sizes_ok_def getOpponent_def getOpponentId_def getPlayerById_def)
  then have sz: "size_b b' = boardSize r" using uncoverSquares_size [of ns ?b] c by simp
  have sb: "round_sizes_ok (set_board (getOpponentId pid) b' r)"
    using ok sz by (rule set_board_sizes)
  show ?thesis using c sb
    by (cases e) (simp_all add: applyUncoverMove_def checkForRoundEnd_sizes)
qed

lemma notifyTurnEnded_sizes: "round_sizes_ok (notifyTurnEnded pid r) = round_sizes_ok r"
  by (simp add: notifyTurnEnded_def round_sizes_ok_def split: option.splits)

lemma switchTurn_sizes: "round_sizes_ok (switchTurn r) = round_sizes_ok r"
  by (simp add: switchTurn_def round_sizes_ok_def)

lemma captureSnapshot_ok:
  "session_inv s \<Longrightarrow> captureSnapshot la s = Some snap \<Longrightarrow> snapshot_ok snap"
  by (auto simp add: session_inv_def captureSnapshot_def snapshot_ok_def round_sizes_ok_def
                     toNumberArrayFormat_valid
           split: option.splits)

lemma session_inv_put_round:
  "session_inv s \<Longrightarrow> round_sizes_ok r \<Longrightarrow> session_inv (put_round r s)"
  by (auto simp add: session_inv_def put_round_def sync_tournament_def split: option.splits)

lemma session_inv_pushHistory: "session_inv s \<Longrightarrow> session_inv (pushHistory lbl la s)"
proof -
  assume inv: "session_inv s"
  show ?thesis
  proof (cases "captureSnapshot la s")
    case None
    then show ?thesis using inv by (simp add: pushHistory_def)
  next
    case (Some snap)
    then have "snapshot_ok snap" using inv captureSnapshot_ok by blast
    then show ?thesis using inv Some by (simp add: pushHistory_def session_inv_def)
  qed
qed

lemma session_inv_fields:
  "session_inv (s\<lparr>phase := p\<rparr>) = session_inv s"
  "session_inv (s\<lparr>currentDice := d\<rparr>) = session_inv s"
  "session_inv (s\<lparr>currentPlayerId_s := c\<rparr>) = session_inv s"
  "session_inv (s\<lparr>queuedRolls := q\<rparr>) = session_inv s"
  "session_inv (s\<lparr>gameMode := m\<rparr>) = session_inv s"
  by (simp_all add: session_inv_def)

lemma session_inv_round_is_over: "session_inv s \<Longrightarrow> session_inv (round_is_over s)"
  by (auto simp add: session_inv_def round_is_over_def updateAdvantageForNextRound_def Let_def
           split: option.splits)

lemma session_inv_new: "session_inv new_GameSession"
  by (simp add: session_inv_def new_GameSession_def)

lemma session_inv_round: "session_inv s \<Longrightarrow> currentRound_s s = Some r \<Longrightarrow> round_sizes_ok r"
  by (auto simp add: session_inv_def split: option.splits)

lemma session_inv_endTurn: "session_inv s \<Longrightarrow> session_inv (snd (endTurn s))"
proof -
  assume inv: "session_inv s"
  show ?thesis
  proof (cases "currentRound_s s")
    case None
    then show ?thesis using inv by (simp add: endTurn_def)
  next
    case (Some r)
    have ok: "round_sizes_ok r" using inv Some by (rule session_inv_round)
    let ?r1 = "notifyTurnEnded (currentPlayerId_s s) r"
    have i1: "session_inv (put_round ?r1 s)"
      using inv ok by (simp add: session_inv_put_round notifyTurnEnded_sizes)
    have i2: "session_inv (put_round (switchTurn ?r1) (put_round ?r1 s))"
      using i1 ok by (simp add: session_inv_put_round notifyTurnEnded_sizes switchTurn_sizes)
    show ?thesis using Some i1 i2
      by (simp add: endTurn_def Let_def session_inv_round_is_over session_inv_fields)
  qed
qed

lemma session_inv_applyHumanMove:
  "session_inv s \<Longrightarrow> session_inv (snd (applyHumanMove moveType sel s))"
proof -
  assume inv: "session_inv s"
  show ?thesis
  proof (cases "currentRound_s s")
    case None
    then show ?thesis using inv by (simp add: applyHumanMove_def)
  next
    case (Some r)
    have ok: "round_sizes_ok r" using inv Some by (rule session_inv_round)
    have a: "session_inv (put_round (snd (applyCoverMove pid sel r)) s)" for pid
      using inv ok by (simp add: session_inv_put_round applyCoverMove_sizes)
    have b: "session_inv (put_round (snd (applyUncoverMove pid sel r)) s)" for pid
      using inv ok by (simp add: session_inv_put_round applyUncoverMove_sizes)
    have c: "session_inv (put_round r' s)"
      if "(if moveType = act_cover then applyCoverMove (currentPlayerId_s s) sel r
           else applyUncoverMove (currentPlayerId_s s) sel r) = (e, r')" for e r'
      using that a [of "currentPlayerId_s s"] b [of "currentPlayerId_s s"]
      by (auto split: if_splits)
    show ?thesis using Some inv c
      by (auto simp add: applyHumanMove_def Let_def session_inv_round_is_over
                         session_inv_fields session_inv_pushHistory
               split: option.splits prod.splits)
  qed
qed

lemma captureSnapshot_fields:
  "captureSnapshot la s = Some snap \<Longrightarrow>
     \<exists>r t. currentRound_s s = Some r \<and> tournament_s s = Some t
       \<and> boardSize r = boardSize_rs (round_sn snap)
       \<and> toNumberArrayFormat (board_p (human r)) = humanBoard_rs (round_sn snap)
       \<and> toNumberArrayFormat (board_p (computer r)) = computerBoard_rs (round_sn snap)
       \<and> totalScore (human r) = humanScore_rs (round_sn snap)
       \<and> totalScore (computer r) = computerScore_rs (round_sn snap)
       \<and> totalScore (human_t t) = humanScore_ts (tournament_sn snap)
       \<and> totalScore (computer_t t) = computerScore_ts (tournament_sn snap)"
  by (auto simp add: captureSnapshot_def split: option.splits)

lemma session_inv_rewindTo:
  assumes "session_inv s"
  shows "session_inv (snd (rewindTo i s))"
proof (cases "i < 0 \<or> i \<ge> int (length (history s))")
  case True
  then show ?thesis using assms by (simp add: rewindTo_def)
next
  case False
  let ?snap = "snapshot_h (history s ! nat i)"
  have "nat i < length (history s)" using False by linarith
  then have ok: "snapshot_ok ?snap" using assms by (simp add: session_inv_def list_all_length)
  obtain e s1 where r: "restoreSnapshot ?snap s = (e, s1)"
    by (cases "restoreSnapshot ?snap s")
  have e: "e = None" using restoreSnapshot_ok [OF ok, of s None] r by simp
  have cap: "captureSnapshot None s1 = Some (?snap\<lparr>lastAction_sn := None\<rparr>)"
    using restoreSnapshot_ok [OF ok, of s None] r by simp
  have h: "history s1 = history s" using restoreSnapshot_history [of ?snap s] r by simp
  from captureSnapshot_fields [OF cap]
  obtain r t where cr: "currentRound_s s1 = Some r" and ct: "tournament_s s1 = Some t"
    and eqs: "boardSize r = boardSize_rs (round_sn ?snap)"
    "toNumberArrayFormat (board_p (human r)) = humanBoard_rs (round_sn ?snap)"
    "toNumberArrayFormat (board_p (computer r)) = computerBoard_rs (round_sn ?snap)"
    "totalScore (human r) = humanScore_rs (round_sn ?snap)"
    "totalScore (computer r) = computerScore_rs (round_sn ?snap)"
    "totalScore (human_t t) = humanScore_ts (tournament_sn ?snap)"
    "totalScore (computer_t t) = computerScore_ts (tournament_sn ?snap)"
    by auto
  have lens: "length (toNumberArrayFormat (board_p (human r))) = size_b (board_p (human r))"
    "length (toNumberArrayFormat (board_p (computer r))) = size_b (board_p (computer r))"
    using toNumberArrayFormat_valid by blast+
  have "round_sizes_ok r"
    using ok eqs lens by (simp add: round_sizes_ok_def snapshot_ok_def Let_def)
  moreover have "totalScore (human_t t) = totalScore (human r)"
    "totalScore (computer_t t) = totalScore (computer r)"
    using ok eqs by (simp_all add: snapshot_ok_def Let_def)
  ultimately have "session_inv s1"
    using cr ct h assms by (simp add: session_inv_def)
  then show ?thesis using False r e by (simp add: rewindTo_def Let_def session_inv_fields)
qed

lemma session_inv_startNewRound:
  assumes inv: "session_inv s"
  shows "session_inv (snd (startNewRound bs fp s))"
proof -
  let ?s = "if tournament_s s = None then resetTournament s else s"
  obtain t where t: "tournament_s ?s = Some t"
    by (cases "tournament_s s") (auto simp add: resetTournament_def)
  let ?t1 = "t\<lparr>roundNumber := roundNumber t + 1\<rparr>"
  show ?thesis
  proof (cases "bs < 1")
    case True
    then have "new_GameRound bs (human_t ?t1) (computer_t ?t1) fp (nextRoundAdvantage ?t1)
               = Inl BadBoardSize" by (simp add: new_GameRound_def)
    then have "snd (startNewRound bs fp s) = ?s\<lparr>tournament_s := Some ?t1\<rparr>"
      using t by (simp add: startNewRound_def startNewRound_t_def Let_def)
    moreover have "session_inv (?s\<lparr>tournament_s := Some ?t1\<rparr>)"
      using inv t
      by (auto simp add: session_inv_def resetTournament_def split: option.splits if_splits)
    ultimately show ?thesis by simp
  next
    case False
    then have "1 \<le> bs" by simp
    from new_GameRound_ok [OF this, of "human_t ?t1" "computer_t ?t1" fp "nextRoundAdvantage ?t1"]
    obtain hb cb l he ce where
      r0: "new_GameRound bs (human_t ?t1) (computer_t ?t1) fp (nextRoundAdvantage ?t1) =
            Inr \<lparr>boardSize = bs,
                 human = (human_t ?t1)\<lparr>board_p := hb\<rparr>,
                 computer = (computer_t ?t1)\<lparr>board_p := cb\<rparr>,
                 firstPlayerId = fp, currentPlayerId = fp,
                 advantageInfo = nextRoundAdvantage ?t1, advantageLock = l,
                 roundOver = False, roundWinnerId = None, winType = None, roundScore = 0,
                 humanEverCovered = he, computerEverCovered = ce\<rparr>"
      and szs: "size_b hb = bs" "size_b cb = bs"
      by blast
    define r where "r = \<lparr>boardSize = bs,
                 human = (human_t ?t1)\<lparr>board_p := hb\<rparr>,
                 computer = (computer_t ?t1)\<lparr>board_p := cb\<rparr>,
                 firstPlayerId = fp, currentPlayerId = fp,
                 advantageInfo = nextRoundAdvantage ?t1, advantageLock = l,
                 roundOver = False, roundWinnerId = None, winType = None, roundScore = 0,
                 humanEverCovered = he, computerEverCovered = ce\<rparr>"
    have r: "new_GameRound bs (human_t ?t1) (computer_t ?t1) fp (nextRoundAdvantage ?t1)
                       = Inr r" using r0 by (simp add: r_def)
    have ok: "round_sizes_ok r" using szs \<open>1 \<le> bs\<close> by (simp add: round_sizes_ok_def r_def)
    let ?t2 = "?t1\<lparr>human_t := human r, computer_t := computer r, currentRound := Some r\<rparr>"
    let ?s2 = "?s\<lparr>tournament_s := Some ?t2, currentRound_s := Some r,
                   currentPlayerId_s := currentPlayerId r,
                   phase := ''awaitingRoll'', currentDice := no_dice,
                   history := [], queuedRolls := []\<rparr>"
    have inv2: "session_inv ?s2" using ok by (simp add: session_inv_def)
    have "snd (startNewRound bs fp s)
          = pushHistory (RoundStartLabel (roundNumber ?t2) (getPlayerDisplayName ?s2 fp)) None ?s2"
      using t r by (simp add: startNewRound_def startNewRound_t_def Let_def)
    then show ?thesis using inv2 by (simp add: session_inv_pushHistory)
  qed
qed


lemma session_inv_computerHasNoMoves:
  assumes inv: "session_inv s1" and ok: "round_sizes_ok r"
  shows "session_inv (snd (computerHasNoMoves pid rollInfo r s1))"
proof -
  let ?r1 = "notifyTurnEnded pid r"
  have ok1: "round_sizes_ok ?r1" using ok by (simp add: notifyTurnEnded_sizes)
  have i2: "session_inv (put_round ?r1 s1)" using inv ok1 by (rule session_inv_put_round)
  have ok2: "round_sizes_ok (switchTurn ?r1)" using ok1 by (simp add: switchTurn_sizes)
  have i3: "session_inv (put_round (switchTurn ?r1) (put_round ?r1 s1))"
    using i2 ok2 by (rule session_inv_put_round)
  show ?thesis
  proof (cases "roundOver ?r1")
    case True
    then show ?thesis using i2
      by (simp add: computerHasNoMoves_def Let_def session_inv_pushHistory
                    session_inv_round_is_over)
  next
    case False
    then show ?thesis using i3
      by (simp add: computerHasNoMoves_def Let_def session_inv_fields)
  qed
qed

lemma computerMoves_unfold:
  assumes "decision = decideMove r pid diceTotal"
    and "chosen = (case squares decision of None \<Rightarrow> [] | Some sq \<Rightarrow> sq)"
    and "res = (if action_d decision = act_cover then applyCoverMove pid chosen r
               else if action_d decision = act_uncover then applyUncoverMove pid chosen r
               else (None, r))"
    and "s3 = pushHistory
                (MoveLabel (getPlayerDisplayName (put_round (snd res) s1) pid)
                   (action_d decision) chosen)
                (Some \<lparr>playerId_la = pid, action_la = action_d decision,
                       squares_la = chosen, roll_la = rollInfo\<rparr>) (put_round (snd res) s1)"
  shows "computerMoves pid diceTotal rollInfo r s1 =
           (case fst res of
              Some e \<Rightarrow> (Some e, put_round (snd res) s1)
            | None \<Rightarrow>
                if roundOver (snd res)
                then (None, round_is_over (put_round (notifyTurnEnded pid (snd res)) s3))
                else (None, s3\<lparr>currentDice := no_dice, phase := ''awaitingRoll''\<rparr>))"
  unfolding assms computerMoves_def Let_def
  by (simp split: prod.splits option.splits)

lemma session_inv_computerMoves:
  assumes inv: "session_inv s1" and ok: "round_sizes_ok r"
  shows "session_inv (snd (computerMoves pid diceTotal rollInfo r s1))"
proof -
  define decision where "decision = decideMove r pid diceTotal"
  define chosen where "chosen = (case squares decision of None \<Rightarrow> [] | Some sq \<Rightarrow> sq)"
  define res where "res = (if action_d decision = act_cover then applyCoverMove pid chosen r
               else if action_d decision = act_uncover then applyUncoverMove pid chosen r
               else (None, r))"
  define s3 where "s3 = pushHistory
                (MoveLabel (getPlayerDisplayName (put_round (snd res) s1) pid)
                   (action_d decision) chosen)
                (Some \<lparr>playerId_la = pid, action_la = action_d decision,
                       squares_la = chosen, roll_la = rollInfo\<rparr>) (put_round (snd res) s1)"
  note unf = computerMoves_unfold [OF decision_def chosen_def res_def s3_def]
  have ok': "round_sizes_ok (snd res)"
    using ok applyCoverMove_sizes [OF ok, of pid chosen]
          applyUncoverMove_sizes [OF ok, of pid chosen]
    by (auto simp add: res_def split: if_splits)
  have i2: "session_inv (put_round (snd res) s1)" using inv ok' by (rule session_inv_put_round)
  have i3: "session_inv s3" unfolding s3_def using i2 by (rule session_inv_pushHistory)
  have ok'': "round_sizes_ok (notifyTurnEnded pid (snd res))"
    using ok' by (simp add: notifyTurnEnded_sizes)
  have i4: "session_inv (round_is_over (put_round (notifyTurnEnded pid (snd res)) s3))"
    using i3 ok'' by (simp add: session_inv_put_round session_inv_round_is_over)
  show ?thesis
    unfolding unf using i2 i3 i4 by (simp add: session_inv_fields split: option.splits)
qed

lemma session_inv_handleManualRoll:
  assumes inv: "session_inv s"
  shows "session_inv (snd (handleManualRoll numDice vals s))"
proof (cases "currentRound_s s")
  case None
  then show ?thesis using inv by (simp add: handleManualRoll_def)
next
  case (Some r)
  have ok: "round_sizes_ok r" using inv Some by (rule session_inv_round)
  have dice: "session_inv (s\<lparr>currentDice := d\<rparr>)" for d
    using inv by (simp add: session_inv_fields)
  have a: "session_inv (snd (computerHasNoMoves pid rollInfo r (s\<lparr>currentDice := d\<rparr>)))"
    for pid rollInfo d
    using dice ok by (rule session_inv_computerHasNoMoves)
  have b: "session_inv (snd (computerMoves pid t rollInfo r (s\<lparr>currentDice := d\<rparr>)))"
    for pid t rollInfo d
    using dice ok by (rule session_inv_computerMoves)
  show ?thesis
    using Some inv a b
    by (simp add: handleManualRoll_def Let_def session_inv_fields)
qed

text \<open>
  Claim C10. For a valid index \<open>i\<close> whose history snapshot is well formed (as is every
  snapshot a session has pushed: lemmas \<open>session_inv_new\<close> to
  \<open>session_inv_rewindTo\<close>), \<open>rewindTo\<close> succeeds, leaves the history list as it
  was, and resumes in the phase \<open>awaitingRoll\<close> with the dice cleared; a snapshot
  captured from the rewound session is the history snapshot but for that phase and
  those dice.
\<close>

theorem rewind_restores_snapshot_and_keeps_history:
  assumes "0 \<le> i" and "i < int (length (history s))"
    and "snapshot_ok (snapshot_h (history s ! nat i))"
  shows "fst (rewindTo i s) = None
     \<and> history (snd (rewindTo i s)) = history s
     \<and> phase (snd (rewindTo i s)) = ''awaitingRoll''
     \<and> currentDice (snd (rewindTo i s)) = no_dice
     \<and> captureSnapshot la (snd (rewindTo i s))
         = Some ((snapshot_h (history s ! nat i))
                   \<lparr>phase_sn := ''awaitingRoll'', currentDice_sn := no_dice,
                    lastAction_sn := la\<rparr>)"
proof -
  let ?snap = "snapshot_h (history s ! nat i)"
  obtain e s1 where r: "restoreSnapshot ?snap s = (e, s1)"
    by (cases "restoreSnapshot ?snap s")
  note ok = restoreSnapshot_ok [OF assms(3), of s la]
  have e: "e = None" using ok r by simp
  have cap: "captureSnapshot la s1 = Some (?snap\<lparr>lastAction_sn := la\<rparr>)" using ok r by simp
  have h: "history s1 = history s" using restoreSnapshot_history [of ?snap s] r by simp
  have rw: "rewindTo i s = (None, s1\<lparr>phase := ''awaitingRoll'', currentDice := no_dice\<rparr>)"
    using assms(1,2) r e by (simp add: rewindTo_def Let_def)
  show ?thesis
    unfolding rw using h cap by (simp add: captureSnapshot_phase_dice)
qed

theorem rewind_restores_snapshot_and_keeps_history_witness:
  "length (history first_turn_win) = 6
   \<and> phase_sn (snapshot_h (history first_turn_win ! 2)) = ''awaitingMove''
   \<and> sum_r (currentDice_sn (snapshot_h (history first_turn_win ! 2))) = Some 9
   \<and> fst (rewindTo 2 first_turn_win) = None
   \<and> history (snd (rewindTo 2 first_turn_win)) = history first_turn_win
   \<and> phase (snd (rewindTo 2 first_turn_win)) = ''awaitingRoll''
   \<and> currentDice (snd (rewindTo 2 first_turn_win)) = no_dice
   \<and> map_option (humanBoard_rs \<circ> round_sn) (captureSnapshot None (snd (rewindTo 2 first_turn_win)))
       = Some [0, 0, 0, 0, 0, 0, 7, 8, 9]"
proof -
  have l: "length (history first_turn_win) = 6" by code_simp
  have h1: "(0::int) \<le> 2" by simp
  have h2: "(2::int) < int (length (history first_turn_win))" using l by simp
  have h3: "snapshot_ok (snapshot_h (history first_turn_win ! nat 2))" by code_simp
  have p: "phase_sn (snapshot_h (history first_turn_win ! 2)) = ''awaitingMove''" by code_simp
  have d: "sum_r (currentDice_sn (snapshot_h (history first_turn_win ! 2))) = Some 9"
    by code_simp
  have b: "humanBoard_rs (round_sn (snapshot_h (history first_turn_win ! 2)))
           = [0, 0, 0, 0, 0, 0, 7, 8, 9]" by code_simp
  have n: "nat 2 = 2" by simp
  show ?thesis
    using rewind_restores_snapshot_and_keeps_history [OF h1 h2 h3, of None] l p d b
    by (simp add: n)
qed

subsection \<open>Parsing and loading a snapshot\<close>

text \<open>
  What the claim says and the code does: a board array is loaded exactly when it has
  the length of the board and each entry is 0 or its 1-based index; a text without a
  line \<open>Human:\<close>, \<open>First Turn:\<close>, \<open>Next Turn:\<close>, \<open>Squares:\<close> or
  \<open>Score:\<close> is rejected; a text without metadata lines, when it is accepted, gives the
  defaults.
\<close>

lemma load_loop_accepts_iff:
  "fst (load_loop i arr b) = None \<longleftrightarrow> (\<forall>j<length arr. arr ! j = 0 \<or> arr ! j = int (i + j) + 1)"
proof (induction arr arbitrary: i b)
  case Nil
  then show ?case by simp
next
  case (Cons v arr)
  have split: "(\<forall>j<length (v # arr). (v # arr) ! j = 0 \<or> (v # arr) ! j = int (i + j) + 1)
        \<longleftrightarrow> (v = 0 \<or> v = int i + 1)
            \<and> (\<forall>j<length arr. arr ! j = 0 \<or> arr ! j = int (Suc i + j) + 1)"
    by (auto simp add: All_less_Suc2)
  show ?case
  proof (cases "v = 0")
    case True
    then show ?thesis using Cons.IH [of "i + 1"] split by (simp add: Let_def)
  next
    case nz: False
    show ?thesis
    proof (cases "v = int (i + 1)")
      case True
      then show ?thesis using nz Cons.IH [of "i + 1"] split by (simp add: Let_def)
    next
      case False
      then show ?thesis using nz split by (simp add: Let_def)
    qed
  qed
qed

lemma loadFromNumberArrayFormat_accepts_iff:
  "fst (loadFromNumberArrayFormat arr b) = None \<longleftrightarrow>
     length arr = size_b b \<and> (\<forall>j<length arr. arr ! j = 0 \<or> arr ! j = int j + 1)"
  using load_loop_accepts_iff [of 0 arr b] by (simp add: loadFromNumberArrayFormat_def)

lemma loadFromNumberArrayFormat_bad_length:
  "length arr \<noteq> size_b b \<Longrightarrow> loadFromNumberArrayFormat arr b = (Some BadArrayLength, b)"
  by (simp add: loadFromNumberArrayFormat_def)

lemma parseSnapshot_missing_human:
  assumes "''Human:'' \<notin> set (map trim (split_lines text))"
  shows "\<exists>e. parseSnapshot text = Inl e"
proof -
  have "\<not> list_ex (\<lambda>l. l = ''Human:'') (map trim (split_lines text))"
    using assms by (auto simp add: list_ex_iff)
  then show ?thesis
    by (auto simp add: parseSnapshot_def Let_def split: sum.splits)
qed

lemma findLine_None:
  "find (startsWith prefix) lines = None \<Longrightarrow> findLine lines prefix = Inl (CannotFindLine prefix)"
  by (simp add: findLine_def)

lemma parseSnapshot_missing_turn_line:
  assumes "find (startsWith ''First Turn:'') (map trim (split_lines text)) = None
           \<or> find (startsWith ''Next Turn:'') (map trim (split_lines text)) = None"
  shows "\<exists>e. parseSnapshot text = Inl e"
proof -
  have "findLine (map trim (split_lines text)) ''First Turn:'' = Inl (CannotFindLine ''First Turn:'')
        \<or> findLine (map trim (split_lines text)) ''Next Turn:'' = Inl (CannotFindLine ''Next Turn:'')"
    using assms findLine_None by blast
  then show ?thesis
    by (auto simp add: parseSnapshot_def Let_def split: sum.splits option.splits prod.splits)
qed

lemma parseSnapshot_missing_squares_or_score:
  assumes "find (startsWith ''Squares:'') (map trim (split_lines text)) = None
           \<or> find (startsWith ''Score:'') (map trim (split_lines text)) = None"
  shows "\<exists>e. parseSnapshot text = Inl e"
proof -
  have "findLine (map trim (split_lines text)) ''Squares:'' = Inl (CannotFindLine ''Squares:'')
        \<or> findLine (map trim (split_lines text)) ''Score:'' = Inl (CannotFindLine ''Score:'')"
    using assms findLine_None by blast
  then show ?thesis
    by (auto simp add: parseSnapshot_def Let_def split: sum.splits option.splits prod.splits)
qed

lemma parseSnapshot_defaults:
  assumes "parseSnapshot text = Inr ps"
    and "filter (startsWith ''#'') (map trim (split_lines text)) = []"
  shows "phase_ps ps = ''awaitingRoll''
         \<and> currentDice_ps ps = \<lparr>d1_pd = None, d2_pd = None, sum_pd = None\<rparr>
         \<and> advantageLock_ps ps = None \<and> queuedRolls_ps ps = []"
  using assms
  by (auto simp add: parseSnapshot_def Let_def meta_default_def
           split: sum.splits option.splits prod.splits if_splits)

text \<open>
  Claim C8, at a text without the \<open>Computer:\<close> block. \<open>parseSnapshot\<close> takes the
  first \<open>Squares:\<close> and \<open>Score:\<close> lines of the text for the computer's and never
  looks for the line \<open>Computer:\<close>, while it does look for the line \<open>Human:\<close>. The
  text \<open>text_without_computer_block\<close> is accepted, and the squares and the score of
  its \<open>Human:\<close> block are returned for both players. The text without the
  \<open>Human:\<close> block is rejected, and the text with both blocks and no metadata line is
  parsed with the defaults.
\<close>

theorem snapshot_without_computer_block_is_accepted:
  "''Computer:'' \<notin> set (map trim (split_lines text_without_computer_block))
   \<and> parseSnapshot text_without_computer_block =
       Inr \<lparr>computerSquares_ps = [Num 1, Num 2, Num 0, Num 4, Num 5, Num 6, Num 7, Num 8, Num 9],
            humanSquares_ps = [Num 1, Num 2, Num 0, Num 4, Num 5, Num 6, Num 7, Num 8, Num 9],
            computerScore_ps = Num 4, humanScore_ps = Num 4,
            firstTurnId_ps = HUMAN, nextTurnId_ps = COMPUTER,
            phase_ps = ''awaitingRoll'',
            currentDice_ps = \<lparr>d1_pd = None, d2_pd = None, sum_pd = None\<rparr>,
            advantageLock_ps = None, queuedRolls_ps = []\<rparr>
   \<and> parseSnapshot text_without_human_block = Inl MissingHumanSection
   \<and> parseSnapshot full_text =
       Inr \<lparr>computerSquares_ps = [Num 1, Num 2, Num 3, Num 4, Num 0, Num 6, Num 7, Num 8, Num 9],
            humanSquares_ps = [Num 1, Num 2, Num 0, Num 4, Num 5, Num 6, Num 7, Num 8, Num 9],
            computerScore_ps = Num 7, humanScore_ps = Num 4,
            firstTurnId_ps = HUMAN, nextTurnId_ps = COMPUTER,
            phase_ps = ''awaitingRoll'',
            currentDice_ps = \<lparr>d1_pd = None, d2_pd = None, sum_pd = None\<rparr>,
            advantageLock_ps = None, queuedRolls_ps = []\<rparr>"
  by code_simp

subsection \<open>The serializer round trip\<close>

lemma digit_char_is_digit: "n < 10 \<Longrightarrow> is_digit (digit_char n)"
  by (simp add: is_digit_def digit_char_def)

lemma digit_val_digit_char: "n < 10 \<Longrightarrow> digit_val (digit_char n) = n"
  by (simp add: digit_val_def digit_char_def)

lemma show_nat_digits: "list_all is_digit (show_nat n) \<and> show_nat n \<noteq> []"
proof (induction n rule: show_nat.induct)
  case (1 n)
  show ?case
  proof (cases "n < 10")
    case True
    then show ?thesis by (subst (1 2) show_nat.simps) (simp add: digit_char_is_digit)
  next
    case False
    then have "list_all is_digit (show_nat (n div 10))" using "1.IH" by simp
    then show ?thesis using False
      by (subst (1 2) show_nat.simps) (simp add: digit_char_is_digit)
  qed
qed

lemma digits_value_snoc: "digits_value (ds @ [c]) = 10 * digits_value ds + digit_val c"
  by (simp add: digits_value_def)

lemma digits_value_show_nat: "digits_value (show_nat n) = n"
proof (induction n rule: show_nat.induct)
  case (1 n)
  show ?case
  proof (cases "n < 10")
    case True
    then show ?thesis
      by (subst show_nat.simps) (simp add: digits_value_def digit_val_digit_char)
  next
    case False
    then have "digits_value (show_nat (n div 10)) = n div 10" using "1.IH" by simp
    then have "digits_value (show_nat (n div 10) @ [digit_char (n mod 10)]) = n"
      by (simp add: digits_value_snoc digit_val_digit_char)
    then show ?thesis using False by (subst show_nat.simps) simp
  qed
qed

lemma is_digit_not_space: "is_digit c \<Longrightarrow> \<not> is_space c"
  by (auto simp add: is_digit_def is_space_def)

lemma is_digit_plain:
  "is_digit c \<Longrightarrow> c \<noteq> LF \<and> c \<noteq> CR \<and> c \<noteq> CHR '':'' \<and> c \<noteq> CHR '','' \<and> c \<noteq> CHR ''|''
     \<and> c \<noteq> CHR ''+'' \<and> c \<noteq> CHR ''-'' \<and> c \<noteq> CHR ''#'' \<and> c \<noteq> CHR '' ''"
  by (auto simp add: is_digit_def LF_def CR_def)

lemma trim_id:
  assumes "s \<noteq> []" and "\<not> is_space (hd s)" and "\<not> is_space (last s)"
  shows "trim s = s"
proof -
  have a: "dropWhile is_space s = s" using assms(1,2) by (cases s) simp_all
  have g: "\<And>t. t \<noteq> [] \<Longrightarrow> \<not> is_space (hd t) \<Longrightarrow> dropWhile is_space t = t"
    by (case_tac t) simp_all
  have "rev s \<noteq> []" and "hd (rev s) = last s" using assms(1) by (simp_all add: hd_rev)
  then have b: "dropWhile is_space (rev s) = rev s" using assms(3) g [of "rev s"] by simp
  show ?thesis by (simp add: trim_def a b)
qed

lemma trim_Nil: "trim [] = []"
  by (simp add: trim_def)

lemma trim_leading: "is_space c \<Longrightarrow> trim (c # s) = trim s"
  by (simp add: trim_def)

lemma trim_show_nat: "trim (show_nat n) = show_nat n"
proof (rule trim_id)
  show ne: "show_nat n \<noteq> []" using show_nat_digits by blast
  have all: "list_all is_digit (show_nat n)" using show_nat_digits by blast
  have "hd (show_nat n) \<in> set (show_nat n)" "last (show_nat n) \<in> set (show_nat n)"
    using ne by simp_all
  then have "is_digit (hd (show_nat n))" "is_digit (last (show_nat n))"
    using all by (simp_all add: list_all_iff)
  then show "\<not> is_space (hd (show_nat n))" "\<not> is_space (last (show_nat n))"
    by (simp_all add: is_digit_not_space)
qed

lemma takeWhile_all: "list_all P xs \<Longrightarrow> takeWhile P xs = xs"
  by (induction xs) simp_all

lemma dropWhile_all: "list_all P xs \<Longrightarrow> dropWhile P xs = []"
  by (induction xs) simp_all

lemma read_unsigned_digits:
  assumes "ds \<noteq> []" and "list_all is_digit ds"
  shows "read_unsigned ds = Num (int (digits_value ds))"
proof -
  have "is_digit (hd ds)" using assms by (cases ds) simp_all
  then have "hd ds \<noteq> CHR ''I''" by (auto simp add: is_digit_def)
  then have ni: "ds \<noteq> ''Infinity''" by auto
  show ?thesis
    using assms ni
    by (simp add: read_unsigned_def Let_def takeWhile_all dropWhile_all read_exponent_def
                  scale10_def)
qed

lemma Number_js_show_nat: "Number_js (show_nat n) = Num (int n)"
proof -
  obtain c cs where s: "show_nat n = c # cs" using show_nat_digits by (cases "show_nat n") auto
  have all: "list_all is_digit (c # cs)" using show_nat_digits [of n] s by simp
  then have d: "is_digit c" by simp
  then have c: "c \<noteq> CHR ''+''" "c \<noteq> CHR ''-''" using is_digit_plain by blast+
  have nx: "\<not> (cs \<noteq> [] \<and> (hd cs = CHR ''x'' \<or> hd cs = CHR ''X'' \<or> hd cs = CHR ''o''
             \<or> hd cs = CHR ''O'' \<or> hd cs = CHR ''b'' \<or> hd cs = CHR ''B''))"
  proof
    assume a: "cs \<noteq> [] \<and> (hd cs = CHR ''x'' \<or> hd cs = CHR ''X'' \<or> hd cs = CHR ''o''
             \<or> hd cs = CHR ''O'' \<or> hd cs = CHR ''b'' \<or> hd cs = CHR ''B'')"
    then have "is_digit (hd cs)" using all by (cases cs) simp_all
    then show False using a by (auto simp add: is_digit_def)
  qed
  have "read_unsigned (c # cs) = Num (int n)"
    using read_unsigned_digits [of "c # cs"] all digits_value_show_nat [of n] s by simp
  then show ?thesis using trim_show_nat [of n] s c nx by (auto simp add: Number_js_def Let_def)
qed

lemma split_char_from_sep:
  "sep \<notin> set l \<Longrightarrow>
     split_char_from sep cur (l @ sep # rest) = (rev cur @ l) # split_char_from sep [] rest"
  by (induction l arbitrary: cur) auto

lemma split_char_from_none:
  "sep \<notin> set l \<Longrightarrow> split_char_from sep cur l = [rev cur @ l]"
  by (induction l arbitrary: cur) auto

lemma after_colon_line:
  "CHR '':'' \<notin> set pre \<Longrightarrow> CHR '':'' \<notin> set x \<Longrightarrow>
     after_colon (pre @ CHR '':'' # x) = Some x"
  by (simp add: after_colon_def split_char_def split_char_from_sep split_char_from_none)

lemma split_ws_from_space:
  "\<forall>c\<in>set t. \<not> is_space c \<Longrightarrow> is_space d \<Longrightarrow>
     split_ws_from cur (t @ d # rest)
       = (rev cur @ t) # split_ws_from [] (dropWhile is_space rest)"
  by (induction t arbitrary: cur) auto

lemma split_ws_from_none:
  "\<forall>c\<in>set t. \<not> is_space c \<Longrightarrow> split_ws_from cur t = [rev cur @ t]"
  by (induction t arbitrary: cur) auto

lemma dropWhile_token: "token t \<Longrightarrow> dropWhile is_space (t @ rest) = t @ rest"
  by (cases t) (simp_all add: token_def)

lemma join_Cons: "ts \<noteq> [] \<Longrightarrow> join sep (t # ts) = t @ sep @ join sep ts"
  by (cases ts) simp_all

lemma join_snoc: "xs \<noteq> [] \<Longrightarrow> join sep (xs @ [x]) = join sep xs @ sep @ x"
proof (induction xs)
  case Nil
  then show ?case by simp
next
  case (Cons a xs)
  show ?case
  proof (cases xs)
    case Nil
    then show ?thesis by simp
  next
    case (Cons b ys)
    then have "xs \<noteq> []" by simp
    then have "join sep (xs @ [x]) = join sep xs @ sep @ x" by (rule Cons.IH)
    then show ?thesis using Cons by simp
  qed
qed

lemma join_token_start:
  "ts \<noteq> [] \<Longrightarrow> \<forall>t\<in>set ts. token t \<Longrightarrow>
     dropWhile is_space (join sep ts @ rest) = join sep ts @ rest"
proof -
  assume ne: "ts \<noteq> []" and tk: "\<forall>t\<in>set ts. token t"
  then obtain t ts' where ts: "ts = t # ts'" by (cases ts) auto
  then have t: "token t" using tk by simp
  show ?thesis
  proof (cases ts')
    case Nil
    then show ?thesis using ts t by (simp add: dropWhile_token)
  next
    case (Cons a list)
    then have "join sep ts @ rest = t @ (sep @ join sep ts' @ rest)"
      using ts by simp
    then show ?thesis using t dropWhile_token by metis
  qed
qed

lemma split_ws_join_rest:
  "ts \<noteq> [] \<Longrightarrow> \<forall>t\<in>set ts. token t \<Longrightarrow> token u \<Longrightarrow>
     split_ws_from [] (join '' '' ts @ CHR '' '' # u) = ts @ [u]"
proof (induction ts)
  case Nil
  then show ?case by simp
next
  case (Cons t ts)
  have t: "\<forall>c\<in>set t. \<not> is_space c" and tk: "token t" using Cons.prems(2) by (simp_all add: token_def)
  have sp: "is_space (CHR '' '')" by (simp add: is_space_def)
  show ?case
  proof (cases ts)
    case Nil
    have u: "\<forall>c\<in>set u. \<not> is_space c" using Cons.prems(3) by (simp add: token_def)
    have "split_ws_from [] (t @ CHR '' '' # u)
          = t # split_ws_from [] (dropWhile is_space u)"
      using split_ws_from_space [OF t sp, of "[]" u] by simp
    also have "dropWhile is_space u = u" using dropWhile_token [OF Cons.prems(3), of "[]"] by simp
    also have "split_ws_from [] u = [u]" using split_ws_from_none [OF u, of "[]"] by simp
    finally show ?thesis using Nil by simp
  next
    case (Cons a list)
    then have ne: "ts \<noteq> []" by simp
    have tks: "\<forall>t\<in>set ts. token t" using Cons.prems(2) by simp
    have "join '' '' (t # ts) @ CHR '' '' # u
          = t @ CHR '' '' # (join '' '' ts @ CHR '' '' # u)"
      using ne by (simp add: join_Cons)
    then have "split_ws_from [] (join '' '' (t # ts) @ CHR '' '' # u)
          = t # split_ws_from [] (dropWhile is_space (join '' '' ts @ CHR '' '' # u))"
      using split_ws_from_space [OF t sp, of "[]"] by simp
    also have "dropWhile is_space (join '' '' ts @ CHR '' '' # u) = join '' '' ts @ CHR '' '' # u"
      using join_token_start [OF ne tks] .
    also have "split_ws_from [] (join '' '' ts @ CHR '' '' # u) = ts @ [u]"
      using Cons.IH [OF ne tks Cons.prems(3)] .
    finally show ?thesis by simp
  qed
qed

lemma split_ws_join:
  assumes "ts \<noteq> []" and "\<forall>t\<in>set ts. token t"
  shows "split_ws (join '' '' ts) = ts"
proof -
  have "ts = butlast ts @ [last ts]" using assms(1) by simp
  show ?thesis
  proof (cases "butlast ts")
    case Nil
    then have ts: "ts = [last ts]" using \<open>ts = butlast ts @ [last ts]\<close> by simp
    then have "token (last ts)" using assms(2) by (metis list.set_intros(1))
    then have "\<forall>c\<in>set (last ts). \<not> is_space c" by (simp add: token_def)
    then have "split_ws_from [] (last ts) = [last ts]"
      using split_ws_from_none [of "last ts" "[]"] by simp
    then show ?thesis using ts by (metis join.simps(2) split_ws_def)
  next
    case (Cons a list)
    then have ne: "butlast ts \<noteq> []" by simp
    have tks: "\<forall>t\<in>set (butlast ts). token t" using assms(2) by (meson in_set_butlastD)
    have u: "token (last ts)" using assms by simp
    have "join '' '' (butlast ts @ [last ts]) = join '' '' (butlast ts) @ '' '' @ last ts"
      using ne by (rule join_snoc)
    then have "join '' '' ts = join '' '' (butlast ts) @ CHR '' '' # last ts"
      using \<open>ts = butlast ts @ [last ts]\<close> by simp
    then show ?thesis
      using split_ws_join_rest [OF ne tks u] \<open>ts = butlast ts @ [last ts]\<close>
      by (simp add: split_ws_def)
  qed
qed

lemma token_show_nat: "token (show_nat n)"
  using show_nat_digits [of n] by (auto simp add: token_def list_all_iff is_digit_not_space)

lemma split_lines_from_step:
  "c \<noteq> LF \<Longrightarrow> c \<noteq> CR \<Longrightarrow> rest \<noteq> [] \<Longrightarrow>
     split_lines_from cur (c # rest) = split_lines_from (c # cur) rest"
  by (cases rest) simp_all

lemma split_lines_from_LF:
  "split_lines_from cur (LF # rest) = rev cur # split_lines_from [] rest"
  by (cases rest) simp_all

lemma split_lines_from_line:
  "LF \<notin> set l \<Longrightarrow> CR \<notin> set l \<Longrightarrow>
     split_lines_from cur (l @ LF # rest) = (rev cur @ l) # split_lines_from [] rest"
proof (induction l arbitrary: cur)
  case Nil
  then show ?case by (simp add: split_lines_from_LF)
next
  case (Cons c l)
  have "split_lines_from cur (c # (l @ LF # rest)) = split_lines_from (c # cur) (l @ LF # rest)"
    using Cons.prems by (intro split_lines_from_step) auto
  then show ?case using Cons.IH [of "c # cur"] Cons.prems by simp
qed

lemma unlines_Cons: "unlines (l # ls) = l @ LF # unlines ls"
  by (simp add: unlines_def)

lemma unlines_Nil: "unlines [] = []"
  by (simp add: unlines_def)

lemma unlines_append: "unlines (xs @ ys) = unlines xs @ unlines ys"
  by (simp add: unlines_def)

lemma join_LF_unlines: "ms \<noteq> [] \<Longrightarrow> join [LF] ms @ [LF] = unlines ms"
proof (induction ms)
  case Nil
  then show ?case by simp
next
  case (Cons m ms)
  show ?case
  proof (cases ms)
    case Nil
    then show ?thesis by (simp add: unlines_def)
  next
    case (Cons a list)
    then have ne: "ms \<noteq> []" by simp
    have "join [LF] (m # ms) @ [LF] = m @ [LF] @ (join [LF] ms @ [LF])"
      using ne by (simp add: join_Cons)
    then show ?thesis using Cons.IH [OF ne] by (simp add: unlines_Cons)
  qed
qed

lemma meta_lines_nonempty: "meta_lines p \<noteq> []"
  by (simp add: meta_lines_def)

lemma serializeSnapshot_lines: "serializeSnapshot p = unlines (snapshot_lines p)"
proof -
  have "join [LF] (meta_lines p) @ [LF] = unlines (meta_lines p)"
    using meta_lines_nonempty by (rule join_LF_unlines)
  then show ?thesis
    by (simp add: serializeSnapshot_def Let_def snapshot_lines_def meta_lines_nonempty
                  unlines_Cons unlines_append)
qed

lemma split_lines_from_unlines:
  "\<forall>l\<in>set ls. LF \<notin> set l \<and> CR \<notin> set l \<Longrightarrow> split_lines_from [] (unlines ls) = ls @ [[]]"
proof (induction ls)
  case Nil
  then show ?case by (simp add: unlines_def)
next
  case (Cons l ls)
  have "split_lines_from [] (l @ LF # unlines ls) = (rev [] @ l) # split_lines_from [] (unlines ls)"
    using Cons.prems by (intro split_lines_from_line) simp_all
  then show ?case using Cons by (simp add: unlines_Cons)
qed

lemma split_lines_unlines:
  "\<forall>l\<in>set ls. LF \<notin> set l \<and> CR \<notin> set l \<Longrightarrow> split_lines (unlines ls) = ls @ [[]]"
  by (simp add: split_lines_def split_lines_from_unlines)

lemma show_nat_char: "c \<in> set (show_nat n) \<Longrightarrow> is_digit c"
  using show_nat_digits [of n] by (simp add: list_all_iff)

lemma show_nat_nonempty: "show_nat n \<noteq> []"
  using show_nat_digits by blast

lemma join_char:
  "c \<in> set (join sep xs) \<Longrightarrow> c \<in> set sep \<or> (\<exists>x\<in>set xs. c \<in> set x)"
  by (induction sep xs rule: join.induct) auto

lemma numtext_char_inline: "numtext_char c \<Longrightarrow> c \<noteq> LF \<and> c \<noteq> CR \<and> c \<noteq> CHR '':''"
  by (auto simp add: numtext_char_def is_digit_def LF_def CR_def)

lemma show_nat_numtext: "list_all numtext_char (show_nat n)"
  using show_nat_char by (auto simp add: list_all_iff numtext_char_def)

lemma join_numtext:
  "list_all numtext_char sep \<Longrightarrow> \<forall>x\<in>set xs. list_all numtext_char x \<Longrightarrow>
     list_all numtext_char (join sep xs)"
  using join_char by (fastforce simp add: list_all_iff)

lemma show_die_numtext: "list_all numtext_char (show_die v)"
  by (cases v) (simp_all add: show_die_def show_nat_numtext numtext_char_def)

lemma show_bool_numtext: "list_all numtext_char (show_bool v)"
  by (simp add: show_bool_def numtext_char_def)

lemma id_text_numtext: "list_all numtext_char (id_text i)"
  by (cases i) (simp_all add: id_text_def numtext_char_def)

lemma turn_label_numtext: "list_all numtext_char (turn_label i)"
  by (cases i) (simp_all add: turn_label_def numtext_char_def)

lemma show_queued_numtext: "list_all numtext_char (show_queued q)"
  by (cases "qd2 q") (simp_all add: show_queued_def show_nat_numtext numtext_char_def)

lemma phase_numtext:
  "params_ok p \<Longrightarrow> list_all numtext_char (phase_sp p)"
  by (auto simp add: params_ok_def numtext_char_def)

lemma inline_simps:
  "inline []"
  "inline (c # s) = (c \<noteq> LF \<and> c \<noteq> CR \<and> inline s)"
  "inline (s @ t) = (inline s \<and> inline t)"
  by (auto simp add: inline_def)

lemma numtext_inline: "list_all numtext_char s \<Longrightarrow> inline s"
  using numtext_char_inline by (auto simp add: inline_def list_all_iff)

lemma snapshot_lines_inline:
  assumes "params_ok p"
  shows "\<forall>l\<in>set (snapshot_lines p). LF \<notin> set l \<and> CR \<notin> set l"
proof -
  have nl: "LF \<noteq> CHR '' ''" "CR \<noteq> CHR '' ''" by (simp_all add: LF_def CR_def)
  have j: "inline (join '' '' (map show_nat xs))" for xs
    by (rule numtext_inline, rule join_numtext)
       (simp_all add: numtext_char_def show_nat_numtext)
  have q: "inline (join '' | '' (map show_queued qs))" for qs
    by (rule numtext_inline, rule join_numtext)
       (simp_all add: numtext_char_def show_queued_numtext)
  note facts = numtext_inline [OF show_nat_numtext] numtext_inline [OF show_die_numtext]
    numtext_inline [OF show_bool_numtext] numtext_inline [OF id_text_numtext]
    numtext_inline [OF turn_label_numtext] numtext_inline [OF phase_numtext [OF assms]]
  have m: "list_all inline (meta_lines p)"
  proof (cases "advantageLock_sp p")
    case None
    then show ?thesis
      by (simp add: meta_lines_def inline_simps facts q LF_def CR_def)
  next
    case (Some l)
    then show ?thesis
      by (simp add: meta_lines_def inline_simps facts q LF_def CR_def)
  qed
  have "list_all inline (snapshot_lines p)"
    using m by (simp add: snapshot_lines_def inline_simps facts j LF_def CR_def)
  then show ?thesis by (simp add: inline_def list_all_iff)
qed

lemma trim_Cons_keep: "\<not> is_space c \<Longrightarrow> \<not> is_space (last (c # s)) \<Longrightarrow> trim (c # s) = c # s"
  by (rule trim_id) simp_all

lemma join_nonempty: "xs \<noteq> [] \<Longrightarrow> \<forall>x\<in>set xs. x \<noteq> [] \<Longrightarrow> join sep xs \<noteq> []"
  by (induction sep xs rule: join.induct) auto

lemma join_last:
  "xs \<noteq> [] \<Longrightarrow> \<forall>x\<in>set xs. x \<noteq> [] \<Longrightarrow> last (join sep xs) = last (last xs)"
proof (induction sep xs rule: join.induct)
  case (1 sep)
  then show ?case by simp
next
  case (2 sep x)
  then show ?case by simp
next
  case (3 sep x y xs)
  have "join sep (y # xs) \<noteq> []" using "3.prems" by (intro join_nonempty) auto
  then show ?case using 3 by simp
qed

lemma last_show_nat: "\<not> is_space (last (show_nat n))"
proof -
  have "last (show_nat n) \<in> set (show_nat n)" using show_nat_nonempty by simp
  then show ?thesis using show_nat_char is_digit_not_space by blast
qed

lemma toNumberArrayFormat_nonempty: "1 \<le> size_b b \<Longrightarrow> toNumberArrayFormat b \<noteq> []"
  by (simp add: toNumberArrayFormat_def)

lemma squares_text:
  assumes "arr \<noteq> []"
  shows "join '' '' (map show_nat arr) \<noteq> []"
    and "\<not> is_space (last (join '' '' (map show_nat arr)))"
proof -
  have ne: "map show_nat arr \<noteq> []" using assms by simp
  have all: "\<forall>x\<in>set (map show_nat arr). x \<noteq> []" using show_nat_nonempty by auto
  show "join '' '' (map show_nat arr) \<noteq> []" using ne all by (rule join_nonempty)
  have "last (join '' '' (map show_nat arr)) = last (last (map show_nat arr))"
    using ne all by (rule join_last)
  also have "\<dots> = last (show_nat (last arr))" using assms by (simp add: last_map)
  finally show "\<not> is_space (last (join '' '' (map show_nat arr)))"
    using last_show_nat by simp
qed

lemma last_show_queued: "show_queued q \<noteq> [] \<and> \<not> is_space (last (show_queued q))"
  by (cases "qd2 q") (simp_all add: show_queued_def show_nat_nonempty last_show_nat)

lemma queue_text:
  assumes "qs \<noteq> []"
  shows "join '' | '' (map show_queued qs) \<noteq> []"
    and "\<not> is_space (last (join '' | '' (map show_queued qs)))"
proof -
  have ne: "map show_queued qs \<noteq> []" using assms by simp
  have all: "\<forall>x\<in>set (map show_queued qs). x \<noteq> []" using last_show_queued by auto
  show "join '' | '' (map show_queued qs) \<noteq> []" using ne all by (rule join_nonempty)
  have "last (join '' | '' (map show_queued qs)) = last (last (map show_queued qs))"
    using ne all by (rule join_last)
  also have "\<dots> = last (show_queued (last qs))" using assms by (simp add: last_map)
  finally show "\<not> is_space (last (join '' | '' (map show_queued qs)))"
    using last_show_queued by simp
qed

lemma trim_meta_lines:
  assumes "params_ok p"
  shows "map trim (meta_lines p) = meta_lines p"
proof -
  have sp: "is_space (CHR '' '')" by (simp add: is_space_def)
  have ph: "phase_sp p \<noteq> [] \<and> \<not> is_space (last (phase_sp p))"
    using assms by (auto simp add: params_ok_def is_space_def)
  have b: "show_bool v \<noteq> [] \<and> \<not> is_space (last (show_bool v))" for v
    by (simp add: show_bool_def is_space_def)
  have l1: "trim (''# Phase: '' @ phase_sp p) = ''# Phase: '' @ phase_sp p"
    using ph by (simp add: trim_Cons_keep is_space_def)
  have l2: "trim (''# CurrentDice: '' @ a @ '' '' @ b' @ '' (sum='' @ c @ '')'')
            = ''# CurrentDice: '' @ a @ '' '' @ b' @ '' (sum='' @ c @ '')''" for a b' c
    by (simp add: trim_Cons_keep is_space_def)
  have l3: "trim (''# AdvantageLock: '' @ i @ '' '' @ n @ '' unlocked='' @ show_bool v)
            = ''# AdvantageLock: '' @ i @ '' '' @ n @ '' unlocked='' @ show_bool v" for i n v
    using b [of v] by (simp add: trim_Cons_keep is_space_def)
  have l4: "trim (''# QueuedRolls: '' @ join '' | '' (map show_queued qs))
            = ''# QueuedRolls: '' @ join '' | '' (map show_queued qs)" if "qs \<noteq> []" for qs
    using queue_text [OF that] by (simp add: trim_Cons_keep is_space_def)
  show ?thesis
  proof (cases "advantageLock_sp p")
    case None
    then show ?thesis using l1 l2 l4 by (simp add: meta_lines_def)
  next
    case (Some l)
    then show ?thesis using l1 l2 l3 l4 by (simp add: meta_lines_def)
  qed
qed

lemma trim_snapshot_lines:
  assumes "params_ok p"
  shows "map trim (snapshot_lines p @ [[]]) = trimmed_lines p"
proof -
  have c: "toNumberArrayFormat (computerBoard_sp p) \<noteq> []"
    and h: "toNumberArrayFormat (humanBoard_sp p) \<noteq> []"
    using assms by (simp_all add: params_ok_def toNumberArrayFormat_nonempty)
  have t: "turn_label i \<noteq> [] \<and> \<not> is_space (last (turn_label i))" for i
    by (simp add: turn_label_def is_space_def)
  have sp: "is_space (CHR '' '')" by (simp add: is_space_def)
  have a1: "trim (''   Squares: '' @ s) = ''Squares: '' @ s"
    if "s \<noteq> []" "\<not> is_space (last s)" for s
    using that by (simp add: trim_leading trim_Cons_keep is_space_def)
  have a2: "trim (''   Score: '' @ s) = ''Score: '' @ s"
    if "s \<noteq> []" "\<not> is_space (last s)" for s
    using that by (simp add: trim_leading trim_Cons_keep is_space_def)
  have a3: "trim (''First Turn: '' @ s) = ''First Turn: '' @ s"
    if "s \<noteq> []" "\<not> is_space (last s)" for s
    using that by (simp add: trim_Cons_keep is_space_def)
  have a4: "trim (''Next Turn: '' @ s) = ''Next Turn: '' @ s"
    if "s \<noteq> []" "\<not> is_space (last s)" for s
    using that by (simp add: trim_Cons_keep is_space_def)
  have a5: "trim ''Computer:'' = ''Computer:''" "trim ''Human:'' = ''Human:''"
    by (simp_all add: trim_Cons_keep is_space_def)
  show ?thesis
    unfolding snapshot_lines_def trimmed_lines_def
    using a1 [OF squares_text [OF c]] a1 [OF squares_text [OF h]]
          a2 [OF show_nat_nonempty last_show_nat] a3 a4 a5 t trim_meta_lines [OF assms]
    by (simp add: trim_Nil)
qed

lemma numtext_no_colon: "list_all numtext_char s \<Longrightarrow> CHR '':'' \<notin> set s"
  using numtext_char_inline by (auto simp add: list_all_iff)

lemma join_hd:
  "xs \<noteq> [] \<Longrightarrow> hd xs \<noteq> [] \<Longrightarrow> hd (join sep xs) = hd (hd xs)"
  by (induction sep xs rule: join.induct) auto

lemma hd_show_nat: "\<not> is_space (hd (show_nat n))"
proof -
  have "hd (show_nat n) \<in> set (show_nat n)" using show_nat_nonempty by simp
  then show ?thesis using show_nat_char is_digit_not_space by blast
qed

lemma squares_text_trim:
  assumes "arr \<noteq> []"
  shows "trim (join '' '' (map show_nat arr)) = join '' '' (map show_nat arr)"
proof (rule trim_id)
  show "join '' '' (map show_nat arr) \<noteq> []" using assms by (rule squares_text(1))
  show "\<not> is_space (last (join '' '' (map show_nat arr)))" using assms by (rule squares_text(2))
  have "hd (join '' '' (map show_nat arr)) = hd (hd (map show_nat arr))"
    using assms by (intro join_hd) (simp_all add: hd_map show_nat_nonempty)
  then show "\<not> is_space (hd (join '' '' (map show_nat arr)))"
    using assms hd_show_nat by (simp add: hd_map)
qed

lemma squares_numtext: "list_all numtext_char (join '' '' (map show_nat arr))"
  by (rule join_numtext) (simp_all add: numtext_char_def show_nat_numtext)

lemma parseSquares_line:
  assumes "arr \<noteq> []"
  shows "parseSquares (''Squares: '' @ join '' '' (map show_nat arr)) = Inr (map num_of arr)"
proof -
  let ?cl = "join '' '' (map show_nat arr)"
  have nc: "CHR '':'' \<notin> set (CHR '' '' # ?cl)"
    using numtext_no_colon [OF squares_numtext, of arr] by simp
  have "after_colon (''Squares'' @ CHR '':'' # (CHR '' '' # ?cl)) = Some (CHR '' '' # ?cl)"
    by (rule after_colon_line) (use nc in simp_all)
  then have ac: "after_colon (''Squares: '' @ ?cl) = Some (CHR '' '' # ?cl)" by simp
  have tr: "trim (CHR '' '' # ?cl) = ?cl"
    using squares_text_trim [OF assms] by (simp add: trim_leading is_space_def)
  have ne: "map show_nat arr \<noteq> []" using assms by simp
  have tk: "\<forall>t\<in>set (map show_nat arr). token t" using token_show_nat by auto
  have sw: "split_ws ?cl = map show_nat arr" using ne tk by (rule split_ws_join)
  have fl: "filter (\<lambda>s. length s > 0) (map show_nat arr) = map show_nat arr"
    using show_nat_nonempty by (simp add: filter_id_conv)
  have nm: "map Number_js (map show_nat arr) = map num_of arr"
    by (simp add: Number_js_show_nat num_of_def)
  show ?thesis using ac tr sw fl nm by (simp add: parseSquares_def)
qed

lemma parseScore_line:
  "parseScore (''Score: '' @ show_nat n) = Inr (num_of n)"
proof -
  have nc: "CHR '':'' \<notin> set (CHR '' '' # show_nat n)"
    using numtext_no_colon [OF show_nat_numtext, of n] by simp
  have "after_colon (''Score'' @ CHR '':'' # (CHR '' '' # show_nat n)) = Some (CHR '' '' # show_nat n)"
    by (rule after_colon_line) (use nc in simp_all)
  then have ac: "after_colon (''Score: '' @ show_nat n) = Some (CHR '' '' # show_nat n)" by simp
  have tr: "trim (CHR '' '' # show_nat n) = show_nat n"
    using trim_show_nat [of n] by (simp add: trim_leading is_space_def)
  show ?thesis
    using ac tr by (simp add: parseScore_def Number_js_show_nat num_of_def isFinite_js_def Let_def)
qed

lemma first_turn_line:
  "mapLabel (turn_of_line (''First Turn: '' @ turn_label i)) = Inr i"
proof -
  have "mapLabel (turn_of_line (''First Turn: '' @ turn_label HUMAN)) = Inr HUMAN"
    by code_simp
  moreover have "mapLabel (turn_of_line (''First Turn: '' @ turn_label COMPUTER)) = Inr COMPUTER"
    by code_simp
  ultimately show ?thesis by (cases i) simp_all
qed

lemma next_turn_line:
  "mapLabel (turn_of_line (''Next Turn: '' @ turn_label i)) = Inr i"
proof -
  have "mapLabel (turn_of_line (''Next Turn: '' @ turn_label HUMAN)) = Inr HUMAN"
    by code_simp
  moreover have "mapLabel (turn_of_line (''Next Turn: '' @ turn_label COMPUTER)) = Inr COMPUTER"
    by code_simp
  ultimately show ?thesis by (cases i) simp_all
qed

lemma dropWhile_spaces: "\<forall>c\<in>set pre. is_space c \<Longrightarrow> dropWhile is_space (pre @ s) = dropWhile is_space s"
  by (induction pre) simp_all

lemma trim_spaces_token:
  assumes "\<forall>c\<in>set pre. is_space c" and "\<forall>c\<in>set post. is_space c" and "token x"
  shows "trim (pre @ x @ post) = x"
proof -
  have x: "x \<noteq> []" "\<not> is_space (hd x)" "\<not> is_space (last x)"
    using assms(3) by (auto simp add: token_def)
  have "dropWhile is_space (pre @ x @ post) = dropWhile is_space (x @ post)"
    using assms(1) by (rule dropWhile_spaces)
  also have "\<dots> = x @ post" using x by (cases x) simp_all
  finally have a: "dropWhile is_space (pre @ x @ post) = x @ post" .
  have "dropWhile is_space (rev post @ rev x) = dropWhile is_space (rev x)"
    using assms(2) by (intro dropWhile_spaces) simp
  also have "\<dots> = rev x" using x by (cases "rev x") (simp_all add: hd_rev)
  finally show ?thesis using a by (simp add: trim_def)
qed

lemma token_trim: "token x \<Longrightarrow> trim x = x"
  using trim_spaces_token [of "[]" "[]" x] by simp

lemma token_show_die: "token (show_die v)"
  by (cases v) (simp_all add: show_die_def token_show_nat, simp add: token_def is_space_def)

lemma token_append: "token a \<Longrightarrow> token b \<Longrightarrow> token (a @ b)"
  by (auto simp add: token_def)

lemma token_lit: "t \<noteq> [] \<Longrightarrow> list_all (\<lambda>c. \<not> is_space c) t \<Longrightarrow> token t"
  by (simp add: token_def list_all_iff)

lemma token_Cons: "\<not> is_space c \<Longrightarrow> (t = [] \<or> token t) \<Longrightarrow> token (c # t)"
  by (auto simp add: token_def)

subsubsection \<open>Phase\<close>

lemma meta_step_phase:
  assumes "token ph" and "CHR '':'' \<notin> set ph"
  shows "meta_step m (''# Phase: '' @ ph) = m\<lparr>phase_m := ph\<rparr>"
proof -
  have ph: "ph \<noteq> []" "\<not> is_space (last ph)" using assms(1) by (auto simp add: token_def)
  have body: "trim (drop 1 (''# Phase: '' @ ph)) = ''Phase: '' @ ph"
    using ph by (simp add: trim_leading trim_Cons_keep is_space_def)
  have "after_colon (''Phase'' @ CHR '':'' # (CHR '' '' # ph)) = Some (CHR '' '' # ph)"
    by (rule after_colon_line) (use assms(2) in simp_all)
  then have ac: "after_colon (''Phase: '' @ ph) = Some (CHR '' '' # ph)" by simp
  have tr: "trim (CHR '' '' # ph) = ph"
    using token_trim [OF assms(1)] by (simp add: trim_leading is_space_def)
  show ?thesis
    unfolding meta_step_def body Let_def using ac tr by simp
qed

subsubsection \<open>Dice\<close>

lemma to_lower_not_s:
  assumes "c \<noteq> CHR ''s''" and "c \<noteq> CHR ''S''"
  shows "to_lower c \<noteq> CHR ''s''"
proof
  assume a: "to_lower c = CHR ''s''"
  show False
  proof (cases "65 \<le> (of_char c :: nat) \<and> (of_char c :: nat) \<le> 90")
    case True
    then have "char_of ((of_char c :: nat) + 32) = CHR ''s''" using a by (simp add: to_lower_def)
    then have "(of_char (char_of ((of_char c :: nat) + 32)) :: nat) = of_char (CHR ''s'')"
      by simp
    then have "((of_char c :: nat) + 32) mod 256 = 115" by (simp add: of_char_of)
    then have "(of_char c :: nat) = 83" using True by simp
    then have "char_of (of_char c :: nat) = char_of (83 :: nat)" by simp
    moreover have "char_of (83 :: nat) = CHR ''S''" by code_simp
    ultimately have "c = CHR ''S''" by simp
    then show False using assms(2) by simp
  next
    case False
    then have "to_lower c = c" by (auto simp add: to_lower_def)
    then show False using a assms(1) by simp
  qed
qed

lemma match_sum_skip:
  "to_lower c \<noteq> CHR ''s'' \<Longrightarrow> match_sum (c # cs) = match_sum cs"
  by (simp add: toLowerCase_def)

lemma match_sum_skip_list:
  "\<forall>c\<in>set pre. to_lower c \<noteq> CHR ''s'' \<Longrightarrow> match_sum (pre @ rest) = match_sum rest"
  by (induction pre) (simp_all add: match_sum_skip del: match_sum.simps)

lemma show_die_no_s: "\<forall>c\<in>set (show_die v). to_lower c \<noteq> CHR ''s''"
proof (cases v)
  case None
  then show ?thesis by (simp add: show_die_def to_lower_not_s)
next
  case (Some n)
  have "to_lower c \<noteq> CHR ''s''" if "is_digit c" for c
    using that by (intro to_lower_not_s) (auto simp add: is_digit_def)
  then show ?thesis using Some show_nat_char by (auto simp add: show_die_def)
qed

lemma show_die_sum_class: "list_all sum_class (show_die v)"
  by (cases v) (auto simp add: show_die_def sum_class_def list_all_iff show_nat_char)

lemma show_die_nonempty: "show_die v \<noteq> []"
  using token_show_die [of v] by (simp add: token_def)

lemma takeWhile_all_then:
  "list_all P xs \<Longrightarrow> \<not> P y \<Longrightarrow> takeWhile P (xs @ y # ys) = xs"
  by (induction xs) simp_all

lemma match_sum_here:
  "match_sum (''sum='' @ show_die v @ '')'') = Some (show_die v)"
proof -
  have "takeWhile sum_class (show_die v @ CHR '')'' # []) = show_die v"
    by (rule takeWhile_all_then) (simp_all add: show_die_sum_class sum_class_def is_digit_def)
  then show ?thesis using show_die_nonempty [of v]
    by (simp add: toLowerCase_def to_lower_def)
qed

lemma match_sum_dice_body:
  "match_sum (''CurrentDice: '' @ show_die a @ '' '' @ show_die b @ '' (sum='' @ show_die c @ '')'')
   = Some (show_die c)"
proof -
  let ?pre = "''CurrentDice: '' @ show_die a @ '' '' @ show_die b @ '' (''"
  have pre: "\<forall>c\<in>set ?pre. to_lower c \<noteq> CHR ''s''"
    using show_die_no_s [of a] show_die_no_s [of b] by (auto simp add: to_lower_not_s)
  have "match_sum (?pre @ (''sum='' @ show_die c @ '')'')) = match_sum (''sum='' @ show_die c @ '')'')"
    using pre by (rule match_sum_skip_list)
  then show ?thesis using match_sum_here [of c] by simp
qed

lemma die_value: "(if show_die v = ''-'' then None else Some (Number_js (show_die v))) = map_option num_of v"
proof (cases v)
  case None
  then show ?thesis by (simp add: show_die_def)
next
  case (Some n)
  have "hd (show_nat n) \<in> set (show_nat n)" using show_nat_nonempty by simp
  then have "is_digit (hd (show_nat n))" by (rule show_nat_char)
  then have "hd (show_nat n) \<noteq> CHR ''-''" using is_digit_plain by blast
  then have "show_nat n \<noteq> ''-''" by auto
  then show ?thesis using Some by (simp add: show_die_def Number_js_show_nat num_of_def)
qed

lemma meta_step_dice:
  "meta_step m (''# CurrentDice: '' @ show_die a @ '' '' @ show_die b @ '' (sum=''
                 @ show_die c @ '')'')
   = m\<lparr>currentDice_m := \<lparr>d1_pd = map_option num_of a, d2_pd = map_option num_of b,
                           sum_pd = map_option num_of c\<rparr>\<rparr>"
proof -
  let ?A = "show_die a" and ?B = "show_die b" and ?C = "show_die c"
  let ?T = "''(sum='' @ ?C @ '')''"
  let ?body = "''CurrentDice: '' @ ?A @ '' '' @ ?B @ '' (sum='' @ ?C @ '')''"
  have body: "trim (drop 1 (''# CurrentDice: '' @ ?A @ '' '' @ ?B @ '' (sum='' @ ?C @ '')'')) = ?body"
    by (simp add: trim_leading trim_Cons_keep is_space_def)
  have tkT: "token ?T"
    using token_show_die [of c] by (auto simp add: token_def is_space_def)
  have tks: "\<forall>t\<in>set [?A, ?B, ?T]. token t" using tkT token_show_die by simp
  have j: "join '' '' [?A, ?B, ?T] = ?A @ '' '' @ ?B @ '' (sum='' @ ?C @ '')''" by simp
  have hdA: "?A \<noteq> []" "\<not> is_space (hd ?A)" using token_show_die [of a] by (auto simp add: token_def)
  have rest: "trim (drop (length ''CurrentDice:'') ?body) = join '' '' [?A, ?B, ?T]"
  proof -
    have "drop (length ''CurrentDice:'') ?body = CHR '' '' # join '' '' [?A, ?B, ?T]"
      by simp
    moreover have "trim (CHR '' '' # join '' '' [?A, ?B, ?T]) = trim (join '' '' [?A, ?B, ?T])"
      by (simp add: trim_leading is_space_def)
    moreover have "trim (join '' '' [?A, ?B, ?T]) = join '' '' [?A, ?B, ?T]"
    proof (rule trim_id)
      show "join '' '' [?A, ?B, ?T] \<noteq> []" by simp
      show "\<not> is_space (hd (join '' '' [?A, ?B, ?T]))" using hdA by simp
      show "\<not> is_space (last (join '' '' [?A, ?B, ?T]))" by (simp add: is_space_def)
    qed
    ultimately show ?thesis by (simp only:)
  qed
  have parts: "split_ws (join '' '' [?A, ?B, ?T]) = [?A, ?B, ?T]"
    by (rule split_ws_join) (use tks in simp_all)
  have sw: "\<not> startsWith ''Phase:'' ?body" "startsWith ''CurrentDice:'' ?body" by simp_all
  have ms: "match_sum ?body = Some ?C" by (rule match_sum_dice_body)
  have d1: "die_of_part (nth_opt [?A, ?B, ?T] 0) = map_option num_of a"
    using die_value [of a] by (simp add: die_of_part_def nth_opt_def)
  have d2: "die_of_part (nth_opt [?A, ?B, ?T] 1) = map_option num_of b"
    using die_value [of b] by (simp add: die_of_part_def nth_opt_def)
  show ?thesis
    unfolding meta_step_def body Let_def rest parts
    using sw ms d1 d2 die_value [of c] by (simp del: append.simps join.simps)
qed

subsubsection \<open>Lock\<close>

lemma token_id_text: "token (id_text i)"
  by (cases i) (simp_all add: id_text_def token_def is_space_def)

lemma token_unlocked: "token (''unlocked='' @ show_bool u)"
  by (simp add: show_bool_def token_def is_space_def)

lemma contains_true_unlocked: "contains_true (''unlocked='' @ show_bool u) = u"
proof -
  have "contains_true (''unlocked='' @ show_bool True) = True" by code_simp
  moreover have "contains_true (''unlocked='' @ show_bool False) = False" by code_simp
  ultimately show ?thesis by (cases u) simp_all
qed

lemma meta_step_lock:
  "meta_step m (''# AdvantageLock: '' @ id_text i @ '' '' @ show_nat n @ '' unlocked=''
                 @ show_bool u)
   = m\<lparr>advantageLock_m :=
         Some \<lparr>playerId_pl = id_text i, squareNumber_pl = num_of n, unlocked_pl = u\<rparr>\<rparr>"
proof -
  let ?I = "id_text i" and ?N = "show_nat n" and ?U = "''unlocked='' @ show_bool u"
  let ?body = "''AdvantageLock: '' @ ?I @ '' '' @ ?N @ '' unlocked='' @ show_bool u"
  have b: "show_bool u \<noteq> [] \<and> \<not> is_space (last (show_bool u))"
    by (simp add: show_bool_def is_space_def)
  have body: "trim (drop 1 (''# AdvantageLock: '' @ ?I @ '' '' @ ?N @ '' unlocked='' @ show_bool u))
              = ?body"
    using b by (simp add: trim_leading trim_Cons_keep is_space_def)
  have tks: "\<forall>t\<in>set [?I, ?N, ?U]. token t"
    using token_id_text token_show_nat token_unlocked by simp
  have j: "join '' '' [?I, ?N, ?U] = ?I @ '' '' @ ?N @ '' unlocked='' @ show_bool u" by simp
  have hdI: "?I \<noteq> []" "\<not> is_space (hd ?I)" using token_id_text [of i] by (auto simp add: token_def)
  have rest: "trim (drop (length ''AdvantageLock:'') ?body) = join '' '' [?I, ?N, ?U]"
  proof -
    have "drop (length ''AdvantageLock:'') ?body = CHR '' '' # join '' '' [?I, ?N, ?U]"
      by simp
    moreover have "trim (CHR '' '' # join '' '' [?I, ?N, ?U]) = trim (join '' '' [?I, ?N, ?U])"
      by (simp add: trim_leading is_space_def)
    moreover have "trim (join '' '' [?I, ?N, ?U]) = join '' '' [?I, ?N, ?U]"
    proof (rule trim_id)
      show "join '' '' [?I, ?N, ?U] \<noteq> []" by simp
      show "\<not> is_space (hd (join '' '' [?I, ?N, ?U]))" using hdI by simp
      show "\<not> is_space (last (join '' '' [?I, ?N, ?U]))" using b by simp
    qed
    ultimately show ?thesis by (simp only:)
  qed
  have parts: "split_ws (join '' '' [?I, ?N, ?U]) = [?I, ?N, ?U]"
    by (rule split_ws_join) (use tks in simp_all)
  have sw: "\<not> startsWith ''Phase:'' ?body" "\<not> startsWith ''CurrentDice:'' ?body"
    "startsWith ''AdvantageLock:'' ?body" by simp_all
  show ?thesis
    unfolding meta_step_def body Let_def rest parts
    using sw contains_true_unlocked [of u]
    by (simp add: Number_js_show_nat num_of_def del: append.simps join.simps)
qed

subsubsection \<open>Queue\<close>

lemma show_nat_no_comma: "CHR '','' \<notin> set (show_nat n)"
  using show_nat_char is_digit_plain by blast

lemma parse_queued_show:
  "parse_queued (show_queued q) = (num_of (qd1 q), map_option num_of (qd2 q))"
proof (cases "qd2 q")
  case None
  have "split_char_from (CHR '','') [] (show_nat (qd1 q)) = [rev [] @ show_nat (qd1 q)]"
    using show_nat_no_comma by (rule split_char_from_none)
  then have "split_char (CHR '','') (show_nat (qd1 q)) = [show_nat (qd1 q)]"
    by (simp add: split_char_def)
  then show ?thesis using None
    by (simp add: parse_queued_def show_queued_def trim_show_nat Number_js_show_nat num_of_def)
next
  case (Some w)
  have "split_char_from (CHR '','') [] (show_nat (qd1 q) @ CHR '','' # show_nat w)
        = (rev [] @ show_nat (qd1 q)) # split_char_from (CHR '','') [] (show_nat w)"
    using show_nat_no_comma by (rule split_char_from_sep)
  moreover have "split_char_from (CHR '','') [] (show_nat w) = [rev [] @ show_nat w]"
    using show_nat_no_comma by (rule split_char_from_none)
  ultimately have "split_char (CHR '','') (show_nat (qd1 q) @ '','' @ show_nat w)
        = [show_nat (qd1 q), show_nat w]"
    by (simp add: split_char_def)
  then show ?thesis using Some
    by (simp add: parse_queued_def show_queued_def trim_show_nat Number_js_show_nat num_of_def)
qed

lemma token_no_bar: "token t \<Longrightarrow> CHR ''|'' \<notin> set t \<Longrightarrow> qtoken t"
  by (simp add: qtoken_def)

lemma show_nat_no_bar: "CHR ''|'' \<notin> set (show_nat n)"
  using show_nat_char is_digit_plain by blast

lemma qtoken_show_queued: "qtoken (show_queued q)"
proof (cases "qd2 q")
  case None
  then show ?thesis
    using token_show_nat show_nat_no_bar by (simp add: show_queued_def qtoken_def)
next
  case (Some w)
  have c: "token '',''" by (simp add: token_def is_space_def)
  have "token (show_nat (qd1 q) @ '','' @ show_nat w)"
    by (intro token_append token_show_nat c)
  moreover have "CHR ''|'' \<notin> set (show_nat (qd1 q) @ '','' @ show_nat w)"
    using show_nat_no_bar by simp
  ultimately show ?thesis using Some by (simp add: show_queued_def qtoken_def)
qed

lemma split_bar_join:
  assumes "xs \<noteq> []" and "\<forall>x\<in>set xs. qtoken x" and "\<forall>c\<in>set pre. is_space c"
    and "CHR ''|'' \<notin> set pre"
  shows "map trim (split_char_from (CHR ''|'') (rev pre) (join '' | '' xs)) = xs"
  using assms
proof (induction xs arbitrary: pre)
  case Nil
  then show ?case by simp
next
  case (Cons x xs)
  have x: "token x" "CHR ''|'' \<notin> set x" using Cons.prems(2) by (simp_all add: qtoken_def)
  show ?case
  proof (cases xs)
    case Nil
    have "split_char_from (CHR ''|'') (rev pre) x = [rev (rev pre) @ x]"
      using x(2) by (rule split_char_from_none)
    moreover have "trim (pre @ x @ []) = x"
      using Cons.prems(3) _ x(1) by (rule trim_spaces_token) simp
    ultimately show ?thesis using Nil by simp
  next
    case (Cons y ys)
    then have ne: "xs \<noteq> []" by simp
    have j: "join '' | '' (x # xs) = (x @ '' '') @ CHR ''|'' # (CHR '' '' # join '' | '' xs)"
      using ne by (simp add: join_Cons)
    have nb: "CHR ''|'' \<notin> set (x @ '' '')" using x(2) by simp
    have "split_char_from (CHR ''|'') (rev pre) ((x @ '' '') @ CHR ''|'' # (CHR '' '' # join '' | '' xs))
          = (rev (rev pre) @ (x @ '' '')) # split_char_from (CHR ''|'') [] (CHR '' '' # join '' | '' xs)"
      using nb by (rule split_char_from_sep)
    moreover have "split_char_from (CHR ''|'') [] (CHR '' '' # join '' | '' xs)
          = split_char_from (CHR ''|'') (rev '' '') (join '' | '' xs)"
      by simp
    moreover have "map trim (split_char_from (CHR ''|'') (rev '' '') (join '' | '' xs)) = xs"
      by (rule Cons.IH [OF ne]) (use Cons.prems(2) in \<open>simp_all add: is_space_def\<close>)
    moreover have "trim (pre @ x @ '' '') = x"
      using Cons.prems(3) _ x(1) by (rule trim_spaces_token) (simp add: is_space_def)
    ultimately show ?thesis unfolding j by simp
  qed
qed

lemma meta_step_queue:
  assumes "qs \<noteq> []"
  shows "meta_step m (''# QueuedRolls: '' @ join '' | '' (map show_queued qs))
         = m\<lparr>queuedRolls_m := map (\<lambda>q. (num_of (qd1 q), map_option num_of (qd2 q))) qs\<rparr>"
proof -
  let ?J = "join '' | '' (map show_queued qs)"
  let ?body = "''QueuedRolls: '' @ ?J"
  have ne: "map show_queued qs \<noteq> []" using assms by simp
  have qt: "\<forall>x\<in>set (map show_queued qs). qtoken x" using qtoken_show_queued by auto
  have J: "?J \<noteq> []" "\<not> is_space (last ?J)" using queue_text [OF assms] by blast+
  have hdJ: "\<not> is_space (hd ?J)"
  proof -
    have "hd ?J = hd (hd (map show_queued qs))"
      using ne last_show_queued by (intro join_hd) (simp_all add: hd_map assms)
    moreover have "token (show_queued (hd qs))" using qtoken_show_queued by (simp add: qtoken_def)
    ultimately show ?thesis using assms by (simp add: hd_map token_def)
  qed
  have body: "trim (drop 1 (''# QueuedRolls: '' @ ?J)) = ?body"
    using J by (simp add: trim_leading trim_Cons_keep is_space_def)
  have payload: "trim (drop (length ''QueuedRolls:'') ?body) = ?J"
  proof -
    have "drop (length ''QueuedRolls:'') ?body = CHR '' '' # ?J" by simp
    moreover have "trim (CHR '' '' # ?J) = trim ?J" by (simp add: trim_leading is_space_def)
    moreover have "trim ?J = ?J" using J(1) hdJ J(2) by (rule trim_id)
    ultimately show ?thesis by (simp only:)
  qed
  have "map trim (split_char_from (CHR ''|'') (rev []) ?J) = map show_queued qs"
    using ne qt by (rule split_bar_join) simp_all
  then have pieces: "map trim (split_char (CHR ''|'') ?J) = map show_queued qs"
    by (simp add: split_char_def)
  have fl: "filter (\<lambda>s. s \<noteq> []) (map show_queued qs) = map show_queued qs"
    using last_show_queued by (simp add: filter_id_conv)
  have pq: "map parse_queued (map show_queued qs)
            = map (\<lambda>q. (num_of (qd1 q), map_option num_of (qd2 q))) qs"
    by (simp add: parse_queued_show)
  have sw: "\<not> startsWith ''Phase:'' ?body" "\<not> startsWith ''CurrentDice:'' ?body"
    "\<not> startsWith ''AdvantageLock:'' ?body" "startsWith ''QueuedRolls:'' ?body" by simp_all
  show ?thesis
    unfolding meta_step_def body Let_def payload pieces fl pq
    using sw by (simp del: append.simps join.simps)
qed

lemma meta_lines_start: "list_all (startsWith ''#'') (meta_lines p)"
  by (cases "advantageLock_sp p") (simp_all add: meta_lines_def)

lemma filter_all: "list_all P xs \<Longrightarrow> filter P xs = xs"
  by (induction xs) simp_all

lemma filter_meta_lines:
  "filter (startsWith ''#'') (trimmed_lines p) = meta_lines p"
  using filter_all [OF meta_lines_start, of p] by (simp add: trimmed_lines_def)

lemma fold_meta_lines:
  assumes "params_ok p"
  shows "foldl meta_step meta_default (meta_lines p)
         = \<lparr>phase_m = phase_sp p,
            currentDice_m =
              \<lparr>d1_pd = map_option num_of (d1 (currentDice_sp p)),
               d2_pd = map_option num_of (d2 (currentDice_sp p)),
               sum_pd = map_option num_of (sum_r (currentDice_sp p))\<rparr>,
            advantageLock_m =
              map_option
                (\<lambda>l. \<lparr>playerId_pl = id_text (playerId l),
                       squareNumber_pl = num_of (squareNumber l), unlocked_pl = unlocked l\<rparr>)
                (advantageLock_sp p),
            queuedRolls_m =
              map (\<lambda>q. (num_of (qd1 q), map_option num_of (qd2 q))) (queuedRolls_sp p)\<rparr>"
proof -
  have ph: "token (phase_sp p)" "CHR '':'' \<notin> set (phase_sp p)"
    using assms by (auto simp add: params_ok_def token_def is_space_def)
  note st = meta_step_phase [OF ph] meta_step_dice meta_step_lock meta_step_queue
  show ?thesis
  proof (cases "advantageLock_sp p")
    case None
    show ?thesis
    proof (cases "queuedRolls_sp p = []")
      case True
      then show ?thesis using None
        by (simp add: meta_lines_def st meta_default_def del: append.simps)
    next
      case False
      then show ?thesis using None
        by (simp add: meta_lines_def st meta_default_def del: append.simps)
    qed
  next
    case (Some l)
    then have sq: "squareNumber l \<noteq> 0" using assms by (simp add: params_ok_def)
    show ?thesis
    proof (cases "queuedRolls_sp p = []")
      case True
      then show ?thesis using Some sq
        by (simp add: meta_lines_def st meta_default_def del: append.simps)
    next
      case False
      then show ?thesis using Some sq
        by (simp add: meta_lines_def st meta_default_def del: append.simps)
    qed
  qed
qed

lemma parsed_lines:
  assumes "params_ok p"
  shows "map trim (split_lines (serializeSnapshot p)) = trimmed_lines p"
proof -
  have "split_lines (unlines (snapshot_lines p)) = snapshot_lines p @ [[]]"
    using snapshot_lines_inline [OF assms] by (rule split_lines_unlines)
  then show ?thesis using trim_snapshot_lines [OF assms] by (simp add: serializeSnapshot_lines)
qed

text \<open>
  The lock of a constructed round is on a square of the board.
\<close>

lemma applyAdvantageIfAny_lock:
  assumes "applyAdvantageIfAny r = (None, r1)" and "advantageLock r = None"
    and "advantageLock r1 = Some l"
  shows "1 \<le> squareNumber l \<and> squareNumber l \<le> boardSize r"
  using assms
  by (cases "playerId_i (the (advantageInfo r))")
     (auto simp add: applyAdvantageIfAny_def Let_def set_board_def
           split: option.splits if_splits prod.splits)

lemma new_GameRound_lock:
  assumes "new_GameRound bs hp cp fp adv = Inr r" and "advantageLock r = Some l"
  shows "1 \<le> squareNumber l \<and> squareNumber l \<le> bs"
proof -
  from assms(1) have bs: "\<not> bs < 1" by (auto simp add: new_GameRound_def split: if_splits)
  then obtain b0 where b0: "new_Board bs = Inr b0" by (auto simp add: new_Board_def)
  let ?r0 = "\<lparr>boardSize = bs,
                        human = hp\<lparr>board_p := b0\<rparr>,
                        computer = cp\<lparr>board_p := b0\<rparr>,
                        firstPlayerId = fp, currentPlayerId = fp,
                        advantageInfo = adv, advantageLock = None,
                        roundOver = False, roundWinnerId = None, winType = None,
                        roundScore = 0,
                        humanEverCovered = False, computerEverCovered = False\<rparr>"
  obtain e r1 where a: "applyAdvantageIfAny ?r0 = (e, r1)"
    by (cases "applyAdvantageIfAny ?r0")
  have e: "e = None" using assms(1) bs b0 a by (cases e) (simp_all add: new_GameRound_def Let_def)
  have r: "advantageLock r = advantageLock r1"
    using assms(1) bs b0 a e by (auto simp add: new_GameRound_def Let_def)
  have "1 \<le> squareNumber l \<and> squareNumber l \<le> boardSize ?r0"
    by (rule applyAdvantageIfAny_lock [OF a [unfolded e]]) (use assms(2) r in simp_all)
  then show ?thesis by simp
qed

text \<open>
  The parser undoes the serializer on the arguments \<open>params_ok\<close> describes.
\<close>

lemma parseSnapshot_serializeSnapshot:
  assumes "params_ok p"
  shows "parseSnapshot (serializeSnapshot p) = Inr (expected_parse p)"
proof -
  let ?ca = "toNumberArrayFormat (computerBoard_sp p)"
  let ?ha = "toNumberArrayFormat (humanBoard_sp p)"
  let ?csq = "''Squares: '' @ join '' '' (map show_nat ?ca)"
  let ?hsq = "''Squares: '' @ join '' '' (map show_nat ?ha)"
  let ?csc = "''Score: '' @ show_nat (computerScore_sp p)"
  let ?hsc = "''Score: '' @ show_nat (humanScore_sp p)"
  let ?ft = "''First Turn: '' @ turn_label (firstTurnId_sp p)"
  let ?nt = "''Next Turn: '' @ turn_label (nextTurnId_sp p)"
  let ?L = "trimmed_lines p"
  have c: "?ca \<noteq> []" and h: "?ha \<noteq> []"
    using assms by (simp_all add: params_ok_def toNumberArrayFormat_nonempty)
  have lines: "map trim (split_lines (serializeSnapshot p)) = ?L"
    using assms by (rule parsed_lines)
  have f1: "findLine ?L ''Squares:'' = Inr ?csq"
    by (simp add: findLine_def trimmed_lines_def)
  have f2: "findLine ?L ''Score:'' = Inr ?csc"
    by (simp add: findLine_def trimmed_lines_def)
  have f3: "list_ex (\<lambda>l. l = ''Human:'') ?L"
    by (simp add: trimmed_lines_def)
  have f4: "tl (dropWhile (\<lambda>l. l \<noteq> ''Human:'') ?L)
            = [?hsq, ?hsc, '''', ?ft, ?nt, ''''] @ meta_lines p @ ['''']"
    by (simp add: trimmed_lines_def)
  have f5: "find (startsWith ''Squares:'')
              ([?hsq, ?hsc, '''', ?ft, ?nt, ''''] @ meta_lines p @ ['''']) = Some ?hsq"
    by simp
  have f6: "find (startsWith ''Score:'')
              ([?hsq, ?hsc, '''', ?ft, ?nt, ''''] @ meta_lines p @ ['''']) = Some ?hsc"
    by simp
  have f7: "findLine ?L ''First Turn:'' = Inr ?ft"
    by (simp add: findLine_def trimmed_lines_def)
  have f8: "findLine ?L ''Next Turn:'' = Inr ?nt"
    by (simp add: findLine_def trimmed_lines_def)
  have p1: "parseSquares ?csq = Inr (map num_of ?ca)" using c by (rule parseSquares_line)
  have p2: "parseSquares ?hsq = Inr (map num_of ?ha)" using h by (rule parseSquares_line)
  have p3: "parseScore ?csc = Inr (num_of (computerScore_sp p))" by (rule parseScore_line)
  have p4: "parseScore ?hsc = Inr (num_of (humanScore_sp p))" by (rule parseScore_line)
  have p5: "mapLabel (turn_of_line ?ft) = Inr (firstTurnId_sp p)" by (rule first_turn_line)
  have p6: "mapLabel (turn_of_line ?nt) = Inr (nextTurnId_sp p)" by (rule next_turn_line)
  have m: "filter (startsWith ''#'') ?L = meta_lines p" by (rule filter_meta_lines)
  note fm = fold_meta_lines [OF assms]
  have "parseSnapshot (serializeSnapshot p) =
        Inr \<lparr>computerSquares_ps = map num_of ?ca, humanSquares_ps = map num_of ?ha,
             computerScore_ps = num_of (computerScore_sp p),
             humanScore_ps = num_of (humanScore_sp p),
             firstTurnId_ps = firstTurnId_sp p, nextTurnId_ps = nextTurnId_sp p,
             phase_ps = phase_m (foldl meta_step meta_default (meta_lines p)),
             currentDice_ps = currentDice_m (foldl meta_step meta_default (meta_lines p)),
             advantageLock_ps = advantageLock_m (foldl meta_step meta_default (meta_lines p)),
             queuedRolls_ps = queuedRolls_m (foldl meta_step meta_default (meta_lines p))\<rparr>"
    using f3
    by (simp only: parseSnapshot_def lines Let_def f1 f2 f4 f5 f6 f7 f8 p1 p2 p3 p4 p5 p6 m
                   sum.case option.case prod.case simp_thms if_True if_False)
  then show ?thesis by (simp add: fm expected_parse_def)
qed

text \<open>
  Every operation of the session keeps \<open>save_inv\<close>, so the arguments the session
  passes to the serializer satisfy \<open>params_ok\<close> as far as their numbers are safe
  integers.
\<close>

lemma set_board_lock: "advantageLock (set_board i b r) = advantageLock r"
  by (cases i) (simp_all add: set_board_def)

lemma checkForRoundEnd_lock: "advantageLock (checkForRoundEnd r) = advantageLock r"
  by (simp add: checkForRoundEnd_def Let_def set_player_def
           split: option.splits prod.splits player_id.splits)

lemma applyCoverMove_lock: "advantageLock (snd (applyCoverMove pid sq r)) = advantageLock r"
  by (simp add: applyCoverMove_def Let_def set_board_lock checkForRoundEnd_lock
           split: prod.splits option.splits)

lemma applyUncoverMove_lock: "advantageLock (snd (applyUncoverMove pid sq r)) = advantageLock r"
  by (simp add: applyUncoverMove_def Let_def set_board_lock checkForRoundEnd_lock
           split: prod.splits option.splits)

lemma notifyTurnEnded_lock:
  "lock_ok (advantageLock (notifyTurnEnded pid r)) = lock_ok (advantageLock r)"
  by (simp add: notifyTurnEnded_def lock_ok_def split: option.splits)

lemma switchTurn_lock: "advantageLock (switchTurn r) = advantageLock r"
  by (simp add: switchTurn_def)

lemma save_inv_new: "save_inv new_GameSession"
  by (simp add: save_inv_def new_GameSession_def)

lemma save_inv_round:
  "save_inv s \<Longrightarrow> currentRound_s s = Some r \<Longrightarrow> lock_ok (advantageLock r) \<and> round_phase (phase s)"
  by (simp add: save_inv_def)

lemma save_inv_put_round:
  "save_inv s \<Longrightarrow> round_phase (phase s) \<Longrightarrow> lock_ok (advantageLock r) \<Longrightarrow>
     save_inv (put_round r s)"
  by (simp add: save_inv_def put_round_def split: option.splits)

lemma put_round_phase: "phase (put_round r s) = phase s"
  by (simp add: put_round_def)

lemma save_inv_pushHistory: "save_inv s \<Longrightarrow> save_inv (pushHistory lbl la s)"
  by (auto simp add: save_inv_def pushHistory_def captureSnapshot_def
           split: option.splits)

lemma pushHistory_phase: "phase (pushHistory lbl la s) = phase s"
  by (simp add: pushHistory_def split: option.splits)

lemma save_inv_phase:
  "save_inv s \<Longrightarrow> round_phase p \<Longrightarrow> save_inv (s\<lparr>phase := p\<rparr>)"
  by (simp add: save_inv_def split: option.splits)

lemma save_inv_fields:
  "save_inv (s\<lparr>currentDice := d\<rparr>) = save_inv s"
  "save_inv (s\<lparr>currentPlayerId_s := c\<rparr>) = save_inv s"
  "save_inv (s\<lparr>queuedRolls := q\<rparr>) = save_inv s"
  "save_inv (s\<lparr>gameMode := m\<rparr>) = save_inv s"
  by (simp_all add: save_inv_def split: option.splits)

lemma round_phase_simps:
  "round_phase ''awaitingRoll''" "round_phase ''awaitingMove''" "round_phase ''roundOver''"
  by (simp_all add: round_phase_def)

lemma save_inv_round_is_over: "save_inv s \<Longrightarrow> save_inv (round_is_over s)"
  by (simp add: save_inv_def round_is_over_def round_phase_simps split: option.splits)

lemma save_inv_awaitingRoll:
  "save_inv s \<Longrightarrow> save_inv (s\<lparr>currentDice := d, phase := ''awaitingRoll''\<rparr>)"
  by (simp add: save_inv_def round_phase_simps split: option.splits)

lemma save_inv_turn:
  "save_inv s \<Longrightarrow>
     save_inv (s\<lparr>currentPlayerId_s := c, currentDice := d, phase := ''awaitingRoll''\<rparr>)"
  by (simp add: save_inv_def round_phase_simps split: option.splits)

lemma save_inv_endTurn: "save_inv s \<Longrightarrow> save_inv (snd (endTurn s))"
proof -
  assume inv: "save_inv s"
  show ?thesis
  proof (cases "currentRound_s s")
    case None
    then show ?thesis using inv by (simp add: endTurn_def)
  next
    case (Some r)
    have ok: "lock_ok (advantageLock r)" "round_phase (phase s)"
      using save_inv_round [OF inv Some] by blast+
    let ?r1 = "notifyTurnEnded (currentPlayerId_s s) r"
    have l1: "lock_ok (advantageLock ?r1)" using ok by (simp add: notifyTurnEnded_lock)
    have i1: "save_inv (put_round ?r1 s)" using inv ok(2) l1 by (rule save_inv_put_round)
    have l2: "lock_ok (advantageLock (switchTurn ?r1))" using l1 by (simp add: switchTurn_lock)
    have i2: "save_inv (put_round (switchTurn ?r1) (put_round ?r1 s))"
      using i1 _ l2 by (rule save_inv_put_round) (simp add: put_round_phase ok)
    show ?thesis using Some i1 i2
      by (simp add: endTurn_def Let_def save_inv_round_is_over save_inv_turn)
  qed
qed

lemma save_inv_applyHumanMove:
  "save_inv s \<Longrightarrow> save_inv (snd (applyHumanMove moveType sel s))"
proof -
  assume inv: "save_inv s"
  show ?thesis
  proof (cases "currentRound_s s")
    case None
    then show ?thesis using inv by (simp add: applyHumanMove_def)
  next
    case (Some r)
    have ok: "lock_ok (advantageLock r)" "round_phase (phase s)"
      using save_inv_round [OF inv Some] by blast+
    have c: "save_inv (put_round r' s)"
      if "(if moveType = act_cover then applyCoverMove (currentPlayerId_s s) sel r
           else applyUncoverMove (currentPlayerId_s s) sel r) = (e, r')" for e r'
    proof -
      have "advantageLock r' = advantageLock r"
        using that applyCoverMove_lock [of "currentPlayerId_s s" sel r]
              applyUncoverMove_lock [of "currentPlayerId_s s" sel r]
        by (auto split: if_splits)
      then show ?thesis using inv ok by (simp add: save_inv_put_round)
    qed
    show ?thesis using Some inv c
      by (auto simp add: applyHumanMove_def Let_def save_inv_round_is_over
                         save_inv_awaitingRoll save_inv_pushHistory
               split: option.splits prod.splits)
  qed
qed

lemma save_inv_computerHasNoMoves:
  assumes inv: "save_inv s1" and ph: "round_phase (phase s1)" and ok: "lock_ok (advantageLock r)"
  shows "save_inv (snd (computerHasNoMoves pid rollInfo r s1))"
proof -
  let ?r1 = "notifyTurnEnded pid r"
  have l1: "lock_ok (advantageLock ?r1)" using ok by (simp add: notifyTurnEnded_lock)
  have i2: "save_inv (put_round ?r1 s1)" using inv ph l1 by (rule save_inv_put_round)
  have l2: "lock_ok (advantageLock (switchTurn ?r1))" using l1 by (simp add: switchTurn_lock)
  have i3: "save_inv (put_round (switchTurn ?r1) (put_round ?r1 s1))"
    using i2 _ l2 by (rule save_inv_put_round) (simp add: put_round_phase ph)
  show ?thesis
  proof (cases "roundOver ?r1")
    case True
    then show ?thesis using i2
      by (simp add: computerHasNoMoves_def Let_def save_inv_pushHistory
                    save_inv_round_is_over)
  next
    case False
    then show ?thesis using i3
      by (simp add: computerHasNoMoves_def Let_def save_inv_turn)
  qed
qed

lemma save_inv_computerMoves:
  assumes inv: "save_inv s1" and ph: "round_phase (phase s1)" and ok: "lock_ok (advantageLock r)"
  shows "save_inv (snd (computerMoves pid diceTotal rollInfo r s1))"
proof -
  define decision where "decision = decideMove r pid diceTotal"
  define chosen where "chosen = (case squares decision of None \<Rightarrow> [] | Some sq \<Rightarrow> sq)"
  define res where "res = (if action_d decision = act_cover then applyCoverMove pid chosen r
               else if action_d decision = act_uncover then applyUncoverMove pid chosen r
               else (None, r))"
  define s3 where "s3 = pushHistory
                (MoveLabel (getPlayerDisplayName (put_round (snd res) s1) pid)
                   (action_d decision) chosen)
                (Some \<lparr>playerId_la = pid, action_la = action_d decision,
                       squares_la = chosen, roll_la = rollInfo\<rparr>) (put_round (snd res) s1)"
  note unf = computerMoves_unfold [OF decision_def chosen_def res_def s3_def]
  have "advantageLock (snd res) = advantageLock r"
    using applyCoverMove_lock [of pid chosen r] applyUncoverMove_lock [of pid chosen r]
    by (auto simp add: res_def split: if_splits)
  then have ok': "lock_ok (advantageLock (snd res))" using ok by simp
  have i2: "save_inv (put_round (snd res) s1)" using inv ph ok' by (rule save_inv_put_round)
  have i3: "save_inv s3" unfolding s3_def using i2 by (rule save_inv_pushHistory)
  have ph3: "round_phase (phase s3)"
    unfolding s3_def using ph by (simp add: pushHistory_phase put_round_phase)
  have ok'': "lock_ok (advantageLock (notifyTurnEnded pid (snd res)))"
    using ok' by (simp add: notifyTurnEnded_lock)
  have i4: "save_inv (round_is_over (put_round (notifyTurnEnded pid (snd res)) s3))"
    using i3 ph3 ok'' by (simp add: save_inv_put_round save_inv_round_is_over)
  show ?thesis
    unfolding unf using i2 i3 i4 by (simp add: save_inv_awaitingRoll split: option.splits)
qed

lemma save_inv_handleManualRoll:
  assumes inv: "save_inv s"
  shows "save_inv (snd (handleManualRoll numDice vals s))"
proof (cases "currentRound_s s")
  case None
  then show ?thesis using inv by (simp add: handleManualRoll_def)
next
  case (Some r)
  have ok: "lock_ok (advantageLock r)" "round_phase (phase s)"
    using save_inv_round [OF inv Some] by blast+
  have dice: "save_inv (s\<lparr>currentDice := d\<rparr>)" for d
    using inv by (simp add: save_inv_fields)
  have a: "save_inv (snd (computerHasNoMoves pid rollInfo r (s\<lparr>currentDice := d\<rparr>)))"
    for pid rollInfo d
    using dice _ ok(1) by (rule save_inv_computerHasNoMoves) (simp add: ok)
  have b: "save_inv (snd (computerMoves pid t rollInfo r (s\<lparr>currentDice := d\<rparr>)))"
    for pid t rollInfo d
    using dice _ ok(1) by (rule save_inv_computerMoves) (simp add: ok)
  have m: "save_inv (s\<lparr>currentDice := d, phase := ''awaitingMove''\<rparr>)" for d
    using inv by (simp add: save_inv_def round_phase_simps split: option.splits)
  show ?thesis
    using Some inv a b m dice
    by (simp add: handleManualRoll_def Let_def)
qed

lemma captureSnapshot_lock:
  "captureSnapshot la s = Some snap \<Longrightarrow>
     \<exists>r. currentRound_s s = Some r \<and> advantageLock r = advantageLock_rs (round_sn snap)"
  by (auto simp add: captureSnapshot_def split: option.splits)

lemma save_inv_rewindTo:
  assumes "session_inv s" and "save_inv s"
  shows "save_inv (snd (rewindTo i s))"
proof (cases "i < 0 \<or> i \<ge> int (length (history s))")
  case True
  then show ?thesis using assms by (simp add: rewindTo_def)
next
  case False
  let ?snap = "snapshot_h (history s ! nat i)"
  have lt: "nat i < length (history s)" using False by linarith
  then have ok: "snapshot_ok ?snap" using assms(1) by (simp add: session_inv_def list_all_length)
  have lk: "lock_ok (advantageLock_rs (round_sn ?snap))"
    using assms(2) lt by (simp add: save_inv_def list_all_length)
  obtain e s1 where r: "restoreSnapshot ?snap s = (e, s1)"
    by (cases "restoreSnapshot ?snap s")
  have e: "e = None" using restoreSnapshot_ok [OF ok, of s None] r by simp
  have cap: "captureSnapshot None s1 = Some (?snap\<lparr>lastAction_sn := None\<rparr>)"
    using restoreSnapshot_ok [OF ok, of s None] r by simp
  have h: "history s1 = history s" using restoreSnapshot_history [of ?snap s] r by simp
  from captureSnapshot_lock [OF cap]
  obtain r1 where cr: "currentRound_s s1 = Some r1"
    and l1: "advantageLock r1 = advantageLock_rs (round_sn ?snap)"
    by auto
  have "save_inv (s1\<lparr>phase := ''awaitingRoll'', currentDice := no_dice\<rparr>)"
    using cr l1 lk h assms(2) by (simp add: save_inv_def round_phase_simps)
  then show ?thesis using False r e by (simp add: rewindTo_def Let_def)
qed

lemma save_inv_tournament: "save_inv (s\<lparr>tournament_s := x\<rparr>) = save_inv s"
  by (simp add: save_inv_def split: option.splits)

lemma save_inv_startNewRound:
  assumes inv: "save_inv s"
  shows "save_inv (snd (startNewRound bs fp s))"
proof -
  let ?s = "if tournament_s s = None then resetTournament s else s"
  obtain t where t: "tournament_s ?s = Some t"
    by (cases "tournament_s s") (auto simp add: resetTournament_def)
  let ?t1 = "t\<lparr>roundNumber := roundNumber t + 1\<rparr>"
  have inv0: "save_inv ?s" using inv by (simp add: save_inv_def resetTournament_def)
  show ?thesis
  proof (cases "bs < 1")
    case True
    then have "new_GameRound bs (human_t ?t1) (computer_t ?t1) fp (nextRoundAdvantage ?t1)
               = Inl BadBoardSize" by (simp add: new_GameRound_def)
    then have "snd (startNewRound bs fp s) = ?s\<lparr>tournament_s := Some ?t1\<rparr>"
      using t by (simp add: startNewRound_def startNewRound_t_def Let_def)
    moreover have "save_inv (?s\<lparr>tournament_s := Some ?t1\<rparr>)"
      using inv0 by (simp only: save_inv_tournament)
    ultimately show ?thesis by simp
  next
    case False
    then have "1 \<le> bs" by simp
    from new_GameRound_ok [OF this, of "human_t ?t1" "computer_t ?t1" fp "nextRoundAdvantage ?t1"]
    obtain r where
      r: "new_GameRound bs (human_t ?t1) (computer_t ?t1) fp (nextRoundAdvantage ?t1) = Inr r"
      by blast
    have lk: "lock_ok (advantageLock r)"
      using new_GameRound_lock [OF r] by (auto simp add: lock_ok_def split: option.splits)
    let ?t2 = "?t1\<lparr>human_t := human r, computer_t := computer r, currentRound := Some r\<rparr>"
    let ?s2 = "?s\<lparr>tournament_s := Some ?t2, currentRound_s := Some r,
                   currentPlayerId_s := currentPlayerId r,
                   phase := ''awaitingRoll'', currentDice := no_dice,
                   history := [], queuedRolls := []\<rparr>"
    have inv2: "save_inv ?s2" using lk by (simp add: save_inv_def round_phase_simps)
    have "snd (startNewRound bs fp s)
          = pushHistory (RoundStartLabel (roundNumber ?t2) (getPlayerDisplayName ?s2 fp)) None ?s2"
      using t r by (simp add: startNewRound_def startNewRound_t_def Let_def)
    then show ?thesis using inv2 by (simp add: save_inv_pushHistory)
  qed
qed

lemma getSnapshotText_params:
  "currentRound_s s = Some r \<Longrightarrow>
     getSnapshotText s = Inr (serializeSnapshot (snapshot_params s r))"
  by (simp add: getSnapshotText_def snapshot_params_def)

lemma snapshot_params_ok:
  assumes "session_inv s" and "save_inv s" and "currentRound_s s = Some r"
    and "numbers_safe (snapshot_params s r)"
  shows "params_ok (snapshot_params s r)"
proof -
  have sz: "round_sizes_ok r" using assms(1,3) by (rule session_inv_round)
  have lk: "lock_ok (advantageLock r)" "round_phase (phase s)"
    using save_inv_round [OF assms(2,3)] by blast+
  show ?thesis
    using sz lk assms(4)
    by (auto simp add: params_ok_def numbers_safe_def snapshot_params_def round_sizes_ok_def
                       lock_ok_def round_phase_def
             split: option.splits)
qed

text \<open>
  Claim C5. For every state of a round in play or finished (\<open>params_ok\<close>),
  \<open>parseSnapshot\<close> applied to the text \<open>serializeSnapshot\<close> returns raises no
  error and returns the board arrays, the scores, the first and the next turn, the
  phase, the pending dice, the advantage lock and the queued rolls of the state. The
  states of a session that the operations build (\<open>session_inv\<close>, \<open>save_inv\<close>)
  are such states: the text \<open>getSnapshotText\<close> returns for them is parsed back to
  what was serialized.
\<close>

theorem serialize_parse_round_trip:
  "(params_ok p \<longrightarrow> parseSnapshot (serializeSnapshot p) = Inr (expected_parse p))
   \<and> (session_inv s \<and> save_inv s \<and> currentRound_s s = Some r
        \<and> numbers_safe (snapshot_params s r) \<longrightarrow>
         params_ok (snapshot_params s r)
         \<and> getSnapshotText s = Inr (serializeSnapshot (snapshot_params s r))
         \<and> parseSnapshot (serializeSnapshot (snapshot_params s r))
             = Inr (expected_parse (snapshot_params s r)))"
proof -
  have a: "params_ok p \<longrightarrow> parseSnapshot (serializeSnapshot p) = Inr (expected_parse p)"
    using parseSnapshot_serializeSnapshot by blast
  have b: "session_inv s \<and> save_inv s \<and> currentRound_s s = Some r
        \<and> numbers_safe (snapshot_params s r) \<longrightarrow>
         params_ok (snapshot_params s r)
         \<and> getSnapshotText s = Inr (serializeSnapshot (snapshot_params s r))
         \<and> parseSnapshot (serializeSnapshot (snapshot_params s r))
             = Inr (expected_parse (snapshot_params s r))"
  proof
    assume h: "session_inv s \<and> save_inv s \<and> currentRound_s s = Some r
        \<and> numbers_safe (snapshot_params s r)"
    then have ok: "params_ok (snapshot_params s r)" using snapshot_params_ok by blast
    moreover have "getSnapshotText s = Inr (serializeSnapshot (snapshot_params s r))"
      using h getSnapshotText_params by blast
    moreover have "parseSnapshot (serializeSnapshot (snapshot_params s r))
             = Inr (expected_parse (snapshot_params s r))"
      using ok by (rule parseSnapshot_serializeSnapshot)
    ultimately show "params_ok (snapshot_params s r)
         \<and> getSnapshotText s = Inr (serializeSnapshot (snapshot_params s r))
         \<and> parseSnapshot (serializeSnapshot (snapshot_params s r))
             = Inr (expected_parse (snapshot_params s r))" by blast
  qed
  show ?thesis using a b by blast
qed

theorem serialize_parse_round_trip_witness:
  "params_ok example_params
   \<and> parseSnapshot (serializeSnapshot example_params) =
       Inr \<lparr>computerSquares_ps = [Num 1, Num 0, Num 0, Num 4, Num 0, Num 6, Num 7, Num 8, Num 9],
            humanSquares_ps = [Num 1, Num 2, Num 3, Num 4, Num 5, Num 6, Num 7, Num 8, Num 9],
            computerScore_ps = Num 12, humanScore_ps = Num 7,
            firstTurnId_ps = HUMAN, nextTurnId_ps = COMPUTER,
            phase_ps = ''awaitingMove'',
            currentDice_ps = \<lparr>d1_pd = Some (Num 3), d2_pd = Some (Num 4), sum_pd = Some (Num 7)\<rparr>,
            advantageLock_ps =
              Some \<lparr>playerId_pl = ''COMPUTER'', squareNumber_pl = Num 5, unlocked_pl = False\<rparr>,
            queuedRolls_ps = [(Num 6, Some (Num 6)), (Num 3, None)]\<rparr>
   \<and> session_inv second_round \<and> save_inv second_round
   \<and> (\<exists>text. getSnapshotText second_round = Inr text
         \<and> parseSnapshot text =
             Inr \<lparr>computerSquares_ps =
                    [Num 0, Num 0, Num 0, Num 4, Num 0, Num 6, Num 7, Num 8, Num 0],
                  humanSquares_ps =
                    [Num 1, Num 2, Num 3, Num 4, Num 5, Num 6, Num 7, Num 8, Num 9],
                  computerScore_ps = Num 0, humanScore_ps = Num 45,
                  firstTurnId_ps = COMPUTER, nextTurnId_ps = COMPUTER,
                  phase_ps = ''awaitingRoll'',
                  currentDice_ps = \<lparr>d1_pd = None, d2_pd = None, sum_pd = None\<rparr>,
                  advantageLock_ps =
                    Some \<lparr>playerId_pl = ''COMPUTER'', squareNumber_pl = Num 9,
                          unlocked_pl = False\<rparr>,
                  queuedRolls_ps = []\<rparr>)"
proof -
  have ok: "params_ok example_params" by code_simp
  have e: "expected_parse example_params =
       \<lparr>computerSquares_ps = [Num 1, Num 0, Num 0, Num 4, Num 0, Num 6, Num 7, Num 8, Num 9],
            humanSquares_ps = [Num 1, Num 2, Num 3, Num 4, Num 5, Num 6, Num 7, Num 8, Num 9],
            computerScore_ps = Num 12, humanScore_ps = Num 7,
            firstTurnId_ps = HUMAN, nextTurnId_ps = COMPUTER,
            phase_ps = ''awaitingMove'',
            currentDice_ps = \<lparr>d1_pd = Some (Num 3), d2_pd = Some (Num 4), sum_pd = Some (Num 7)\<rparr>,
            advantageLock_ps =
              Some \<lparr>playerId_pl = ''COMPUTER'', squareNumber_pl = Num 5, unlocked_pl = False\<rparr>,
            queuedRolls_ps = [(Num 6, Some (Num 6)), (Num 3, None)]\<rparr>"
    by code_simp
  have p: "parseSnapshot (serializeSnapshot example_params) = Inr (expected_parse example_params)"
    using serialize_parse_round_trip [where p = example_params] ok by blast
  obtain r where r: "currentRound_s second_round = Some r"
  proof -
    have "currentRound_s second_round \<noteq> None" by code_simp
    then show ?thesis using that by auto
  qed
  have i1: "session_inv second_round" by code_simp
  have i2: "save_inv second_round" by code_simp
  have "numbers_safe (snapshot_params second_round (the (currentRound_s second_round)))"
    by code_simp
  then have ns: "numbers_safe (snapshot_params second_round r)" using r by simp
  have "expected_parse (snapshot_params second_round (the (currentRound_s second_round))) =
             \<lparr>computerSquares_ps =
                    [Num 0, Num 0, Num 0, Num 4, Num 0, Num 6, Num 7, Num 8, Num 0],
                  humanSquares_ps =
                    [Num 1, Num 2, Num 3, Num 4, Num 5, Num 6, Num 7, Num 8, Num 9],
                  computerScore_ps = Num 0, humanScore_ps = Num 45,
                  firstTurnId_ps = COMPUTER, nextTurnId_ps = COMPUTER,
                  phase_ps = ''awaitingRoll'',
                  currentDice_ps = \<lparr>d1_pd = None, d2_pd = None, sum_pd = None\<rparr>,
                  advantageLock_ps =
                    Some \<lparr>playerId_pl = ''COMPUTER'', squareNumber_pl = Num 9,
                          unlocked_pl = False\<rparr>,
                  queuedRolls_ps = []\<rparr>"
    by code_simp
  then have e2: "expected_parse (snapshot_params second_round r) =
             \<lparr>computerSquares_ps =
                    [Num 0, Num 0, Num 0, Num 4, Num 0, Num 6, Num 7, Num 8, Num 0],
                  humanSquares_ps =
                    [Num 1, Num 2, Num 3, Num 4, Num 5, Num 6, Num 7, Num 8, Num 9],
                  computerScore_ps = Num 0, humanScore_ps = Num 45,
                  firstTurnId_ps = COMPUTER, nextTurnId_ps = COMPUTER,
                  phase_ps = ''awaitingRoll'',
                  currentDice_ps = \<lparr>d1_pd = None, d2_pd = None, sum_pd = None\<rparr>,
                  advantageLock_ps =
                    Some \<lparr>playerId_pl = ''COMPUTER'', squareNumber_pl = Num 9,
                          unlocked_pl = False\<rparr>,
                  queuedRolls_ps = []\<rparr>"
    using r by simp
  have "getSnapshotText second_round = Inr (serializeSnapshot (snapshot_params second_round r))
        \<and> parseSnapshot (serializeSnapshot (snapshot_params second_round r))
            = Inr (expected_parse (snapshot_params second_round r))"
    using serialize_parse_round_trip [where s = second_round and r = r] i1 i2 r ns by blast
  then show ?thesis using ok p e e2 i1 i2 by simp
qed

end
